(* ===== verification/Prelude_Zkas.thy ===== *)
theory Prelude_Zkas
  imports Main "HOL-Library.Word"
begin

text \<open>
  Shared vocabulary of the development.

  \<^item> \<open>outcome\<close> is what a Rust call can end in: a value, a returned error, or a panic. The
    workspace is built with \<open>overflow-checks = true\<close>, so an overflowing \<open>+\<close>, \<open>-\<close> or \<open>*\<close> on a
    machine integer is a panic and not a wrap-around; \<open>add_p\<close>, \<open>sub_p\<close>, \<open>mul_p\<close> model these
    operators and \<open>checked_add\<close>, \<open>checked_sub\<close> the methods that return an option.
  \<^item> machine integers are words of their width;
  \<^item> \<open>le_bytes\<close>/\<open>be_bytes\<close> and their inverses model \<open>to_le_bytes\<close>, \<open>from_le_bytes\<close> and so on.

  The collection \<open>unat_arith_simps\<close> turns statements on words into statements on \<open>nat\<close>, and
  \<open>outcome_splits\<close> holds the rules that take a successful computation apart.
\<close>

named_theorems unat_arith_simps "word operations read as natural numbers"
named_theorems outcome_splits "inversion of successful computations"

text \<open>Values are compared as natural numbers throughout, so \<open>int (unat w)\<close> is kept as it is.\<close>

declare of_nat_unat [simp del]

lemma word_of_nat_unat [simp]: "of_nat (unat w) = (w :: 'w::len word)"
  by (simp add: of_nat_unat)

lemma unat_less: "unat (w :: 'w::len word) < 2 ^ LENGTH('w)"
  by (rule unsigned_less)

lemma nonneg_sint_unat: "0 \<le> sint w \<Longrightarrow> sint w = int (unat w)" for w :: "'w::len word"
proof -
  assume nonneg: "0 \<le> sint w"
  have "sint w < 2 ^ (LENGTH('w) - Suc 0)"
    by (simp add: sint_uint signed_take_bit_int_less_exp)
  also have "\<dots> \<le> 2 ^ LENGTH('w)" by (rule power_increasing) auto
  finally have "take_bit LENGTH('w) (sint w) = sint w"
    using nonneg by (simp add: take_bit_int_eq_self)
  then show ?thesis by (simp add: of_nat_unat uint_sint)
qed

section \<open>Types\<close>

type_synonym u8 = "8 word"
type_synonym u16 = "16 word"
type_synonym u32 = "32 word"
type_synonym u64 = "64 word"
type_synonym u128 = "128 word"
type_synonym bytes = "8 word list"

datatype ('e, 'a) outcome = Ok 'a | Err 'e | Panic

section \<open>The outcome monad\<close>

primrec bind_outcome :: "('e, 'a) outcome \<Rightarrow> ('a \<Rightarrow> ('e, 'b) outcome) \<Rightarrow> ('e, 'b) outcome" where
  "bind_outcome (Ok x) f = f x"
| "bind_outcome (Err e) f = Err e"
| "bind_outcome Panic f = Panic"

primrec map_err :: "('e \<Rightarrow> 'f) \<Rightarrow> ('e, 'a) outcome \<Rightarrow> ('f, 'a) outcome" where
  "map_err f (Ok x) = Ok x"
| "map_err f (Err e) = Err (f e)"
| "map_err f Panic = Panic"

primrec ok_or :: "'e \<Rightarrow> 'a option \<Rightarrow> ('e, 'a) outcome" where
  "ok_or e (Some x) = Ok x"
| "ok_or e None = Err e"

primrec unwrap :: "'a option \<Rightarrow> ('e, 'a) outcome" where
  "unwrap (Some x) = Ok x"
| "unwrap None = Panic"

primrec is_ok :: "('e, 'a) outcome \<Rightarrow> bool" where
  "is_ok (Ok x) = True"
| "is_ok (Err e) = False"
| "is_ok Panic = False"

lemma bind_outcome_Ok_iff [outcome_splits]:
  "bind_outcome m f = Ok y \<longleftrightarrow> (\<exists>x. m = Ok x \<and> f x = Ok y)"
  by (cases m) auto

lemma bind_outcome_Err_iff:
  "bind_outcome m f = Err e \<longleftrightarrow> m = Err e \<or> (\<exists>x. m = Ok x \<and> f x = Err e)"
  by (cases m) auto

lemma bind_outcome_Panic_iff:
  "bind_outcome m f = Panic \<longleftrightarrow> m = Panic \<or> (\<exists>x. m = Ok x \<and> f x = Panic)"
  by (cases m) auto

lemma bind_outcome_assoc:
  "bind_outcome (bind_outcome m f) g = bind_outcome m (\<lambda>x. bind_outcome (f x) g)"
  by (cases m) auto

lemma bind_outcome_cong [fundef_cong]:
  assumes "m = n" and "\<And>x. n = Ok x \<Longrightarrow> f x = g x"
  shows "bind_outcome m f = bind_outcome n g"
  using assms by (cases n) auto

lemma map_err_Ok_iff [outcome_splits]: "map_err f m = Ok x \<longleftrightarrow> m = Ok x"
  by (cases m) auto

lemma map_err_Err_iff: "map_err f m = Err e \<longleftrightarrow> (\<exists>e'. m = Err e' \<and> e = f e')"
  by (cases m) auto

lemma map_err_Panic_iff [simp]: "map_err f m = Panic \<longleftrightarrow> m = Panic"
  by (cases m) auto

lemma ok_or_Ok_iff [outcome_splits]: "ok_or e m = Ok x \<longleftrightarrow> m = Some x"
  by (cases m) auto

lemma ok_or_Err_iff: "ok_or e m = Err e' \<longleftrightarrow> m = None \<and> e' = e"
  by (cases m) auto

lemma ok_or_not_Panic [simp]: "ok_or e m \<noteq> Panic"
  by (cases m) auto

lemma unwrap_Ok_iff [outcome_splits]: "unwrap m = Ok x \<longleftrightarrow> m = Some x"
  by (cases m) auto

lemma unwrap_not_Err [simp]: "unwrap m \<noteq> Err e"
  by (cases m) auto

lemma unwrap_Panic_iff [simp]: "unwrap m = Panic \<longleftrightarrow> m = None"
  by (cases m) auto

text \<open>A \<open>for\<close> loop whose body may return early: the state is threaded through the list.\<close>

primrec fold_outcome :: "('x \<Rightarrow> 's \<Rightarrow> ('e, 's) outcome) \<Rightarrow> 'x list \<Rightarrow> 's \<Rightarrow> ('e, 's) outcome" where
  "fold_outcome f [] s = Ok s"
| "fold_outcome f (x # xs) s = bind_outcome (f x s) (fold_outcome f xs)"

lemma fold_outcome_append:
  "fold_outcome f (xs @ ys) s = bind_outcome (fold_outcome f xs s) (fold_outcome f ys)"
proof (induction xs arbitrary: s)
  case Nil
  then show ?case by simp
next
  case (Cons x xs)
  then show ?case by (cases "f x s") simp_all
qed

lemma fold_outcome_invariant:
  assumes "fold_outcome f xs s = Ok t" and "P s"
    and "\<And>x s t. x \<in> set xs \<Longrightarrow> P s \<Longrightarrow> f x s = Ok t \<Longrightarrow> P t"
  shows "P t"
  using assms
proof (induction xs arbitrary: s)
  case Nil
  then show ?case by simp
next
  case (Cons x xs)
  from Cons.prems(1) obtain u where u: "f x s = Ok u" "fold_outcome f xs u = Ok t"
    by (auto simp: bind_outcome_Ok_iff)
  have "P u" by (rule Cons.prems(3) [OF _ Cons.prems(2) u(1)]) simp
  from u(2) this show ?case
    by (rule Cons.IH) (rule Cons.prems(3), simp_all)
qed

text \<open>Indexing a slice panics out of range.\<close>

definition nth_p :: "'a list \<Rightarrow> nat \<Rightarrow> ('e, 'a) outcome" where
  "nth_p xs i = (if i < length xs then Ok (xs ! i) else Panic)"

lemma nth_p_Ok_iff [outcome_splits]: "nth_p xs i = Ok x \<longleftrightarrow> i < length xs \<and> xs ! i = x"
  by (auto simp: nth_p_def)

lemma nth_p_less [simp]: "i < length xs \<Longrightarrow> nth_p xs i = Ok (xs ! i)"
  by (simp add: nth_p_def)

text \<open>\<open>chunks_exact\<close>: consecutive pieces of length \<open>k\<close>, a shorter rest is dropped.\<close>

function chunks_exact :: "nat \<Rightarrow> 'a list \<Rightarrow> 'a list list" where
  "chunks_exact k xs = (if k = 0 \<or> length xs < k then [] else take k xs # chunks_exact k (drop k xs))"
  by pat_completeness auto
termination
  by (relation "measure (\<lambda>(k, xs). length xs)") auto

declare chunks_exact.simps [simp del]

lemma chunks_exact_short [simp]: "length xs < k \<Longrightarrow> chunks_exact k xs = []"
  by (simp add: chunks_exact.simps)

lemma chunks_exact_append:
  "length xs = k \<Longrightarrow> 0 < k \<Longrightarrow> chunks_exact k (xs @ ys) = xs # chunks_exact k ys"
  by (simp add: chunks_exact.simps [of k "xs @ ys"])

lemma chunks_exact_concat:
  "0 < k \<Longrightarrow> (\<forall>x \<in> set xss. length x = k) \<Longrightarrow> chunks_exact k (concat xss) = xss"
  by (induction xss) (auto simp: chunks_exact_append)

lemma length_in_chunks_exact: "c \<in> set (chunks_exact k xs) \<Longrightarrow> length c = k"
proof (induction k xs rule: chunks_exact.induct)
  case (1 k xs)
  then show ?case
    by (auto simp: chunks_exact.simps [of k xs] split: if_splits)
qed

lemma length_chunks_exact: "0 < k \<Longrightarrow> length (chunks_exact k xs) = length xs div k"
proof (induction k xs rule: chunks_exact.induct)
  case (1 k xs)
  then show ?case
    by (auto simp: chunks_exact.simps [of k xs] le_div_geq)
qed

text \<open>
  Hash functions come from third-party crates and are parameters of the model. Statements on
  binding name the two sets of byte strings that were hashed: equal digests mean equal inputs, or
  the two sets exhibit a collision.
\<close>

definition collision :: "('a \<Rightarrow> 'b) \<Rightarrow> 'a set \<Rightarrow> 'a set \<Rightarrow> bool" where
  "collision h A B \<longleftrightarrow> (\<exists>x \<in> A. \<exists>y \<in> B. x \<noteq> y \<and> h x = h y)"

lemma collisionI: "x \<in> A \<Longrightarrow> y \<in> B \<Longrightarrow> x \<noteq> y \<Longrightarrow> h x = h y \<Longrightarrow> collision h A B"
  by (auto simp: collision_def)

lemma collision_mono: "collision h A B \<Longrightarrow> A \<subseteq> A' \<Longrightarrow> B \<subseteq> B' \<Longrightarrow> collision h A' B'"
  by (auto simp: collision_def)

section \<open>Checked arithmetic\<close>

definition checked_add :: "'w::len word \<Rightarrow> 'w word \<Rightarrow> 'w word option" where
  "checked_add a b = (if unat a + unat b < 2 ^ LENGTH('w) then Some (a + b) else None)"

definition checked_sub :: "'w::len word \<Rightarrow> 'w word \<Rightarrow> 'w word option" where
  "checked_sub a b = (if b \<le> a then Some (a - b) else None)"

definition checked_mul :: "'w::len word \<Rightarrow> 'w word \<Rightarrow> 'w word option" where
  "checked_mul a b = (if unat a * unat b < 2 ^ LENGTH('w) then Some (a * b) else None)"

definition saturating_sub :: "'w::len word \<Rightarrow> 'w word \<Rightarrow> 'w word" where
  "saturating_sub a b = (if b \<le> a then a - b else 0)"

definition saturating_add :: "'w::len word \<Rightarrow> 'w word \<Rightarrow> 'w word" where
  "saturating_add a b = (if unat a + unat b < 2 ^ LENGTH('w) then a + b else - 1)"

definition saturating_mul :: "'w::len word \<Rightarrow> 'w word \<Rightarrow> 'w word" where
  "saturating_mul a b = (if unat a * unat b < 2 ^ LENGTH('w) then a * b else - 1)"

abbreviation add_p :: "'w::len word \<Rightarrow> 'w word \<Rightarrow> ('e, 'w word) outcome" where
  "add_p a b \<equiv> unwrap (checked_add a b)"

abbreviation sub_p :: "'w::len word \<Rightarrow> 'w word \<Rightarrow> ('e, 'w word) outcome" where
  "sub_p a b \<equiv> unwrap (checked_sub a b)"

abbreviation mul_p :: "'w::len word \<Rightarrow> 'w word \<Rightarrow> ('e, 'w word) outcome" where
  "mul_p a b \<equiv> unwrap (checked_mul a b)"

text \<open>The characteristic equations: a checked operation succeeds exactly with the true result.\<close>

lemma checked_add_Some_iff [unat_arith_simps]:
  "checked_add a b = Some (c :: 'w::len word) \<longleftrightarrow> unat c = unat a + unat b"
proof
  assume "checked_add a b = Some c"
  then show "unat c = unat a + unat b"
    by (auto simp: checked_add_def unat_word_ariths split: if_splits)
next
  assume c: "unat c = unat a + unat b"
  then have "unat a + unat b < 2 ^ LENGTH('w)"
    by (metis unsigned_less)
  with c show "checked_add a b = Some c"
    by (auto simp: checked_add_def word_unat_eq_iff unat_word_ariths)
qed

lemma checked_add_None_iff:
  "checked_add a b = None \<longleftrightarrow> 2 ^ LENGTH('w) \<le> unat a + unat (b :: 'w::len word)"
  by (auto simp: checked_add_def)

lemma checked_sub_Some_iff [unat_arith_simps]:
  "checked_sub a b = Some c \<longleftrightarrow> unat a = unat c + unat (b :: 'w::len word)"
proof
  assume "checked_sub a b = Some c"
  then have "b \<le> a" and c: "c = a - b"
    by (auto simp: checked_sub_def split: if_splits)
  then show "unat a = unat c + unat b"
    by (simp add: unat_sub word_le_nat_alt)
next
  assume a: "unat a = unat c + unat b"
  then have "b \<le> a" by (simp add: word_le_nat_alt)
  with a show "checked_sub a b = Some c"
    by (simp add: checked_sub_def word_unat_eq_iff unat_sub)
qed

lemma checked_sub_None_iff:
  "checked_sub a b = None \<longleftrightarrow> unat a < unat (b :: 'w::len word)"
  by (simp add: checked_sub_def word_le_nat_alt)

lemma checked_mul_Some_iff [unat_arith_simps]:
  "checked_mul a b = Some (c :: 'w::len word) \<longleftrightarrow> unat c = unat a * unat b"
proof
  assume "checked_mul a b = Some c"
  then show "unat c = unat a * unat b"
    by (auto simp: checked_mul_def unat_word_ariths split: if_splits)
next
  assume c: "unat c = unat a * unat b"
  then have "unat a * unat b < 2 ^ LENGTH('w)"
    by (metis unsigned_less)
  with c show "checked_mul a b = Some c"
    by (auto simp: checked_mul_def word_unat_eq_iff unat_word_ariths)
qed

lemma unat_saturating_sub [unat_arith_simps]: "unat (saturating_sub a b) = unat a - unat b"
  by (auto simp: saturating_sub_def unat_sub_if' word_le_nat_alt)

lemma unat_saturating_add:
  "unat (saturating_add a b) = min (unat a + unat b) (2 ^ LENGTH('w) - 1)"
  for a b :: "'w::len word"
  by (auto simp: saturating_add_def unat_word_ariths unsigned_minus_1_eq_mask mask_eq_exp_minus_1)

lemma unat_up_ucast:
  "LENGTH('a) \<le> LENGTH('b) \<Longrightarrow> unat (ucast (x :: 'a::len word) :: 'b::len word) = unat x"
  by (simp add: unsigned_ucast_eq take_bit_nat_eq_self_iff)
    (metis less_le_trans one_le_numeral power_increasing unsigned_less)


section \<open>Byte encodings of integers\<close>

primrec le_bytes :: "nat \<Rightarrow> nat \<Rightarrow> bytes" where
  "le_bytes 0 n = []"
| "le_bytes (Suc k) n = of_nat (n mod 256) # le_bytes k (n div 256)"

primrec le_nat :: "bytes \<Rightarrow> nat" where
  "le_nat [] = 0"
| "le_nat (b # bs) = unat b + 256 * le_nat bs"

definition to_le_bytes :: "'w::len word \<Rightarrow> bytes" where
  "to_le_bytes w = le_bytes (LENGTH('w) div 8) (unat w)"

definition from_le_bytes :: "bytes \<Rightarrow> 'w::len word" where
  "from_le_bytes bs = of_nat (le_nat bs)"

definition to_be_bytes :: "'w::len word \<Rightarrow> bytes" where
  "to_be_bytes w = rev (to_le_bytes w)"

definition from_be_bytes :: "bytes \<Rightarrow> 'w::len word" where
  "from_be_bytes bs = from_le_bytes (rev bs)"

lemma length_le_bytes [simp]: "length (le_bytes k n) = k"
  by (induction k arbitrary: n) auto

lemma unat_byte_of_nat [simp]: "unat (of_nat (n mod 256) :: u8) = n mod 256"
  by (simp add: unat_of_nat)

lemma le_nat_le_bytes: "le_nat (le_bytes k n) = n mod 256 ^ k"
proof (induction k arbitrary: n)
  case 0
  then show ?case by simp
next
  case (Suc k)
  have "n mod 256 ^ Suc k = n mod 256 + 256 * (n div 256 mod 256 ^ k)"
    by (simp add: mod_mult2_eq)
  with Suc show ?case by simp
qed

lemma le_nat_less: "le_nat bs < 256 ^ length bs"
proof (induction bs)
  case Nil
  then show ?case by simp
next
  case (Cons b bs)
  have "unat b < 256" using unsigned_less [of b] by simp
  with Cons show ?case by simp
qed

lemma le_bytes_le_nat: "le_bytes (length bs) (le_nat bs) = bs"
proof (induction bs)
  case Nil
  then show ?case by simp
next
  case (Cons b bs)
  have b: "unat b < 256" using unsigned_less [of b] by simp
  then have "(unat b + 256 * le_nat bs) mod 256 = unat b"
    and "(unat b + 256 * le_nat bs) div 256 = le_nat bs"
    by simp_all
  with Cons b show ?case by simp
qed

lemma pow_256: "(256::nat) ^ k = 2 ^ (8 * k)"
  by (simp add: power_mult)

lemma length_to_le_bytes [simp]: "length (to_le_bytes (w :: 'w::len word)) = LENGTH('w) div 8"
  by (simp add: to_le_bytes_def)

lemma length_to_be_bytes [simp]: "length (to_be_bytes (w :: 'w::len word)) = LENGTH('w) div 8"
  by (simp add: to_be_bytes_def)

lemma from_le_to_le:
  assumes "8 dvd LENGTH('w)"
  shows "from_le_bytes (to_le_bytes w) = (w :: 'w::len word)"
proof -
  have "unat w < 256 ^ (LENGTH('w) div 8)"
    using assms unsigned_less [of w] by (simp add: pow_256)
  then show ?thesis
    by (simp add: from_le_bytes_def to_le_bytes_def le_nat_le_bytes)
qed

lemma to_le_from_le:
  assumes "8 * length bs = LENGTH('w)"
  shows "to_le_bytes (from_le_bytes bs :: 'w::len word) = bs"
proof -
  have "le_nat bs < 2 ^ LENGTH('w)"
    using le_nat_less [of bs] assms by (simp add: pow_256)
  moreover have "LENGTH('w) div 8 = length bs"
    using assms by (metis nonzero_mult_div_cancel_left zero_neq_numeral)
  ultimately show ?thesis
    by (simp add: from_le_bytes_def to_le_bytes_def unat_of_nat le_bytes_le_nat)
qed

lemma from_be_to_be:
  "8 dvd LENGTH('w) \<Longrightarrow> from_be_bytes (to_be_bytes w) = (w :: 'w::len word)"
  by (simp add: from_be_bytes_def to_be_bytes_def from_le_to_le)

lemma to_be_from_be:
  "8 * length bs = LENGTH('w) \<Longrightarrow> to_be_bytes (from_be_bytes bs :: 'w::len word) = bs"
  by (simp add: from_be_bytes_def to_be_bytes_def to_le_from_le)

lemma from_le_to_le_widths [simp]:
  "from_le_bytes (to_le_bytes a) = (a :: u8)" "from_le_bytes (to_le_bytes b) = (b :: u16)"
  "from_le_bytes (to_le_bytes c) = (c :: u32)" "from_le_bytes (to_le_bytes d) = (d :: u64)"
  "from_le_bytes (to_le_bytes e) = (e :: u128)"
  by (simp_all add: from_le_to_le)

lemma from_be_to_be_widths [simp]:
  "from_be_bytes (to_be_bytes a) = (a :: u8)" "from_be_bytes (to_be_bytes b) = (b :: u16)"
  "from_be_bytes (to_be_bytes c) = (c :: u32)" "from_be_bytes (to_be_bytes d) = (d :: u64)"
  "from_be_bytes (to_be_bytes e) = (e :: u128)"
  by (simp_all add: from_be_to_be)

lemma to_le_bytes_small_inject [simp]:
  "to_le_bytes a = to_le_bytes a' \<longleftrightarrow> a = (a' :: u8)" "to_le_bytes b = to_le_bytes b' \<longleftrightarrow> b = (b' :: u16)"
  "to_le_bytes c = to_le_bytes c' \<longleftrightarrow> c = (c' :: u32)"
  by (metis from_le_to_le_widths)+

lemma to_le_bytes_u64_inject [simp]: "to_le_bytes a = to_le_bytes b \<longleftrightarrow> a = (b :: u64)"
  by (metis from_le_to_le_widths(4))

text \<open>Fixed-length prefixes: a field of known width is split off by \<open>take\<close> and \<open>drop\<close>.\<close>

lemma take_append_length: "length xs = n \<Longrightarrow> take n (xs @ ys) = xs"
  by auto

lemma drop_append_length: "length xs = n \<Longrightarrow> drop n (xs @ ys) = ys"
  by auto

lemma unat_of_nat_less: "n < 2 ^ LENGTH('w) \<Longrightarrow> unat (of_nat n :: 'w::len word) = n"
  by (simp add: unat_of_nat)

lemma ucast_of_nat_less: "n < 2 ^ LENGTH('a) \<Longrightarrow> ucast (of_nat n :: 'a::len word) = (of_nat n :: 'b::len word)"
  by (metis of_nat_unat unat_of_nat_less)

lemma add_p_of_nat: "p + q < 2 ^ LENGTH('w) \<Longrightarrow> add_p (of_nat p :: 'w::len word) (of_nat q) = Ok (of_nat (p + q))"
  by (simp add: checked_add_def unat_of_nat_less)

lemma mul_p_of_nat: "p * q < 2 ^ LENGTH('w) \<Longrightarrow> p < 2 ^ LENGTH('w) \<Longrightarrow> q < 2 ^ LENGTH('w) \<Longrightarrow>
    mul_p (of_nat p :: 'w::len word) (of_nat q) = Ok (of_nat (p * q))"
  by (simp add: checked_mul_def unat_of_nat_less)

lemma sub_p_le: "b \<le> a \<Longrightarrow> sub_p a b = Ok (a - b)"
  by (simp add: checked_sub_def)

lemma div_of_nat:
  "p < 2 ^ LENGTH('w) \<Longrightarrow> q < 2 ^ LENGTH('w) \<Longrightarrow> (of_nat p :: 'w::len word) div of_nat q = of_nat (p div q)"
  by (metis unat_div unat_of_nat_less word_of_nat_unat)

lemma unat_down_ucast:
  "unat v < 2 ^ LENGTH('b) \<Longrightarrow> unat (ucast (v :: 'a::len word) :: 'b::len word) = unat v"
  by (simp add: unsigned_ucast_eq take_bit_nat_eq_self)

section \<open>Checked division and traversal\<close>

definition div_p :: "'w::len word \<Rightarrow> 'w word \<Rightarrow> ('e, 'w word) outcome" where
  "div_p a b = (if b = 0 then Panic else Ok (a div b))"

definition div_ceil_p :: "'w::len word \<Rightarrow> 'w word \<Rightarrow> ('e, 'w word) outcome" where
  "div_ceil_p a b =
     (if b = 0 then Panic else Ok (if 0 < a mod b then a div b + 1 else a div b))"

lemma div_p_ok [simp]: "b \<noteq> 0 \<Longrightarrow> div_p a b = Ok (a div b)"
  by (simp add: div_p_def)

text \<open>\<open>iter.map(f).collect::<Result<Vec<_>, _>>()\<close>: the first failure stops the traversal.\<close>

primrec map_outcome :: "('a \<Rightarrow> ('e, 'b) outcome) \<Rightarrow> 'a list \<Rightarrow> ('e, 'b list) outcome" where
  "map_outcome f [] = Ok []"
| "map_outcome f (x # xs) = bind_outcome (f x) (\<lambda>y. bind_outcome (map_outcome f xs) (\<lambda>ys. Ok (y # ys)))"

lemma map_outcome_Ok: "(\<And>x. x \<in> set xs \<Longrightarrow> f x = Ok (g x)) \<Longrightarrow> map_outcome f xs = Ok (map g xs)"
  by (induction xs) auto

lemma map_outcome_Ok_iff: "map_outcome f xs = Ok ys \<longleftrightarrow> map f xs = map Ok ys"
  by (induction xs arbitrary: ys) (auto simp: bind_outcome_Ok_iff map_eq_Cons_conv)

section \<open>Postconditions\<close>

text \<open>
  \<open>safe m Q\<close>: the computation does not panic, and a value it returns satisfies \<open>Q\<close>. The rules compute the
  weakest precondition of a sequence of calls; \<open>safe_mono\<close> puts the contract of one call in its place.
\<close>

definition safe :: "('e, 'a) outcome \<Rightarrow> ('a \<Rightarrow> bool) \<Rightarrow> bool" where
  "safe m Q \<longleftrightarrow> (case m of Ok x \<Rightarrow> Q x | Err _ \<Rightarrow> True | Panic \<Rightarrow> False)"

lemma safe_simps [simp]: "safe (Ok x) Q = Q x" "safe (Err e) Q" "\<not> safe Panic Q"
  by (simp_all add: safe_def)

lemma safe_bind [simp]: "safe (bind_outcome m f) Q = safe m (\<lambda>x. safe (f x) Q)"
  by (cases m) simp_all

lemma safe_map_err [simp]: "safe (map_err g m) Q = safe m Q"
  by (cases m) simp_all

lemma safe_if [simp]: "safe (if b then m else n) Q \<longleftrightarrow> (b \<longrightarrow> safe m Q) \<and> (\<not> b \<longrightarrow> safe n Q)"
  by simp

lemma safe_ok_or [simp]: "safe (ok_or e v) Q \<longleftrightarrow> (\<forall>x. v = Some x \<longrightarrow> Q x)"
  by (cases v) (simp_all add: safe_def)

lemma safe_unwrap [simp]: "safe (unwrap v) Q \<longleftrightarrow> (\<exists>x. v = Some x \<and> Q x)"
  by (cases v) (simp_all add: safe_def)

lemma safe_case_option [simp]:
  "safe (case v of None \<Rightarrow> m | Some x \<Rightarrow> n x) Q \<longleftrightarrow> (v = None \<longrightarrow> safe m Q) \<and> (\<forall>x. v = Some x \<longrightarrow> safe (n x) Q)"
  by (cases v) simp_all

lemma safe_case_prod [simp]: "safe (case p of (x, y) \<Rightarrow> m x y) Q \<longleftrightarrow> safe (m (fst p) (snd p)) Q"
  by (cases p) simp

lemma safe_mono: "safe m R \<Longrightarrow> (\<And>x. R x \<Longrightarrow> Q x) \<Longrightarrow> safe m Q"
  by (cases m) (auto simp: safe_def)

lemma safe_Ok: "safe m Q \<Longrightarrow> m = Ok x \<Longrightarrow> Q x"
  by (simp add: safe_def)

lemma safe_not_Panic: "safe m Q \<Longrightarrow> m \<noteq> Panic"
  by (auto simp: safe_def)

lemma safe_conj: "safe m Q \<Longrightarrow> safe m R \<Longrightarrow> safe m (\<lambda>x. Q x \<and> R x)"
  by (cases m) (auto simp: safe_def)

lemma safe_TrueI: "m \<noteq> Panic \<Longrightarrow> safe m (\<lambda>_. True)"
  by (cases m) (auto simp: safe_def)

lemma safe_iff: "safe m Q \<longleftrightarrow> m \<noteq> Panic \<and> (\<forall>x. m = Ok x \<longrightarrow> Q x)"
  by (cases m) (auto simp: safe_def)

section \<open>Byte strings of literals\<close>

definition ascii_bytes :: "string \<Rightarrow> bytes" where
  "ascii_bytes s = map (\<lambda>c. of_nat (of_char c)) s"

lemma sum_list_unat_le:
  "x \<in> set xs \<Longrightarrow> f x \<le> sum_list (map f xs)" for f :: "'a \<Rightarrow> nat"
  by (induction xs) auto

end
