(* ===== verification/Burn_Accumulator.thy ===== *)
theory Burn_Accumulator
  imports Prelude_Zkas
begin

text \<open>
  The bridge burn accumulator (\<^verbatim>\<open>shielded-core/src/burn.rs\<close>): exit receipts, their leaf hash, the
  append-only Merkle accumulator with its root, the sibling path of a leaf and the replay of such a
  path. SHA-256 is the parameter \<open>sha256\<close>.

  The lemmas read a level of the tree as a function on all indices, padded with the empty subtree
  of that level (\<open>level_view\<close>); one iteration of the code's loops is then \<open>up\<close> on such functions.
\<close>

section \<open>The model\<close>

definition BRIDGE_ENABLED :: bool where
  "BRIDGE_ENABLED = False"

definition LEAF_DOMAIN :: u8 where "LEAF_DOMAIN = 0x00"
definition NODE_DOMAIN :: u8 where "NODE_DOMAIN = 0x01"

definition EMPTY_LEAF :: bytes where
  "EMPTY_LEAF = replicate 32 0"

record exit_receipt =
  er_v :: u64
  er_recipient :: bytes
  er_n :: bytes

definition leaf_preimage :: "exit_receipt \<Rightarrow> bytes" where
  "leaf_preimage r = LEAF_DOMAIN # to_le_bytes (er_v r) @ er_recipient r @ er_n r"

definition leaf_hash :: "(bytes \<Rightarrow> bytes) \<Rightarrow> exit_receipt \<Rightarrow> bytes" where
  "leaf_hash sha256 r = sha256 (leaf_preimage r)"

definition node_preimage :: "bytes \<Rightarrow> bytes \<Rightarrow> bytes" where
  "node_preimage left right = NODE_DOMAIN # left @ right"

definition node_hash :: "(bytes \<Rightarrow> bytes) \<Rightarrow> bytes \<Rightarrow> bytes \<Rightarrow> bytes" where
  "node_hash sha256 left right = sha256 (node_preimage left right)"

record burn_accumulator =
  acc_leaves :: "bytes list"
  acc_receipts :: "exit_receipt list"

definition acc_new :: burn_accumulator where
  "acc_new = \<lparr>acc_leaves = [], acc_receipts = []\<rparr>"

definition acc_push ::
  "(bytes \<Rightarrow> bytes) \<Rightarrow> burn_accumulator \<Rightarrow> exit_receipt \<Rightarrow> u32 \<times> burn_accumulator"
where
  "acc_push sha256 acc r =
     (of_nat (length (acc_leaves acc)),
      acc\<lparr>acc_leaves := acc_leaves acc @ [leaf_hash sha256 r], acc_receipts := acc_receipts acc @ [r]\<rparr>)"

definition from_receipts :: "(bytes \<Rightarrow> bytes) \<Rightarrow> exit_receipt list \<Rightarrow> burn_accumulator" where
  "from_receipts sha256 rs = foldl (\<lambda>acc r. snd (acc_push sha256 acc r)) acc_new rs"

text \<open>\<open>usize::BITS - x.leading_zeros()\<close> is the number of significant bits of \<open>x\<close>.\<close>

fun bit_length :: "nat \<Rightarrow> nat" where
  "bit_length n = (if n = 0 then 0 else Suc (bit_length (n div 2)))"

declare bit_length.simps [simp del]

definition acc_depth :: "burn_accumulator \<Rightarrow> nat" where
  "acc_depth acc =
     (let n = length (acc_leaves acc) in if n \<le> 1 then 0 else bit_length (n - 1))"

fun pair_hashes :: "(bytes \<Rightarrow> bytes) \<Rightarrow> bytes list \<Rightarrow> bytes list" where
  "pair_hashes sha256 (l # r # rest) = node_hash sha256 l r # pair_hashes sha256 rest"
| "pair_hashes sha256 _ = []"

definition pad_level :: "bytes list \<Rightarrow> bytes \<Rightarrow> bytes list" where
  "pad_level level e = (if length level mod 2 = 1 then level @ [e] else level)"

fun root_loop :: "(bytes \<Rightarrow> bytes) \<Rightarrow> nat \<Rightarrow> bytes list \<Rightarrow> bytes \<Rightarrow> bytes list" where
  "root_loop sha256 0 level e = level"
| "root_loop sha256 (Suc d) level e =
     root_loop sha256 d (pair_hashes sha256 (pad_level level e)) (node_hash sha256 e e)"

definition acc_root :: "(bytes \<Rightarrow> bytes) \<Rightarrow> burn_accumulator \<Rightarrow> ('e, bytes) outcome" where
  "acc_root sha256 acc =
     (if acc_leaves acc = [] then Ok EMPTY_LEAF
      else nth_p (root_loop sha256 (acc_depth acc) (acc_leaves acc) EMPTY_LEAF) 0)"

fun branch_loop ::
  "(bytes \<Rightarrow> bytes) \<Rightarrow> nat \<Rightarrow> bytes list \<Rightarrow> bytes \<Rightarrow> nat \<Rightarrow> bytes \<Rightarrow> ('e, bytes) outcome"
where
  "branch_loop sha256 0 level e idx out = Ok out"
| "branch_loop sha256 (Suc d) level e idx out =
     (let level = pad_level level e in
      bind_outcome (if idx mod 2 = 0 then nth_p level (idx + 1) else nth_p level (idx - 1)) (\<lambda>sibling.
      branch_loop sha256 d (pair_hashes sha256 level) (node_hash sha256 e e) (idx div 2) (out @ sibling)))"

definition acc_branch ::
  "(bytes \<Rightarrow> bytes) \<Rightarrow> burn_accumulator \<Rightarrow> u32 \<Rightarrow> ('e, bytes option) outcome"
where
  "acc_branch sha256 acc index =
     (if length (acc_leaves acc) \<le> unat index then Ok None
      else bind_outcome
             (branch_loop sha256 (acc_depth acc) (acc_leaves acc) EMPTY_LEAF (unat index) [])
             (\<lambda>out. Ok (Some out)))"

text \<open>The replay loop of \<open>verify_branch\<close>; \<open>index >> level\<close> panics once \<open>level\<close> reaches 32.\<close>

fun replay_loop ::
  "(bytes \<Rightarrow> bytes) \<Rightarrow> u32 \<Rightarrow> nat \<Rightarrow> bytes list \<Rightarrow> bytes \<Rightarrow> ('e, bytes) outcome"
where
  "replay_loop sha256 index level [] acc = Ok acc"
| "replay_loop sha256 index level (sib # sibs) acc =
     (if 32 \<le> level then Panic
      else replay_loop sha256 index (Suc level) sibs
        (if and (drop_bit level index) 1 = 1 then node_hash sha256 sib acc else node_hash sha256 acc sib))"

definition verify_branch ::
  "(bytes \<Rightarrow> bytes) \<Rightarrow> exit_receipt \<Rightarrow> u32 \<Rightarrow> bytes \<Rightarrow> bytes \<Rightarrow> ('e, bool) outcome"
where
  "verify_branch sha256 r index branch root =
     (if length branch mod 32 \<noteq> 0 then Ok False
      else bind_outcome (replay_loop sha256 index 0 (chunks_exact 32 branch) (leaf_hash sha256 r))
             (\<lambda>acc. Ok (acc = root)))"

section \<open>Levels as functions on all indices\<close>

definition level_view :: "bytes list \<Rightarrow> bytes \<Rightarrow> nat \<Rightarrow> bytes" where
  "level_view level e i = (if i < length level then level ! i else e)"

definition up :: "(bytes \<Rightarrow> bytes) \<Rightarrow> (nat \<Rightarrow> bytes) \<Rightarrow> nat \<Rightarrow> bytes" where
  "up sha256 f i = node_hash sha256 (f (2 * i)) (f (2 * i + 1))"

lemma length_pair_hashes [simp]: "length (pair_hashes sha level) = length level div 2"
  by (induction sha level rule: pair_hashes.induct) auto

lemma nth_pair_hashes:
  "i < length level div 2
     \<Longrightarrow> pair_hashes sha level ! i = node_hash sha (level ! (2 * i)) (level ! (2 * i + 1))"
proof (induction sha level arbitrary: i rule: pair_hashes.induct)
  case (1 sha l r rest)
  then show ?case by (cases i) auto
qed auto

lemma length_pad_level: "length (pad_level level e) = 2 * ((length level + 1) div 2)"
  unfolding pad_level_def by simp presburger

lemma nth_pad_level: "i < length (pad_level level e) \<Longrightarrow> pad_level level e ! i = level_view level e i"
  by (auto simp: pad_level_def level_view_def nth_append split: if_splits)

lemma level_view_step:
  "level_view (pair_hashes sha (pad_level level e)) (node_hash sha e e) = up sha (level_view level e)"
proof
  fix i
  have len: "length (pair_hashes sha (pad_level level e)) = (length level + 1) div 2"
    by (simp add: length_pad_level)
  show "level_view (pair_hashes sha (pad_level level e)) (node_hash sha e e) i
      = up sha (level_view level e) i"
  proof (cases "i < (length level + 1) div 2")
    case True
    then have "2 * i + 1 < length (pad_level level e)" by (simp add: length_pad_level)
    moreover from this have "i < length (pad_level level e) div 2" by linarith
    ultimately show ?thesis
      using True len by (simp add: level_view_def [of "pair_hashes sha _"] up_def
          nth_pair_hashes nth_pad_level)
  next
    case False
    then have "length level \<le> 2 * i" by linarith
    with False len show ?thesis by (simp add: level_view_def up_def)
  qed
qed

lemma length_root_loop:
  "length level \<le> 2 ^ d \<Longrightarrow> level \<noteq> [] \<Longrightarrow> length (root_loop sha d level e) = 1"
proof (induction d arbitrary: level e)
  case 0
  then show ?case by (cases level) auto
next
  case (Suc d)
  have "length (pair_hashes sha (pad_level level e)) = (length level + 1) div 2"
    by (simp add: length_pad_level)
  moreover have "(length level + 1) div 2 \<le> 2 ^ d" using Suc.prems(1) by simp
  moreover have "0 < (length level + 1) div 2" using Suc.prems(2) by (cases level) auto
  ultimately show ?case using Suc.IH by (metis length_greater_0_conv root_loop.simps(2))
qed

lemma level_view_root_loop:
  "\<exists>e'. level_view (root_loop sha d level e) e' = (up sha ^^ d) (level_view level e)"
proof (induction d arbitrary: level e)
  case 0
  then show ?case by auto
next
  case (Suc d)
  from Suc [of "pair_hashes sha (pad_level level e)" "node_hash sha e e"] show ?case
    by (simp add: level_view_step funpow_Suc_right del: funpow.simps)
qed

lemma bit_length_bound: "n < 2 ^ bit_length n"
proof (induction n rule: bit_length.induct)
  case (1 n)
  show ?case
  proof (cases "n = 0")
    case False
    then have "n div 2 < 2 ^ bit_length (n div 2)" using 1 by simp
    then have "n < 2 * 2 ^ bit_length (n div 2)" by linarith
    with False show ?thesis by (simp add: bit_length.simps [of n])
  qed simp
qed

lemma bit_length_mono_pow: "n < 2 ^ k \<Longrightarrow> bit_length n \<le> k"
proof (induction k arbitrary: n)
  case 0
  then show ?case by (simp add: bit_length.simps)
next
  case (Suc k)
  then have "bit_length (n div 2) \<le> k" by simp
  then show ?case by (simp add: bit_length.simps [of n])
qed

lemma acc_depth_bound: "length (acc_leaves acc) \<le> 2 ^ acc_depth acc"
  using bit_length_bound [of "length (acc_leaves acc) - 1"]
  by (auto simp: acc_depth_def Let_def)

lemma acc_depth_le: "length (acc_leaves acc) \<le> 2 ^ k \<Longrightarrow> acc_depth acc \<le> k"
  by (auto simp: acc_depth_def Let_def intro!: bit_length_mono_pow)

definition leaf_view :: "burn_accumulator \<Rightarrow> nat \<Rightarrow> bytes" where
  "leaf_view acc = level_view (acc_leaves acc) EMPTY_LEAF"

text \<open>The root never panics and is the top of the padded tree.\<close>

lemma acc_root_eq: "acc_root sha acc = Ok ((up sha ^^ acc_depth acc) (leaf_view acc) 0)"
proof (cases "acc_leaves acc = []")
  case True
  then show ?thesis
    by (simp add: acc_root_def acc_depth_def leaf_view_def level_view_def)
next
  case False
  let ?t = "root_loop sha (acc_depth acc) (acc_leaves acc) EMPTY_LEAF"
  have len: "length ?t = 1" using length_root_loop [OF acc_depth_bound False] .
  obtain e' where "level_view ?t e' = (up sha ^^ acc_depth acc) (leaf_view acc)"
    using level_view_root_loop unfolding leaf_view_def by blast
  then have "?t ! 0 = (up sha ^^ acc_depth acc) (leaf_view acc) 0"
    using len by (metis level_view_def less_one)
  with False len show ?thesis by (simp add: acc_root_def)
qed

section \<open>Branches\<close>

definition sibling_index :: "nat \<Rightarrow> nat" where
  "sibling_index i = (if i mod 2 = 0 then i + 1 else i - 1)"

fun path :: "(bytes \<Rightarrow> bytes) \<Rightarrow> nat \<Rightarrow> (nat \<Rightarrow> bytes) \<Rightarrow> nat \<Rightarrow> bytes list" where
  "path sha 0 f i = []"
| "path sha (Suc d) f i = f (sibling_index i) # path sha d (up sha f) (i div 2)"

lemma length_path [simp]: "length (path sha d f i) = d"
  by (induction d arbitrary: f i) auto

lemma path_widths:
  assumes "\<And>x. length (sha x) = 32"
  shows "(\<And>i. length (f i) = 32) \<Longrightarrow> p \<in> set (path sha d f i) \<Longrightarrow> length p = 32"
proof (induction d arbitrary: f i)
  case 0
  then show ?case by simp
next
  case (Suc d)
  have "length (up sha f j) = 32" for j by (simp add: up_def node_hash_def assms)
  then show ?case using Suc by (auto simp: set_ConsD)
qed

lemma branch_loop_eq:
  "idx < length level \<Longrightarrow>
     branch_loop sha d level e idx out = Ok (out @ concat (path sha d (level_view level e) idx))"
proof (induction d arbitrary: level e idx out)
  case 0
  then show ?case by simp
next
  case (Suc d)
  let ?lv = "pad_level level e"
  have idx: "sibling_index idx < length ?lv"
    using Suc.prems unfolding sibling_index_def length_pad_level by (simp; presburger)
  then have sib: "(if idx mod 2 = 0 then nth_p ?lv (idx + 1) else nth_p ?lv (idx - 1))
      = Ok (level_view level e (sibling_index idx))"
    by (simp add: sibling_index_def nth_pad_level split: if_splits)
  have "idx div 2 < length (pair_hashes sha ?lv)"
    using Suc.prems by (simp add: length_pad_level)
  then show ?case
    unfolding branch_loop.simps Let_def sib by (simp add: Suc.IH level_view_step)
qed

lemma index_bit: "and (drop_bit level (index :: u32)) 1 = 1 \<longleftrightarrow> (unat index div 2 ^ level) mod 2 = 1"
proof -
  have "unat (drop_bit level index) = unat index div 2 ^ level"
    by (metis drop_bit_eq_div unat_drop_bit_eq)
  then have "unat (and (drop_bit level index) 1) = (unat index div 2 ^ level) mod 2"
    by (simp only: and_one_eq unat_mod_distrib) simp
  then show ?thesis by (simp add: word_unat_eq_iff)
qed

lemma up_sibling:
  "(if i mod 2 = 1 then node_hash sha (f (sibling_index i)) (f i)
    else node_hash sha (f i) (f (sibling_index i))) = up sha f (i div 2)"
proof (cases "i mod 2 = 1")
  case True
  then have "2 * (i div 2) = i - 1" "2 * (i div 2) + 1 = i" by presburger+
  with True show ?thesis by (simp add: up_def sibling_index_def)
next
  case False
  then have "2 * (i div 2) = i" by presburger
  with False show ?thesis by (simp add: up_def sibling_index_def)
qed

lemma replay_path:
  "level + d \<le> 32 \<Longrightarrow> i = unat index div 2 ^ level \<Longrightarrow>
     (replay_loop sha index level (path sha d f i) (f i) :: ('e, bytes) outcome)
       = Ok ((up sha ^^ d) f (i div 2 ^ d))"
proof (induction d arbitrary: level f i)
  case 0
  then show ?case by simp
next
  case (Suc d)
  have "i div 2 = unat index div 2 ^ Suc level"
    using Suc.prems(2) by (simp only: power_Suc2 div_mult2_eq)
  then have IH: "(replay_loop sha index (Suc level) (path sha d (up sha f) (i div 2)) (up sha f (i div 2))
      :: ('e, bytes) outcome) = Ok ((up sha ^^ d) (up sha f) (i div 2 div 2 ^ d))"
    using Suc.IH [of "Suc level" "i div 2" "up sha f"] Suc.prems(1) by simp
  have "and (drop_bit level index) 1 = 1 \<longleftrightarrow> i mod 2 = 1"
    using Suc.prems(2) index_bit by simp
  then have acc: "(if and (drop_bit level index) 1 = 1
        then node_hash sha (f (sibling_index i)) (f i)
        else node_hash sha (f i) (f (sibling_index i))) = up sha f (i div 2)"
    using up_sibling [of i sha f] by simp
  have "\<not> 32 \<le> level" using Suc.prems(1) by simp
  then have "(replay_loop sha index level (path sha (Suc d) f i) (f i) :: ('e, bytes) outcome)
      = replay_loop sha index (Suc level) (path sha d (up sha f) (i div 2)) (up sha f (i div 2))"
    using acc by simp
  then show ?case
    using IH by (simp add: funpow_Suc_right div_mult2_eq del: funpow.simps)
qed

definition acc_wf :: "(bytes \<Rightarrow> bytes) \<Rightarrow> burn_accumulator \<Rightarrow> bool" where
  "acc_wf sha acc \<longleftrightarrow> acc_leaves acc = map (leaf_hash sha) (acc_receipts acc)"

lemma acc_wf_new [simp]: "acc_wf sha acc_new"
  by (simp add: acc_wf_def acc_new_def)

lemma acc_wf_push: "acc_wf sha acc \<Longrightarrow> acc_wf sha (snd (acc_push sha acc r))"
  by (simp add: acc_wf_def acc_push_def)

lemma from_receipts_eq:
  "from_receipts sha rs = \<lparr>acc_leaves = map (leaf_hash sha) rs, acc_receipts = rs\<rparr>"
proof -
  have "foldl (\<lambda>acc r. snd (acc_push sha acc r)) a rs
      = a\<lparr>acc_leaves := acc_leaves a @ map (leaf_hash sha) rs, acc_receipts := acc_receipts a @ rs\<rparr>" for a
    by (induction rs arbitrary: a) (simp_all add: acc_push_def)
  then show ?thesis by (simp add: from_receipts_def acc_new_def)
qed

lemma leaf_view_width:
  assumes "\<And>x. length (sha x) = 32" and "acc_wf sha acc"
  shows "length (leaf_view acc i) = 32"
  using assms by (auto simp: leaf_view_def level_view_def acc_wf_def leaf_hash_def EMPTY_LEAF_def)

lemma acc_branch_eq:
  "unat index < length (acc_leaves acc) \<Longrightarrow>
     acc_branch sha acc index = Ok (Some (concat (path sha (acc_depth acc) (leaf_view acc) (unat index))))"
  by (simp add: acc_branch_def branch_loop_eq leaf_view_def)

lemma chunks_of_path:
  assumes "\<And>x. length (sha x) = 32" and "\<And>i. length (f i) = 32"
  shows "chunks_exact 32 (concat (path sha d f i)) = path sha d f i"
  using path_widths [where sha = sha and f = f, OF assms] by (intro chunks_exact_concat) auto

lemma length_concat_path:
  assumes "\<And>x. length (sha x) = 32" and "\<And>i. length (f i) = 32"
  shows "length (concat (path sha d f i)) = 32 * d"
proof -
  have "map length (path sha d f i) = replicate d 32"
    using path_widths [where sha = sha and f = f and d = d and i = i, OF assms]
    by (intro nth_equalityI) auto
  then show ?thesis by (simp add: length_concat sum_list_replicate)
qed

section \<open>Binding\<close>

text \<open>The byte strings hashed by a replay, and by the padded tree of depth \<open>d\<close> over \<open>f\<close>.\<close>

fun replay_preimages :: "(bytes \<Rightarrow> bytes) \<Rightarrow> u32 \<Rightarrow> nat \<Rightarrow> bytes list \<Rightarrow> bytes \<Rightarrow> bytes set" where
  "replay_preimages sha index level [] a = {}"
| "replay_preimages sha index level (sib # sibs) a =
     (let pre = (if and (drop_bit level index) 1 = 1 then node_preimage sib a else node_preimage a sib)
      in insert pre (replay_preimages sha index (Suc level) sibs (sha pre)))"

fun tree_preimages :: "(bytes \<Rightarrow> bytes) \<Rightarrow> nat \<Rightarrow> (nat \<Rightarrow> bytes) \<Rightarrow> bytes set" where
  "tree_preimages sha 0 f = {}"
| "tree_preimages sha (Suc d) f =
     {node_preimage (f (2 * i)) (f (2 * i + 1)) | i. i < 2 ^ d} \<union> tree_preimages sha d (up sha f)"

lemma node_preimage_inject:
  "length a = length c \<Longrightarrow> node_preimage a b = node_preimage c d \<longleftrightarrow> a = c \<and> b = d"
  by (simp add: node_preimage_def)

lemma up_preimage: "up sha f i = sha (node_preimage (f (2 * i)) (f (2 * i + 1)))"
  by (simp add: up_def node_hash_def)

lemma replay_loop_Cons:
  "(replay_loop sha index level (sib # sibs) a :: ('e, bytes) outcome) = Ok t \<Longrightarrow>
     (replay_loop sha index (Suc level) sibs
       (sha (if and (drop_bit level index) 1 = 1 then node_preimage sib a else node_preimage a sib))
         :: ('e, bytes) outcome) = Ok t"
  by (simp add: node_hash_def split: if_splits)

lemma half_preimage:
  assumes "length (f i) = length a" and "length (f (sibling_index i)) = length sib" and "length a = length sib"
    and "node_preimage (f (2 * (i div 2))) (f (2 * (i div 2) + 1))
      = (if i mod 2 = 1 then node_preimage sib a else node_preimage a sib)"
  shows "a = f i"
proof (cases "i mod 2 = 1")
  case True
  then have "2 * (i div 2) = i - 1" "2 * (i div 2) + 1 = i" by presburger+
  then show ?thesis using True assms by (simp add: node_preimage_inject sibling_index_def)
next
  case False
  then have "2 * (i div 2) = i" by presburger
  then show ?thesis using False assms by (simp add: node_preimage_inject sibling_index_def)
qed

lemma path_index_step:
  fixes x i n :: nat
  assumes "i = x mod 2 ^ Suc n"
  shows "i mod 2 = x mod 2" "i div 2 = (x div 2) mod 2 ^ n" "i div 2 < 2 ^ n"
proof -
  have i: "i = 2 * (x div 2 mod 2 ^ n) + x mod 2" using assms by (simp add: mod_mult2_eq)
  then show "i mod 2 = x mod 2" "i div 2 = (x div 2) mod 2 ^ n" by simp_all
  then show "i div 2 < 2 ^ n" by simp
qed

text \<open>A replay that reaches the top of a padded tree over \<open>f\<close>, with as many siblings as the tree has levels,
  started from the node its index selects.\<close>

lemma replay_binding:
  assumes sha: "\<And>x. length (sha x) = 32"
  shows "(replay_loop sha index level sibs a :: ('e, bytes) outcome) = Ok ((up sha ^^ length sibs) f 0)
     \<Longrightarrow> i = (unat index div 2 ^ level) mod 2 ^ length sibs
     \<Longrightarrow> (\<forall>s \<in> set sibs. length s = 32) \<Longrightarrow> length a = 32 \<Longrightarrow> (\<forall>j. length (f j) = 32)
     \<Longrightarrow> a = f i \<or> collision sha (replay_preimages sha index level sibs a) (tree_preimages sha (length sibs) f)"
proof (induction sibs arbitrary: level a f i)
  case Nil
  then show ?case by simp
next
  case (Cons sib sibs)
  let ?pre = "if and (drop_bit level index) 1 = 1 then node_preimage sib a else node_preimage a sib"
  let ?node = "node_preimage (f (2 * (i div 2))) (f (2 * (i div 2) + 1))"
  have replay: "(replay_loop sha index (Suc level) sibs (sha ?pre) :: ('e, bytes) outcome)
      = Ok ((up sha ^^ length sibs) (up sha f) 0)"
    using replay_loop_Cons [OF Cons.prems(1)] by (simp add: funpow_Suc_right del: funpow.simps)
  note step = path_index_step [OF Cons.prems(2) [unfolded list.size(4) add_Suc_right add_0_right]]
  have i2: "i div 2 = (unat index div 2 ^ Suc level) mod 2 ^ length sibs"
    using step(2) by (simp only: power_Suc2 div_mult2_eq)
  have "\<forall>j. length (up sha f j) = 32" by (simp add: up_def node_hash_def sha)
  with Cons.IH [OF replay i2] Cons.prems(3) sha
  have "sha ?pre = up sha f (i div 2)
      \<or> collision sha (replay_preimages sha index (Suc level) sibs (sha ?pre))
              (tree_preimages sha (length sibs) (up sha f))"
    by simp
  then consider (eq) "sha ?pre = sha ?node"
    | (col) "collision sha (replay_preimages sha index (Suc level) sibs (sha ?pre))
              (tree_preimages sha (length sibs) (up sha f))"
    unfolding up_preimage [of sha f "i div 2"] by blast
  then show ?case
  proof cases
    case eq
    have parity: "and (drop_bit level index) 1 = 1 \<longleftrightarrow> i mod 2 = 1"
      using step(1) index_bit by simp
    show ?thesis
    proof (cases "?pre = ?node")
      case True
      then have "a = f i"
        using Cons.prems(3,4,5) parity by (intro half_preimage [of f i a sib]) auto
      then show ?thesis ..
    next
      case False
      have "?node \<in> tree_preimages sha (length (sib # sibs)) f" using step(3) by auto
      moreover have "?pre \<in> replay_preimages sha index level (sib # sibs) a"
        by (simp add: Let_def)
      ultimately show ?thesis using False eq by (blast intro: collisionI)
    qed
  next
    case col
    then have "collision sha (replay_preimages sha index level (sib # sibs) a)
        (tree_preimages sha (length (sib # sibs)) f)"
      by (rule collision_mono) (auto simp: Let_def)
    then show ?thesis ..
  qed
qed

text \<open>Leaves and interior nodes are hashed in different domains.\<close>

lemma leaf_neq_node [simp]: "leaf_preimage r \<noteq> node_preimage a b" "node_preimage a b \<noteq> leaf_preimage r"
  by (simp_all add: leaf_preimage_def node_preimage_def LEAF_DOMAIN_def NODE_DOMAIN_def)

lemma tree_preimages_above: "tree_preimages sha k ((up sha ^^ m) f) \<subseteq> tree_preimages sha (m + k) f"
proof (induction m arbitrary: f)
  case (Suc m)
  from Suc [of "up sha f"] show ?case by (auto simp: funpow_Suc_right simp del: funpow.simps)
qed simp

lemma interior_node:
  assumes "i < 2 ^ k" "0 < m"
  obtains l r where "(up sha ^^ m) f i = sha (node_preimage l r)" "node_preimage l r \<in> tree_preimages sha (m + k) f"
proof -
  obtain n where m: "m = Suc n" using assms(2) by (cases m) auto
  let ?g = "(up sha ^^ n) f"
  have "node_preimage (?g (2 * i)) (?g (2 * i + 1)) \<in> tree_preimages sha (Suc k) ?g" using assms(1) by auto
  then have "node_preimage (?g (2 * i)) (?g (2 * i + 1)) \<in> tree_preimages sha (m + k) f"
    using tree_preimages_above [of sha "Suc k" n f] m by auto
  moreover have "(up sha ^^ m) f i = sha (node_preimage (?g (2 * i)) (?g (2 * i + 1)))"
    by (simp add: m up_preimage)
  ultimately show ?thesis by (rule that [rotated])
qed

lemma replay_loop_append:
  "(replay_loop sha index level (xs @ ys) a :: ('e, bytes) outcome)
     = bind_outcome (replay_loop sha index level xs a) (replay_loop sha index (level + length xs) ys)"
  by (induction xs arbitrary: level a) auto

lemma replay_preimages_append:
  "(replay_loop sha index level xs a :: ('e, bytes) outcome) = Ok m \<Longrightarrow>
     replay_preimages sha index level (xs @ ys) a
       = replay_preimages sha index level xs a \<union> replay_preimages sha index (level + length xs) ys m"
proof (induction xs arbitrary: level a)
  case (Cons x xs)
  from Cons.IH [OF replay_loop_Cons [OF Cons.prems]] show ?case by (simp add: Let_def)
qed simp

lemma replay_ends_in_node:
  "(replay_loop sha index level xs a :: ('e, bytes) outcome) = Ok m \<Longrightarrow> xs \<noteq> [] \<Longrightarrow>
     \<exists>l r. m = sha (node_preimage l r) \<and> node_preimage l r \<in> replay_preimages sha index level xs a"
proof (induction xs arbitrary: level a)
  case (Cons x xs)
  note rest = replay_loop_Cons [OF Cons.prems(1)]
  show ?case
  proof (cases "xs = []")
    case True
    then show ?thesis using rest by (auto simp: Let_def split: if_splits)
  next
    case False
    from Cons.IH [OF rest False] show ?thesis unfolding replay_preimages.simps Let_def by blast
  qed
qed simp

lemma leaf_preimage_inject:
  assumes "leaf_preimage r = leaf_preimage r'" and "length (er_recipient r) = 32"
    and "length (er_recipient r') = 32"
  shows "r = r'"
proof -
  from assms have "to_le_bytes (er_v r) = to_le_bytes (er_v r')"
    and "er_recipient r = er_recipient r'" and "er_n r = er_n r'"
    by (auto simp: leaf_preimage_def)
  then show ?thesis by simp
qed

text \<open>The three ways a branch can relate to the depth of the tree it is replayed against: too short, the leaf
  hash would be an interior node; too long, an interior node would be a leaf; exact, the index selects the leaf.\<close>

lemma short_branch:
  assumes sha: "\<And>x. length (sha x) = 32" and w: "\<forall>j. length (f j) = 32"
    and sibs: "\<forall>s \<in> set sibs. length s = 32" and short: "length sibs < d"
    and replay: "(replay_loop sha index 0 sibs (leaf_hash sha r) :: ('e, bytes) outcome) = Ok ((up sha ^^ d) f 0)"
  shows "collision sha (insert (leaf_preimage r) (replay_preimages sha index 0 sibs (leaf_hash sha r))) (tree_preimages sha d f)"
    (is "collision sha (insert _ ?R) ?T")
proof -
  let ?k = "length sibs" and ?g = "(up sha ^^ (d - length sibs)) f"
  let ?i = "unat index mod 2 ^ ?k"
  have "(up sha ^^ d) f = (up sha ^^ ?k) ?g"
    using short by (metis funpow_add comp_apply le_add_diff_inverse less_imp_le)
  moreover have "length (?g j) = 32" for j
    using short by (cases "d - ?k") (simp_all add: up_preimage sha)
  ultimately have "leaf_hash sha r = ?g ?i \<or> collision sha ?R (tree_preimages sha ?k ?g)"
    using replay sibs by (intro replay_binding [OF sha, where level = 0]) (simp_all add: leaf_hash_def sha)
  then show ?thesis
  proof
    assume leaf: "leaf_hash sha r = ?g ?i"
    obtain a b where "?g ?i = sha (node_preimage a b)" "node_preimage a b \<in> tree_preimages sha (d - ?k + ?k) f"
      by (rule interior_node [of ?i ?k "d - ?k" sha f]) (use short in simp_all)
    then show ?thesis
      using leaf short by (intro collisionI [of "leaf_preimage r" _ "node_preimage a b"]) (simp_all add: leaf_hash_def)
  next
    assume "collision sha ?R (tree_preimages sha ?k ?g)"
    then show ?thesis
      by (rule collision_mono) (use tree_preimages_above [of sha ?k "d - ?k" f] short in auto)
  qed
qed

lemma long_branch:
  assumes sha: "\<And>x. length (sha x) = 32" and w: "\<forall>j. length (f j) = 32"
    and sibs: "\<forall>s \<in> set sibs. length s = 32" and long: "d < length sibs"
    and leaves: "\<forall>j. f j = EMPTY_LEAF \<or> f j \<in> leaf_hash sha ` R"
    and replay: "(replay_loop sha index 0 sibs a :: ('e, bytes) outcome) = Ok ((up sha ^^ d) f 0)"
  shows "collision sha (replay_preimages sha index 0 sibs a) (leaf_preimage ` R \<union> tree_preimages sha d f)
     \<or> (\<exists>x \<in> replay_preimages sha index 0 sibs a. sha x = EMPTY_LEAF)"
    (is "collision sha ?A ?B \<or> _")
proof -
  let ?n = "length sibs - d"
  let ?xs = "take ?n sibs" and ?ys = "drop ?n sibs"
  have n: "length ?xs = ?n" "length ?ys = d" using long by simp_all
  have "bind_outcome (replay_loop sha index 0 ?xs a) (replay_loop sha index ?n ?ys)
      = (Ok ((up sha ^^ d) f 0) :: ('e, bytes) outcome)"
    using replay replay_loop_append [of sha index 0 ?xs ?ys a, where 'e = 'e] n(1) by simp
  then obtain mid where mid: "(replay_loop sha index 0 ?xs a :: ('e, bytes) outcome) = Ok mid"
    and top: "(replay_loop sha index ?n ?ys mid :: ('e, bytes) outcome) = Ok ((up sha ^^ d) f 0)"
    unfolding bind_outcome_Ok_iff by blast
  have A: "?A = replay_preimages sha index 0 ?xs a \<union> replay_preimages sha index ?n ?ys mid"
    using replay_preimages_append [OF mid, of ?ys] n by simp
  have "?xs \<noteq> []" using long by auto
  then obtain l r where node: "mid = sha (node_preimage l r)" "node_preimage l r \<in> ?A"
    using replay_ends_in_node [OF mid] unfolding A by blast
  have "mid = f ((unat index div 2 ^ ?n) mod 2 ^ length ?ys)
      \<or> collision sha (replay_preimages sha index ?n ?ys mid) (tree_preimages sha (length ?ys) f)"
    using top n sibs w node(1) by (intro replay_binding [OF sha]) (auto simp: sha dest: in_set_dropD)
  then consider (leaf) j where "sha (node_preimage l r) = f j"
    | (col) "collision sha (replay_preimages sha index ?n ?ys mid) (tree_preimages sha d f)"
    using n node by auto
  then show ?thesis
  proof cases
    case leaf
    from leaves consider "f j = EMPTY_LEAF" | r' where "r' \<in> R" "f j = sha (leaf_preimage r')"
      unfolding leaf_hash_def by blast
    then show ?thesis
    proof cases
      case 1
      with leaf node show ?thesis by auto
    next
      case (2 r')
      then show ?thesis
        using leaf node(2) by (intro disjI1 collisionI [of "node_preimage l r" _ "leaf_preimage r'"]) auto
    qed
  next
    case col
    then have "collision sha ?A ?B" by (rule collision_mono) (use A in auto)
    then show ?thesis ..
  qed
qed

lemma exact_branch:
  assumes sha: "\<And>x. length (sha x) = 32" and w: "\<forall>j. length (f j) = 32"
    and sibs: "\<forall>s \<in> set sibs. length s = 32"
    and leaves: "\<forall>j. f j = (if j < length rs then leaf_hash sha (rs ! j) else EMPTY_LEAF)"
    and recipients: "\<forall>r \<in> set rs. length (er_recipient r) = 32" "length (er_recipient r) = 32"
    and replay: "(replay_loop sha index 0 sibs (leaf_hash sha r) :: ('e, bytes) outcome) = Ok ((up sha ^^ length sibs) f 0)"
  shows "(unat index mod 2 ^ length sibs < length rs \<and> r = rs ! (unat index mod 2 ^ length sibs))
     \<or> collision sha (insert (leaf_preimage r) (replay_preimages sha index 0 sibs (leaf_hash sha r)))
         (leaf_preimage ` set rs \<union> tree_preimages sha (length sibs) f)
     \<or> sha (leaf_preimage r) = EMPTY_LEAF"
    (is "?E \<or> collision sha ?A ?B \<or> _")
proof -
  let ?j = "unat index mod 2 ^ length sibs"
  have "leaf_hash sha r = f ?j \<or> collision sha (replay_preimages sha index 0 sibs (leaf_hash sha r)) (tree_preimages sha (length sibs) f)"
    by (rule replay_binding [OF sha, where level = 0]) (use replay sibs w in \<open>simp_all add: leaf_hash_def sha\<close>)
  then consider "?j < length rs" "sha (leaf_preimage r) = sha (leaf_preimage (rs ! ?j))" | "sha (leaf_preimage r) = EMPTY_LEAF"
    | "collision sha (replay_preimages sha index 0 sibs (leaf_hash sha r)) (tree_preimages sha (length sibs) f)"
    using leaves by (auto simp: leaf_hash_def split: if_splits)
  then show ?thesis
  proof cases
    case 1
    show ?thesis
    proof (cases "leaf_preimage r = leaf_preimage (rs ! ?j)")
      case True
      then have "r = rs ! ?j" by (rule leaf_preimage_inject [OF _ recipients(2)]) (use recipients(1) 1 in simp)
      with 1 have ?E by simp
      then show ?thesis ..
    next
      case False
      then have "collision sha ?A ?B"
        using 1 by (intro collisionI [of "leaf_preimage r" _ "leaf_preimage (rs ! ?j)"]) auto
      then show ?thesis by simp
    qed
  next
    case 3
    then have "collision sha ?A ?B" by (rule collision_mono) auto
    then show ?thesis by simp
  qed simp
qed

section \<open>Properties\<close>

lemma unat_index: "i < n \<Longrightarrow> n \<le> 2 ^ 32 \<Longrightarrow> unat (of_nat i :: u32) = i"
  by (simp add: unat_of_nat)

lemma from_receipts_leaf_view:
  "i < length rs \<Longrightarrow> leaf_view (from_receipts sha rs) i = leaf_hash sha (rs ! i)"
  by (simp add: from_receipts_eq leaf_view_def level_view_def)

text \<open>C6. Completeness of the burn accumulator: for every receipt of an accumulator of at most
  \<open>2^32\<close> receipts, \<open>branch\<close> returns a sibling path of exactly \<open>32 * depth\<close> bytes and replaying it with
  \<open>verify_branch\<close> reproduces \<open>root\<close>; neither of the three calls panics.\<close>

theorem burn_branch_verifies:
  assumes sha: "\<And>x. length (sha256 x) = 32"
    and i: "i < length rs" and n: "length rs \<le> 2 ^ 32"
  shows "\<exists>br root.
     acc_branch sha256 (from_receipts sha256 rs) (of_nat i) = (Ok (Some br) :: (unit, _) outcome)
     \<and> length br = 32 * acc_depth (from_receipts sha256 rs)
     \<and> acc_root sha256 (from_receipts sha256 rs) = (Ok root :: (unit, _) outcome)
     \<and> verify_branch sha256 (rs ! i) (of_nat i) br root = (Ok True :: (unit, _) outcome)"
proof -
  let ?acc = "from_receipts sha256 rs"
  let ?f = "leaf_view ?acc"
  let ?d = "acc_depth ?acc"
  let ?p = "path sha256 ?d ?f i"
  have idx: "unat (of_nat i :: u32) = i" using unat_index [OF i n] .
  have wf: "acc_wf sha256 ?acc" by (simp add: acc_wf_def from_receipts_eq)
  have w: "length (?f j) = 32" for j using leaf_view_width [OF sha wf] .
  have d: "?d \<le> 32" using n by (intro acc_depth_le) (simp add: from_receipts_eq)
  have "i < 2 ^ ?d" using i acc_depth_bound [of ?acc] by (simp add: from_receipts_eq)
  then have "(replay_loop sha256 (of_nat i) 0 ?p (?f i) :: (unit, bytes) outcome)
      = Ok ((up sha256 ^^ ?d) ?f 0)"
    using replay_path [of 0 ?d i "of_nat i" sha256 ?f] d idx by simp
  then have "verify_branch sha256 (rs ! i) (of_nat i) (concat ?p) ((up sha256 ^^ ?d) ?f 0)
      = (Ok True :: (unit, _) outcome)"
    using from_receipts_leaf_view [OF i]
    by (simp add: verify_branch_def chunks_of_path [OF sha w] length_concat_path [OF sha w])
  moreover have "acc_branch sha256 ?acc (of_nat i) = (Ok (Some (concat ?p)) :: (unit, _) outcome)"
    using acc_branch_eq [of "of_nat i" ?acc sha256] idx i by (simp add: from_receipts_eq)
  moreover have "length (concat ?p) = 32 * ?d" by (rule length_concat_path [OF sha w])
  moreover have "acc_root sha256 ?acc = (Ok ((up sha256 ^^ ?d) ?f 0) :: (unit, _) outcome)"
    by (rule acc_root_eq)
  ultimately show ?thesis by blast
qed

definition sample_hash :: "bytes \<Rightarrow> bytes" where
  "sample_hash x = take 32 (rev x @ replicate 32 0)"

lemma length_sample_hash: "length (sample_hash x) = 32"
  by (simp add: sample_hash_def)

definition sample_receipt :: "u64 \<Rightarrow> exit_receipt" where
  "sample_receipt v = \<lparr>er_v = v, er_recipient = replicate 32 1, er_n = replicate 32 2\<rparr>"

theorem burn_branch_verifies_witness:
  "\<exists>br root.
     acc_branch sample_hash (from_receipts sample_hash (map sample_receipt [5, 7, 9])) (of_nat 2)
       = (Ok (Some br) :: (unit, _) outcome)
     \<and> length br = 32 * acc_depth (from_receipts sample_hash (map sample_receipt [5, 7, 9]))
     \<and> acc_root sample_hash (from_receipts sample_hash (map sample_receipt [5, 7, 9])) = (Ok root :: (unit, _) outcome)
     \<and> verify_branch sample_hash (map sample_receipt [5, 7, 9] ! 2) (of_nat 2) br root = (Ok True :: (unit, _) outcome)"
  by (rule burn_branch_verifies) (simp_all add: length_sample_hash)

text \<open>C7. Binding of the burn accumulator: whatever receipt, index and branch \<open>verify_branch\<close> accepts against the
  root of an accumulator, the branch has exactly the accumulator's depth and the receipt is the recorded one at that
  index, taken modulo the width of the tree because the code reads only as many bits of the index as there are siblings.
  Otherwise the strings hashed by the replay and by the accumulator contain a SHA-256 collision, or the replay hashes
  a string to the all-zero hash of an empty leaf. Nothing is assumed of the branch, of its length or of the index;
  the 32-byte widths are those of the receipt's array types.\<close>

theorem burn_branch_binding:
  assumes sha: "\<And>x. length (sha256 x) = 32"
    and rs: "\<forall>r \<in> set rs. length (er_recipient r) = 32"
    and r: "length (er_recipient r) = 32"
    and root: "acc_root sha256 (from_receipts sha256 rs) = (Ok root :: (unit, _) outcome)"
    and ok: "verify_branch sha256 r index br root = (Ok True :: (unit, _) outcome)"
  defines "depth \<equiv> acc_depth (from_receipts sha256 rs)"
    and "hashed \<equiv> insert (leaf_preimage r) (replay_preimages sha256 index 0 (chunks_exact 32 br) (leaf_hash sha256 r))"
  shows "(length br = 32 * depth \<and> unat index mod 2 ^ depth < length rs \<and> r = rs ! (unat index mod 2 ^ depth))
     \<or> collision sha256 hashed
         (leaf_preimage ` set rs \<union> tree_preimages sha256 depth (leaf_view (from_receipts sha256 rs)))
     \<or> (\<exists>x \<in> hashed. sha256 x = EMPTY_LEAF)"
    (is "?E \<or> collision sha256 _ ?B \<or> ?Z")
proof -
  let ?f = "leaf_view (from_receipts sha256 rs)" and ?sibs = "chunks_exact 32 br"
  have "acc_wf sha256 (from_receipts sha256 rs)" by (simp add: acc_wf_def from_receipts_eq)
  then have w: "\<forall>j. length (?f j) = 32" using leaf_view_width [of sha256, OF sha] by blast
  have sibs: "\<forall>s \<in> set ?sibs. length s = 32" by (auto dest: length_in_chunks_exact)
  have br: "length br = 32 * length ?sibs"
    using ok by (auto simp: verify_branch_def length_chunks_exact split: if_splits)
  have replay: "(replay_loop sha256 index 0 ?sibs (leaf_hash sha256 r) :: (unit, _) outcome) = Ok ((up sha256 ^^ depth) ?f 0)"
    using ok root by (simp add: verify_branch_def bind_outcome_Ok_iff acc_root_eq depth_def split: if_splits)
  have leaves: "\<forall>j. ?f j = (if j < length rs then leaf_hash sha256 (rs ! j) else EMPTY_LEAF)"
    by (simp add: from_receipts_eq leaf_view_def level_view_def)
  consider "length ?sibs < depth" | "depth < length ?sibs" | "length ?sibs = depth" by linarith
  then show ?thesis
  proof cases
    case 1
    from short_branch [OF sha w sibs this replay] have "collision sha256 hashed ?B"
      by (rule collision_mono) (auto simp: hashed_def)
    then show ?thesis by simp
  next
    case 2
    have "\<forall>j. ?f j = EMPTY_LEAF \<or> ?f j \<in> leaf_hash sha256 ` set rs" by (simp add: leaves)
    from long_branch [OF sha w sibs 2 this replay] show ?thesis
    proof
      assume "collision sha256 (replay_preimages sha256 index 0 ?sibs (leaf_hash sha256 r)) ?B"
      then have "collision sha256 hashed ?B" by (rule collision_mono) (auto simp: hashed_def)
      then show ?thesis by simp
    qed (auto simp: hashed_def)
  next
    case 3
    from exact_branch [OF sha w sibs leaves rs r replay [folded 3]] show ?thesis
      using br by (auto simp: 3 hashed_def)
  qed
qed

text \<open>The witness is a forgery that succeeds because the sample hash is weak: it keeps the last 32 bytes only, so it
  does not see the amount. A receipt of another amount replays two levels to the root of four receipts, at an
  index beyond the tree, and the theorem exhibits the collision.\<close>

lemma sample_leaf: "leaf_hash sample_hash (sample_receipt v) = replicate 32 2"
  by (simp add: leaf_hash_def leaf_preimage_def sample_hash_def sample_receipt_def rev_append)

lemma sample_node: "sample_hash (node_preimage l (replicate 32 x)) = replicate 32 x"
  by (simp add: node_preimage_def sample_hash_def rev_append)

definition sample_receipts :: "exit_receipt list" where
  "sample_receipts = map sample_receipt [5, 7, 9, 11]"

lemma sample_depth: "acc_depth (from_receipts sample_hash sample_receipts) = 2"
  by (simp add: acc_depth_def from_receipts_eq sample_receipts_def bit_length.simps [of "Suc _"] bit_length.simps [of 0])

lemma root_loop_two:
  "root_loop sha 2 level e = pair_hashes sha (pad_level (pair_hashes sha (pad_level level e)) (node_hash sha e e))"
  by (simp add: numeral_2_eq_2)

lemma sample_root: "acc_root sample_hash (from_receipts sample_hash sample_receipts) = (Ok (replicate 32 2) :: (unit, _) outcome)"
  unfolding acc_root_def sample_depth
  by (simp add: from_receipts_eq sample_receipts_def sample_leaf pad_level_def node_hash_def sample_node root_loop_two nth_p_def)

lemma sample_chunks: "chunks_exact 32 (replicate 64 2 :: bytes) = [replicate 32 2, replicate 32 2]"
  by (simp add: chunks_exact.simps)

lemma sample_forged:
  "verify_branch sample_hash (sample_receipt 999) 6 (replicate 64 2) (replicate 32 2) = (Ok True :: (unit, _) outcome)"
  by (simp add: verify_branch_def sample_chunks sample_leaf node_hash_def sample_node)

theorem burn_branch_binding_witness:
  "acc_root sample_hash (from_receipts sample_hash sample_receipts) = (Ok (replicate 32 2) :: (unit, _) outcome)
   \<and> verify_branch sample_hash (sample_receipt 999) 6 (replicate 64 2) (replicate 32 2) = (Ok True :: (unit, _) outcome)
   \<and> sample_receipt 999 \<notin> set sample_receipts
   \<and> collision sample_hash
       (insert (leaf_preimage (sample_receipt 999))
         (replay_preimages sample_hash 6 0 (chunks_exact 32 (replicate 64 2)) (leaf_hash sample_hash (sample_receipt 999))))
       (leaf_preimage ` set sample_receipts \<union> tree_preimages sample_hash (acc_depth (from_receipts sample_hash sample_receipts))
         (leaf_view (from_receipts sample_hash sample_receipts)))"
proof -
  let ?A = "insert (leaf_preimage (sample_receipt 999))
    (replay_preimages sample_hash 6 0 (chunks_exact 32 (replicate 64 2)) (leaf_hash sample_hash (sample_receipt 999)))"
  have new: "sample_receipt 999 \<notin> set sample_receipts" by (simp add: sample_receipts_def sample_receipt_def)
  have nz: "\<not> (\<exists>x \<in> ?A. sample_hash x = EMPTY_LEAF)"
    using sample_leaf [of 999, unfolded leaf_hash_def]
    by (simp add: sample_chunks Let_def sample_leaf sample_node EMPTY_LEAF_def)
  have "\<forall>r \<in> set sample_receipts. length (er_recipient r) = 32" "length (er_recipient (sample_receipt 999)) = 32"
    by (simp_all add: sample_receipts_def sample_receipt_def)
  note bind = burn_branch_binding [OF length_sample_hash this sample_root sample_forged]
  then show ?thesis using nz new nth_mem sample_root sample_forged by metis
qed

end
