(* ===== verification/Anchor_Log.thy ===== *)
theory Anchor_Log
  imports Prelude_Zkas
begin

text \<open>
  The anchor log (\<^verbatim>\<open>shielded-core/src/anchor_window.rs\<close>): an append-only Merkle mountain range with
  one entry per chain block, and the replay of peer-supplied entries on a peer-supplied prefix.
  BLAKE2b with a personalisation string is the parameter \<open>blake2b\<close>; the streaming calls of
  \<^verbatim>\<open>hash\<close> absorb the concatenation of the parts.

  \<open>peaks_of\<close> builds the mountain range of a list of leaves from scratch, level by level, and is the
  specification of \<open>log_append\<close>. The binding lemmas invert appends: two logs with equal peaks come
  from equal logs and equal entries, or the hashed byte strings contain a collision.
\<close>

section \<open>The model\<close>

type_synonym blake = "bytes \<Rightarrow> bytes \<Rightarrow> bytes"

definition LEAF_PERSONAL :: bytes where "LEAF_PERSONAL = ascii_bytes ''zkas_anchorlog_l''"
definition NODE_PERSONAL :: bytes where "NODE_PERSONAL = ascii_bytes ''zkas_anchorlog_n''"
definition ROOT_PERSONAL :: bytes where "ROOT_PERSONAL = ascii_bytes ''zkas_anchorlog_r''"

definition MAX_PEAKS :: nat where "MAX_PEAKS = 64"

definition blake_hash :: "blake \<Rightarrow> bytes \<Rightarrow> bytes list \<Rightarrow> bytes" where
  "blake_hash blake2b personal parts = blake2b personal (concat parts)"

record window_entry =
  we_block :: bytes
  we_parent :: bytes
  we_root :: bytes
  we_blue_score :: u64

definition entry_hash :: "blake \<Rightarrow> window_entry \<Rightarrow> bytes" where
  "entry_hash b2 e =
     blake_hash b2 LEAF_PERSONAL [we_block e, we_parent e, we_root e, to_le_bytes (we_blue_score e)]"

record anchor_log =
  al_count :: u64
  al_peaks :: "bytes list"

definition log_empty :: anchor_log where
  "log_empty = \<lparr>al_count = 0, al_peaks = []\<rparr>"

text \<open>\<open>count_ones\<close>.\<close>

fun count_ones :: "nat \<Rightarrow> nat" where
  "count_ones n = (if n = 0 then 0 else n mod 2 + count_ones (n div 2))"

declare count_ones.simps [simp del]

definition is_well_formed :: "anchor_log \<Rightarrow> bool" where
  "is_well_formed log \<longleftrightarrow>
     length (al_peaks log) = count_ones (unat (al_count log)) \<and> length (al_peaks log) \<le> MAX_PEAKS"

text \<open>The merging loop of \<open>append\<close>: \<open>height_bits\<close> is shifted right while its lowest bit is set, and
  popping an empty peak list panics.\<close>

fun append_loop :: "blake \<Rightarrow> nat \<Rightarrow> bytes list \<Rightarrow> bytes \<Rightarrow> (string, bytes list) outcome" where
  "append_loop b2 height_bits peaks node =
     (if height_bits mod 2 = 1 then
        (if peaks = [] then Panic
         else append_loop b2 (height_bits div 2) (butlast peaks)
                (blake_hash b2 NODE_PERSONAL [last peaks, node]))
      else Ok (peaks @ [node]))"

declare append_loop.simps [simp del]

definition log_append :: "blake \<Rightarrow> anchor_log \<Rightarrow> window_entry \<Rightarrow> (string, anchor_log) outcome" where
  "log_append b2 log entry =
     (if \<not> is_well_formed log then Err ''malformed anchor log''
      else bind_outcome (ok_or ''anchor log is full'' (checked_add (al_count log) 1)) (\<lambda>count.
           bind_outcome (append_loop b2 (unat (al_count log)) (al_peaks log) (entry_hash b2 entry)) (\<lambda>peaks.
           Ok \<lparr>al_count = count, al_peaks = peaks\<rparr>)))"

fun replay_entries ::
  "blake \<Rightarrow> anchor_log \<Rightarrow> window_entry option \<Rightarrow> window_entry list \<Rightarrow> (string, anchor_log) outcome"
where
  "replay_entries b2 log lst [] = Ok log"
| "replay_entries b2 log lst (e # es) =
     bind_outcome
       (case lst of
          None \<Rightarrow> Ok ()
        | Some prev \<Rightarrow>
            if we_blue_score e \<le> we_blue_score prev
            then Err ''anchor log entries are not strictly increasing in blue score''
            else if we_parent e \<noteq> we_block prev
            then Err ''anchor log entry does not name the previous entry as its parent''
            else Ok ())
       (\<lambda>_. bind_outcome (log_append b2 log e) (\<lambda>log. replay_entries b2 log (Some e) es))"

definition log_replay :: "blake \<Rightarrow> anchor_log \<Rightarrow> window_entry list \<Rightarrow> (string, anchor_log) outcome" where
  "log_replay b2 prefix entries = replay_entries b2 prefix None entries"

definition log_commitment :: "blake \<Rightarrow> anchor_log \<Rightarrow> bytes" where
  "log_commitment b2 log = blake_hash b2 ROOT_PERSONAL (to_le_bytes (al_count log) # al_peaks log)"

section \<open>The mountain range from scratch\<close>

fun pair_up :: "blake \<Rightarrow> bytes list \<Rightarrow> bytes list" where
  "pair_up b2 (l # r # rest) = blake_hash b2 NODE_PERSONAL [l, r] # pair_up b2 rest"
| "pair_up b2 _ = []"

lemma length_pair_up [simp]: "length (pair_up b2 xs) = length xs div 2"
  by (induction b2 xs rule: pair_up.induct) auto

function peaks_of :: "blake \<Rightarrow> bytes list \<Rightarrow> bytes list" where
  "peaks_of b2 xs =
     (if xs = [] then []
      else if length xs mod 2 = 1 then peaks_of b2 (pair_up b2 xs) @ [last xs]
      else peaks_of b2 (pair_up b2 xs))"
  by pat_completeness auto
termination
  by (relation "measure (\<lambda>(b2, xs). length xs)") (auto simp: div_less_dividend)

declare peaks_of.simps [simp del]

lemma pair_up_append_even:
  "length xs mod 2 = 0 \<Longrightarrow> pair_up b2 (xs @ ys) = pair_up b2 xs @ pair_up b2 ys"
  by (induction b2 xs rule: pair_up.induct) auto

lemma pair_up_snoc_odd:
  assumes "length xs mod 2 = 1"
  shows "pair_up b2 (xs @ [h]) = pair_up b2 xs @ [blake_hash b2 NODE_PERSONAL [last xs, h]]"
proof -
  from assms have "xs \<noteq> []" by auto
  then obtain ys l where xs: "xs = ys @ [l]" by (metis append_butlast_last_id)
  with assms have "length ys mod 2 = 0" by simp presburger
  then show ?thesis unfolding xs by (simp add: pair_up_append_even)
qed

lemma length_peaks_of: "length (peaks_of b2 xs) = count_ones (length xs)"
proof (induction b2 xs rule: peaks_of.induct)
  case (1 b2 xs)
  show ?case
  proof (cases "xs = []")
    case True
    then show ?thesis by (simp add: peaks_of.simps count_ones.simps)
  next
    case False
    have m: "length xs mod 2 = 1 \<or> length xs mod 2 = 0" by auto
    from False m 1 show ?thesis
      by (subst peaks_of.simps, subst count_ones.simps) auto
  qed
qed

lemma peaks_of_odd:
  "length xs mod 2 = 1 \<Longrightarrow> peaks_of b2 xs = peaks_of b2 (pair_up b2 xs) @ [last xs]"
  by (subst peaks_of.simps) auto

lemma peaks_of_even:
  "length xs mod 2 = 0 \<Longrightarrow> peaks_of b2 xs = peaks_of b2 (pair_up b2 xs)"
  by (subst peaks_of.simps) (auto simp: peaks_of.simps)

text \<open>One run of the merging loop adds one leaf to the mountain range.\<close>

lemma append_loop_peaks_of:
  "append_loop b2 (length xs) (peaks_of b2 xs) h = Ok (peaks_of b2 (xs @ [h]))"
proof (induction "length xs" arbitrary: xs h rule: less_induct)
  case less
  show ?case
  proof (cases "length xs mod 2 = 1")
    case True
    then have "length xs div 2 < length xs" by (cases xs) auto
    then have IH: "append_loop b2 (length (pair_up b2 xs)) (peaks_of b2 (pair_up b2 xs)) h'
        = Ok (peaks_of b2 (pair_up b2 xs @ [h']))" for h'
      using less.hyps [of "pair_up b2 xs"] by simp
    have "length (xs @ [h]) mod 2 = 0" using True by simp presburger
    then have "peaks_of b2 (xs @ [h])
        = peaks_of b2 (pair_up b2 xs @ [blake_hash b2 NODE_PERSONAL [last xs, h]])"
      using pair_up_snoc_odd [OF True] by (simp add: peaks_of_even)
    with True IH show ?thesis
      by (subst append_loop.simps) (simp add: peaks_of_odd)
  next
    case False
    then have even: "length xs mod 2 = 0" by simp
    then have "length (xs @ [h]) mod 2 = 1" by simp presburger
    moreover from even have "pair_up b2 (xs @ [h]) = pair_up b2 xs"
      by (simp add: pair_up_append_even)
    ultimately have "peaks_of b2 (xs @ [h]) = peaks_of b2 xs @ [h]"
      using even by (simp add: peaks_of_odd peaks_of_even)
    with even show ?thesis by (subst append_loop.simps) simp
  qed
qed

lemma count_ones_bound: "n < 2 ^ k \<Longrightarrow> count_ones n \<le> k"
proof (induction k arbitrary: n)
  case 0
  then show ?case by (simp add: count_ones.simps)
next
  case (Suc k)
  then have "count_ones (n div 2) \<le> k" by simp
  moreover have "n mod 2 \<le> 1" by simp
  ultimately show ?case by (simp only: count_ones.simps [of n]) auto
qed

lemma is_well_formed_iff:
  "is_well_formed log \<longleftrightarrow> length (al_peaks log) = count_ones (unat (al_count log))"
  using count_ones_bound [of "unat (al_count log)" 64] unsigned_less [of "al_count log"]
  by (auto simp: is_well_formed_def MAX_PEAKS_def)

section \<open>The log of a list of entries\<close>

definition log_of :: "blake \<Rightarrow> window_entry list \<Rightarrow> anchor_log" where
  "log_of b2 es = \<lparr>al_count = of_nat (length es), al_peaks = peaks_of b2 (map (entry_hash b2) es)\<rparr>"

lemma log_of_Nil: "log_of b2 [] = log_empty"
  by (simp add: log_of_def log_empty_def peaks_of.simps)

lemma unat_log_count: "length es < 2 ^ 64 \<Longrightarrow> unat (al_count (log_of b2 es)) = length es"
  by (simp add: log_of_def unat_of_nat)

lemma log_of_well_formed: "length es < 2 ^ 64 \<Longrightarrow> is_well_formed (log_of b2 es)"
  using unat_log_count [of es b2]
  by (simp add: is_well_formed_iff length_peaks_of) (simp add: log_of_def length_peaks_of)

lemma log_append_log_of:
  assumes "Suc (length es) < 2 ^ 64"
  shows "log_append b2 (log_of b2 es) e = Ok (log_of b2 (es @ [e]))"
proof -
  have c: "unat (al_count (log_of b2 es)) = length es" using assms by (simp add: unat_log_count)
  have "checked_add (al_count (log_of b2 es)) 1 = Some (of_nat (Suc (length es)))"
    using assms c by (simp add: checked_add_Some_iff unat_of_nat del: of_nat_Suc)
  moreover have "append_loop b2 (length es) (al_peaks (log_of b2 es)) (entry_hash b2 e)
      = Ok (peaks_of b2 (map (entry_hash b2) (es @ [e])))"
    using append_loop_peaks_of [of b2 "map (entry_hash b2) es"] by (simp add: log_of_def)
  ultimately show ?thesis
    using c assms log_of_well_formed [of es b2] by (simp add: log_append_def log_of_def)
qed

text \<open>What \<open>replay\<close> requires of consecutive entries.\<close>

definition follows :: "window_entry \<Rightarrow> window_entry \<Rightarrow> bool" where
  "follows prev e \<longleftrightarrow> we_blue_score prev < we_blue_score e \<and> we_parent e = we_block prev"

fun chained_after :: "window_entry option \<Rightarrow> window_entry list \<Rightarrow> bool" where
  "chained_after lst [] = True"
| "chained_after lst (e # es) =
     ((case lst of None \<Rightarrow> True | Some prev \<Rightarrow> follows prev e) \<and> chained_after (Some e) es)"

lemma replay_guard:
  "(case lst of
      None \<Rightarrow> Ok ()
    | Some prev \<Rightarrow>
        if we_blue_score e \<le> we_blue_score prev
        then Err ''anchor log entries are not strictly increasing in blue score''
        else if we_parent e \<noteq> we_block prev
        then Err ''anchor log entry does not name the previous entry as its parent''
        else Ok ()) = Ok () \<longleftrightarrow> (case lst of None \<Rightarrow> True | Some prev \<Rightarrow> follows prev e)"
  by (auto simp: follows_def split: option.splits)

lemma replay_entries_Cons_Ok:
  "replay_entries b2 log lst (e # es) = Ok log' \<longleftrightarrow>
     (case lst of None \<Rightarrow> True | Some prev \<Rightarrow> follows prev e)
     \<and> (\<exists>mid. log_append b2 log e = Ok mid \<and> replay_entries b2 mid (Some e) es = Ok log')"
  using replay_guard [of e lst] by (auto simp: bind_outcome_Ok_iff)

lemma replay_entries_log_of:
  "length es + length es' < 2 ^ 64 \<Longrightarrow> chained_after lst es' \<Longrightarrow>
     replay_entries b2 (log_of b2 es) lst es' = Ok (log_of b2 (es @ es'))"
proof (induction es' arbitrary: es lst)
  case Nil
  then show ?case by simp
next
  case (Cons e es')
  have "log_append b2 (log_of b2 es) e = Ok (log_of b2 (es @ [e]))"
    using Cons.prems(1) by (intro log_append_log_of) simp
  moreover have "replay_entries b2 (log_of b2 (es @ [e])) (Some e) es' = Ok (log_of b2 ((es @ [e]) @ es'))"
    using Cons.prems by (intro Cons.IH) auto
  ultimately show ?case
    using Cons.prems(2) by (simp only: replay_entries_Cons_Ok) simp
qed

section \<open>Inverting appends\<close>

text \<open>The pairs (personalisation, message) hashed while appending.\<close>

fun loop_queries :: "blake \<Rightarrow> nat \<Rightarrow> bytes list \<Rightarrow> bytes \<Rightarrow> (bytes \<times> bytes) set" where
  "loop_queries b2 bits peaks node =
     (if bits mod 2 = 1 \<and> peaks \<noteq> [] then
        insert (NODE_PERSONAL, last peaks @ node)
          (loop_queries b2 (bits div 2) (butlast peaks) (b2 NODE_PERSONAL (last peaks @ node)))
      else {})"

declare loop_queries.simps [simp del]

definition entry_query :: "window_entry \<Rightarrow> bytes \<times> bytes" where
  "entry_query e = (LEAF_PERSONAL, we_block e @ we_parent e @ we_root e @ to_le_bytes (we_blue_score e))"

definition append_queries :: "blake \<Rightarrow> anchor_log \<Rightarrow> window_entry \<Rightarrow> (bytes \<times> bytes) set" where
  "append_queries b2 log e =
     insert (entry_query e) (loop_queries b2 (unat (al_count log)) (al_peaks log) (entry_hash b2 e))"

lemma append_loop_inject:
  assumes "append_loop b2 n p h = Ok r" and "append_loop b2 n q g = Ok r"
    and "\<forall>x \<in> set p \<union> set q. length x = 32"
  shows "(p = q \<and> h = g) \<or> collision (case_prod b2) (loop_queries b2 n p h) (loop_queries b2 n q g)"
  using assms
proof (induction n arbitrary: p q h g rule: less_induct)
  case (less n)
  show ?case
  proof (cases "n mod 2 = 1")
    case False
    then show ?thesis
      using less.prems(1,2) by (auto simp: append_loop.simps [of b2 n])
  next
    case True
    then have lt: "n div 2 < n" by (cases n) auto
    let ?hp = "b2 NODE_PERSONAL (last p @ h)" and ?hq = "b2 NODE_PERSONAL (last q @ g)"
    from True less.prems(1,2) have ne: "p \<noteq> []" "q \<noteq> []"
      and pr: "append_loop b2 (n div 2) (butlast p) ?hp = Ok r"
      and qr: "append_loop b2 (n div 2) (butlast q) ?hq = Ok r"
      by (auto simp: append_loop.simps [of b2 n] blake_hash_def split: if_splits)
    have Qp: "loop_queries b2 n p h = insert (NODE_PERSONAL, last p @ h) (loop_queries b2 (n div 2) (butlast p) ?hp)"
      and Qq: "loop_queries b2 n q g = insert (NODE_PERSONAL, last q @ g) (loop_queries b2 (n div 2) (butlast q) ?hq)"
      using True ne by (simp_all add: loop_queries.simps [of b2 n])
    have lens: "length (last p) = 32" "length (last q) = 32" using ne less.prems(3) by auto
    have "\<forall>x \<in> set (butlast p) \<union> set (butlast q). length x = 32"
      using less.prems(3) by (auto dest: in_set_butlastD)
    from less.IH [OF lt pr qr this] show ?thesis
    proof
      assume eq: "butlast p = butlast q \<and> ?hp = ?hq"
      show ?thesis
      proof (cases "last p @ h = last q @ g")
        case True
        with lens have "last p = last q" "h = g" by simp_all
        with eq ne show ?thesis by (metis append_butlast_last_id)
      next
        case False
        then have "collision (case_prod b2) (loop_queries b2 n p h) (loop_queries b2 n q g)"
          unfolding Qp Qq using eq
          by (intro collisionI [of "(NODE_PERSONAL, last p @ h)" _ "(NODE_PERSONAL, last q @ g)"]) auto
        then show ?thesis ..
      qed
    next
      assume "collision (case_prod b2) (loop_queries b2 (n div 2) (butlast p) ?hp)
          (loop_queries b2 (n div 2) (butlast q) ?hq)"
      then have "collision (case_prod b2) (loop_queries b2 n p h) (loop_queries b2 n q g)"
        unfolding Qp Qq by (rule collision_mono) auto
      then show ?thesis ..
    qed
  qed
qed

definition entry_widths :: "window_entry \<Rightarrow> bool" where
  "entry_widths e \<longleftrightarrow> length (we_block e) = 32 \<and> length (we_parent e) = 32 \<and> length (we_root e) = 32"

definition log_widths :: "anchor_log \<Rightarrow> bool" where
  "log_widths log \<longleftrightarrow> (\<forall>p \<in> set (al_peaks log). length p = 32)"

lemma entry_hash_query: "entry_hash b2 e = case_prod b2 (entry_query e)"
  by (simp add: entry_hash_def entry_query_def blake_hash_def)

lemma entry_query_inject:
  "entry_query e = entry_query e' \<Longrightarrow> entry_widths e \<Longrightarrow> entry_widths e' \<Longrightarrow> e = e'"
  by (auto simp: entry_query_def entry_widths_def)

lemma log_append_OkD:
  assumes "log_append b2 log e = Ok log'"
  shows "is_well_formed log \<and> unat (al_count log') = unat (al_count log) + 1
     \<and> append_loop b2 (unat (al_count log)) (al_peaks log) (entry_hash b2 e) = Ok (al_peaks log')"
  using assms by (auto simp: log_append_def outcome_splits unat_arith_simps split: if_splits)

lemma log_append_inject:
  assumes a: "log_append b2 log e = Ok r" and b: "log_append b2 log' e' = Ok r"
    and w: "log_widths log" "log_widths log'" "entry_widths e" "entry_widths e'"
  shows "(log = log' \<and> e = e')
     \<or> collision (case_prod b2) (append_queries b2 log e) (append_queries b2 log' e')"
proof -
  note A = log_append_OkD [OF a] and B = log_append_OkD [OF b]
  have c: "unat (al_count log) = unat (al_count log')" using A B by simp
  then have count: "al_count log = al_count log'" by (simp add: word_unat_eq_iff)
  have "\<forall>x \<in> set (al_peaks log) \<union> set (al_peaks log'). length x = 32"
    using w(1,2) by (auto simp: log_widths_def)
  then have "(al_peaks log = al_peaks log' \<and> entry_hash b2 e = entry_hash b2 e')
      \<or> collision (case_prod b2)
          (loop_queries b2 (unat (al_count log)) (al_peaks log) (entry_hash b2 e))
          (loop_queries b2 (unat (al_count log)) (al_peaks log') (entry_hash b2 e'))"
    using A B c by (intro append_loop_inject [where r = "al_peaks r"]) auto
  then show ?thesis
  proof
    assume eq: "al_peaks log = al_peaks log' \<and> entry_hash b2 e = entry_hash b2 e'"
    show ?thesis
    proof (cases "entry_query e = entry_query e'")
      case True
      then have "e = e'" using w entry_query_inject by blast
      with eq count show ?thesis by simp
    next
      case False
      with eq have "collision (case_prod b2) (append_queries b2 log e) (append_queries b2 log' e')"
        unfolding append_queries_def entry_hash_query
        by (intro collisionI [of "entry_query e" _ "entry_query e'"]) auto
      then show ?thesis ..
    qed
  next
    assume "collision (case_prod b2)
          (loop_queries b2 (unat (al_count log)) (al_peaks log) (entry_hash b2 e))
          (loop_queries b2 (unat (al_count log)) (al_peaks log') (entry_hash b2 e'))"
    then have "collision (case_prod b2) (append_queries b2 log e) (append_queries b2 log' e')"
      by (rule collision_mono) (auto simp: append_queries_def c)
    then show ?thesis ..
  qed
qed

section \<open>Appending to an arbitrary well-formed log\<close>

lemma append_loop_length:
  "length p = count_ones n \<Longrightarrow> \<exists>r. append_loop b2 n p h = Ok r \<and> length r = count_ones (Suc n)"
proof (induction n arbitrary: p h rule: less_induct)
  case (less n)
  show ?case
  proof (cases "n mod 2 = 1")
    case False
    then have "Suc n mod 2 = 1" "Suc n div 2 = n div 2" by presburger+
    then have "count_ones (Suc n) = Suc (count_ones n)"
      using False by (subst count_ones.simps, subst (2) count_ones.simps)
        (auto simp: count_ones.simps [of 0])
    with False less.prems show ?thesis by (simp add: append_loop.simps [of b2 n])
  next
    case True
    then have lt: "n div 2 < n" and n: "count_ones n = Suc (count_ones (n div 2))"
      by (auto simp: count_ones.simps [of n])
    have "Suc n mod 2 = 0" "Suc n div 2 = Suc (n div 2)" using True by presburger+
    then have "count_ones (Suc n) = count_ones (Suc (n div 2))"
      by (simp add: count_ones.simps [of "Suc n"])
    moreover have "p \<noteq> []" "length (butlast p) = count_ones (n div 2)" using less.prems n by auto
    ultimately show ?thesis
      using less.IH [OF lt] True by (simp add: append_loop.simps [of b2 n])
  qed
qed

lemma append_loop_widths:
  assumes b2: "\<And>p x. length (b2 p x) = 32"
  shows "append_loop b2 n p h = Ok r \<Longrightarrow> (\<forall>x \<in> set p. length x = 32) \<Longrightarrow> length h = 32
     \<Longrightarrow> \<forall>x \<in> set r. length x = 32"
proof (induction n arbitrary: p h rule: less_induct)
  case (less n)
  show ?case
  proof (cases "n mod 2 = 1")
    case False
    with less.prems show ?thesis by (auto simp: append_loop.simps [of b2 n])
  next
    case True
    then have lt: "n div 2 < n" by (cases n) auto
    from True less.prems(1)
    have r: "append_loop b2 (n div 2) (butlast p) (b2 NODE_PERSONAL (last p @ h)) = Ok r"
      by (auto simp: append_loop.simps [of b2 n] blake_hash_def split: if_splits)
    show ?thesis
      by (rule less.IH [OF lt r]) (use less.prems(2) b2 in \<open>auto dest: in_set_butlastD\<close>)
  qed
qed

lemma log_append_total:
  assumes wf: "is_well_formed log" and c: "unat (al_count log) + 1 < 2 ^ 64"
  shows "\<exists>log'. log_append b2 log e = Ok log' \<and> is_well_formed log'"
proof -
  obtain peaks where p: "append_loop b2 (unat (al_count log)) (al_peaks log) (entry_hash b2 e) = Ok peaks"
    and len: "length peaks = count_ones (Suc (unat (al_count log)))"
    using append_loop_length wf unfolding is_well_formed_iff by blast
  have add: "checked_add (al_count log) 1 = Some (al_count log + 1)"
    using c by (simp add: checked_add_def)
  then have "unat (al_count log + 1) = Suc (unat (al_count log))"
    by (simp only: unat_arith_simps) simp
  then show ?thesis
    using wf p len add by (simp add: log_append_def is_well_formed_iff)
qed

lemma log_append_well_formed: "log_append b2 log e = Ok log' \<Longrightarrow> is_well_formed log'"
proof -
  assume "log_append b2 log e = Ok log'"
  note L = log_append_OkD [OF this]
  from L obtain r where "append_loop b2 (unat (al_count log)) (al_peaks log) (entry_hash b2 e) = Ok r"
    "length r = count_ones (Suc (unat (al_count log)))"
    using append_loop_length unfolding is_well_formed_iff by blast
  with L show ?thesis by (simp add: is_well_formed_iff)
qed

lemma log_append_widths:
  assumes "\<And>p x. length (b2 p x) = 32" and "log_append b2 log e = Ok log'" and "log_widths log"
  shows "log_widths log'"
proof -
  have "append_loop b2 (unat (al_count log)) (al_peaks log) (entry_hash b2 e) = Ok (al_peaks log')"
    using log_append_OkD [OF assms(2)] by blast
  moreover have "length (entry_hash b2 e) = 32"
    by (simp add: entry_hash_def blake_hash_def assms(1))
  ultimately show ?thesis
    using append_loop_widths [where ?b2.0 = b2, OF assms(1)] assms(3) unfolding log_widths_def by blast
qed

section \<open>Inverting a replay\<close>

fun replay_queries :: "blake \<Rightarrow> anchor_log \<Rightarrow> window_entry list \<Rightarrow> (bytes \<times> bytes) set" where
  "replay_queries b2 log [] = {}"
| "replay_queries b2 log (e # es) =
     append_queries b2 log e \<union>
     (case log_append b2 log e of Ok mid \<Rightarrow> replay_queries b2 mid es | _ \<Rightarrow> {})"

lemma replay_inject:
  assumes b2: "\<And>p x. length (b2 p x) = 32"
  shows "replay_entries b2 p lst es = Ok r \<Longrightarrow> replay_entries b2 p' lst' es' = Ok r
     \<Longrightarrow> length es = length es' \<Longrightarrow> log_widths p \<Longrightarrow> log_widths p'
     \<Longrightarrow> (\<forall>e \<in> set es \<union> set es'. entry_widths e)
     \<Longrightarrow> (p = p' \<and> es = es')
        \<or> collision (case_prod b2) (replay_queries b2 p es) (replay_queries b2 p' es')"
proof (induction es arbitrary: p lst es' p' lst')
  case Nil
  then show ?case by simp
next
  case (Cons e es)
  then obtain e' fs where es': "es' = e' # fs" by (cases es') auto
  from Cons.prems(1) obtain m where m: "log_append b2 p e = Ok m" "replay_entries b2 m (Some e) es = Ok r"
    by (auto simp only: replay_entries_Cons_Ok)
  from Cons.prems(2) obtain m' where m': "log_append b2 p' e' = Ok m'" "replay_entries b2 m' (Some e') fs = Ok r"
    unfolding es' by (auto simp only: replay_entries_Cons_Ok)
  have w: "log_widths m" "log_widths m'"
    by (rule log_append_widths [where ?b2.0 = b2, OF b2 m(1) Cons.prems(4)])
      (rule log_append_widths [where ?b2.0 = b2, OF b2 m'(1) Cons.prems(5)])
  have "(m = m' \<and> es = fs) \<or> collision (case_prod b2) (replay_queries b2 m es) (replay_queries b2 m' fs)"
    by (rule Cons.IH [OF m(2) m'(2)]) (use w Cons.prems(3,6) es' in auto)
  then show ?case
  proof
    assume eq: "m = m' \<and> es = fs"
    have "(p = p' \<and> e = e') \<or> collision (case_prod b2) (append_queries b2 p e) (append_queries b2 p' e')"
      by (rule log_append_inject [OF m(1)]) (use eq m'(1) Cons.prems(4,5,6) es' in auto)
    then show ?thesis
    proof
      assume "p = p' \<and> e = e'"
      with eq es' show ?thesis by simp
    next
      assume "collision (case_prod b2) (append_queries b2 p e) (append_queries b2 p' e')"
      then have "collision (case_prod b2) (replay_queries b2 p (e # es)) (replay_queries b2 p' es')"
        by (rule collision_mono) (auto simp: es')
      then show ?thesis ..
    qed
  next
    assume "collision (case_prod b2) (replay_queries b2 m es) (replay_queries b2 m' fs)"
    then have "collision (case_prod b2) (replay_queries b2 p (e # es)) (replay_queries b2 p' es')"
      by (rule collision_mono) (auto simp: es' m(1) m'(1))
    then show ?thesis ..
  qed
qed

lemma replay_entries_count:
  "replay_entries b2 p lst es = Ok r \<Longrightarrow> unat (al_count r) = unat (al_count p) + length es"
proof (induction es arbitrary: p lst)
  case Nil
  then show ?case by simp
next
  case (Cons e es)
  then obtain m where "log_append b2 p e = Ok m" "replay_entries b2 m (Some e) es = Ok r"
    by (auto simp only: replay_entries_Cons_Ok)
  with Cons.IH [of m "Some e"] show ?case by (auto dest: log_append_OkD)
qed

lemma replay_entries_well_formed:
  "replay_entries b2 p lst es = Ok r \<Longrightarrow> is_well_formed p \<Longrightarrow> is_well_formed r"
proof (induction es arbitrary: p lst)
  case Nil
  then show ?case by simp
next
  case (Cons e es)
  then obtain m where "log_append b2 p e = Ok m" "replay_entries b2 m (Some e) es = Ok r"
    by (auto simp only: replay_entries_Cons_Ok)
  with Cons.IH [of m "Some e"] show ?case by (auto dest: log_append_well_formed)
qed

lemma replay_entries_widths:
  assumes "\<And>p x. length (b2 p x) = 32"
  shows "replay_entries b2 p lst es = Ok r \<Longrightarrow> log_widths p \<Longrightarrow> log_widths r"
proof (induction es arbitrary: p lst)
  case Nil
  then show ?case by simp
next
  case (Cons e es)
  then obtain m where "log_append b2 p e = Ok m" "replay_entries b2 m (Some e) es = Ok r"
    by (auto simp only: replay_entries_Cons_Ok)
  with Cons.IH [of m "Some e"] Cons.prems(2) show ?case
    using log_append_widths [where ?b2.0 = b2 and e = e, OF assms] by blast
qed

lemma replay_queries_log_of:
  "length es + length fs < 2 ^ 64 \<Longrightarrow>
     replay_queries b2 (log_of b2 (xs @ es)) fs \<subseteq> replay_queries b2 (log_of b2 xs) (es @ fs)"
  if "length xs + length es + length fs < 2 ^ 64" for xs es fs
  using that
proof (induction es arbitrary: xs)
  case Nil
  then show ?case by simp
next
  case (Cons e es)
  have "log_append b2 (log_of b2 xs) e = Ok (log_of b2 (xs @ [e]))"
    using Cons.prems(2) by (intro log_append_log_of) simp
  moreover have "replay_queries b2 (log_of b2 ((xs @ [e]) @ es)) fs \<subseteq> replay_queries b2 (log_of b2 (xs @ [e])) (es @ fs)"
    using Cons.prems by (intro Cons.IH) auto
  ultimately show ?case by auto
qed

lemma chained_after_drop: "chained_after lst es \<Longrightarrow> chained_after None (drop k es)"
proof (induction es arbitrary: lst k)
  case Nil
  then show ?case by simp
next
  case (Cons e es)
  then show ?case by (cases k) (auto split: option.splits)
qed

lemma chained_after_take: "chained_after lst es \<Longrightarrow> chained_after lst (take k es)"
  by (induction es arbitrary: lst k) (auto simp: take_Cons')

lemma log_of_widths:
  assumes "\<And>p x. length (b2 p x) = 32" and "chained_after None es" and "length es < 2 ^ 64"
  shows "log_widths (log_of b2 es)"
proof -
  have "replay_entries b2 log_empty None es = Ok (log_of b2 es)"
    using replay_entries_log_of [of "[]" es None b2] assms(2,3) by (simp add: log_of_Nil)
  then show ?thesis
    by (rule replay_entries_widths [where ?b2.0 = b2, OF assms(1)])
      (simp add: log_widths_def log_empty_def)
qed

section \<open>Commitments\<close>

definition root_query :: "anchor_log \<Rightarrow> bytes \<times> bytes" where
  "root_query log = (ROOT_PERSONAL, to_le_bytes (al_count log) @ concat (al_peaks log))"

lemma log_commitment_query: "log_commitment b2 log = case_prod b2 (root_query log)"
  by (simp add: log_commitment_def root_query_def blake_hash_def)

lemma length_concat_peaks: "\<forall>p \<in> set ps. length p = 32 \<Longrightarrow> length (concat ps) = 32 * length ps"
  by (induction ps) auto

text \<open>Peaks have 32 bytes, so the hashed string determines the log whether or not the log is well formed.\<close>

lemma root_query_inject:
  assumes "root_query l = root_query l'" and w: "log_widths l" "log_widths l'"
  shows "l = l'"
proof -
  from assms(1) have c: "al_count l = al_count l'" and p: "concat (al_peaks l) = concat (al_peaks l')"
    by (auto simp: root_query_def)
  have "length (al_peaks l) = length (al_peaks l')"
    using p w length_concat_peaks [of "al_peaks l"] length_concat_peaks [of "al_peaks l'"] by (simp add: log_widths_def)
  moreover have "\<forall>(x, y) \<in> set (zip (al_peaks l) (al_peaks l')). length x = length y"
    using w by (auto simp: log_widths_def) (metis set_zip_leftD set_zip_rightD)
  ultimately have "al_peaks l = al_peaks l'" using p concat_injective by blast
  with c show ?thesis by simp
qed

text \<open>What a syncing node hashes: the replay and, when it succeeds, the commitment of the result.\<close>

definition sync_queries :: "blake \<Rightarrow> anchor_log \<Rightarrow> window_entry list \<Rightarrow> (bytes \<times> bytes) set" where
  "sync_queries b2 prefix entries =
     replay_queries b2 prefix entries \<union> (case log_replay b2 prefix entries of Ok log \<Rightarrow> {root_query log} | _ \<Rightarrow> {})"

section \<open>Outcomes of a replay\<close>

lemma log_append_not_Panic: "log_append b2 log e \<noteq> Panic"
proof (cases "is_well_formed log")
  case True
  then obtain r where "append_loop b2 (unat (al_count log)) (al_peaks log) (entry_hash b2 e) = Ok r"
    using append_loop_length unfolding is_well_formed_iff by blast
  with True show ?thesis by (cases "checked_add (al_count log) 1") (simp_all add: log_append_def)
qed (simp add: log_append_def)

lemma replay_entries_not_Panic: "replay_entries b2 log lst es \<noteq> Panic"
proof (induction es arbitrary: log lst)
  case (Cons e es)
  show ?case
  proof (cases "log_append b2 log e")
    case (Ok mid)
    with Cons [of mid "Some e"] show ?thesis by (simp split: option.splits)
  qed (use log_append_not_Panic [of b2 log e] in \<open>simp_all split: option.splits\<close>)
qed simp

lemma replay_entries_chained: "replay_entries b2 log lst es = Ok log' \<Longrightarrow> chained_after lst es"
  by (induction es arbitrary: log lst) (auto simp only: replay_entries_Cons_Ok chained_after.simps)

text \<open>A replay on the log of \<open>es\<close> succeeds exactly on chained entries that fit the counter.\<close>

lemma replay_entries_Ok_iff:
  assumes "length es < 2 ^ 64"
  shows "replay_entries b2 (log_of b2 es) lst es' = Ok log \<longleftrightarrow>
    chained_after lst es' \<and> length es + length es' < 2 ^ 64 \<and> log = log_of b2 (es @ es')"
proof
  assume ok: "replay_entries b2 (log_of b2 es) lst es' = Ok log"
  have "length es + length es' < 2 ^ 64"
    using replay_entries_count [OF ok] unat_log_count [OF assms, of b2] unat_less [of "al_count log"] by simp
  with ok replay_entries_chained [OF ok] show "chained_after lst es' \<and> length es + length es' < 2 ^ 64 \<and> log = log_of b2 (es @ es')"
    by (simp add: replay_entries_log_of)
qed (simp add: replay_entries_log_of)

lemma replay_entries_append:
  "replay_entries b2 log lst (xs @ p # ys) =
     bind_outcome (replay_entries b2 log lst (xs @ [p])) (\<lambda>log. replay_entries b2 log (Some p) ys)"
proof (induction xs arbitrary: log lst)
  case Nil
  show ?case by (cases "log_append b2 log p") (auto split: option.splits)
next
  case (Cons x xs)
  then show ?case by (cases "log_append b2 log x") (auto split: option.splits)
qed

text \<open>A peer's replay that ends in the honest log started from an honest prefix and used the honest tail.\<close>

lemma replay_reaches_tail:
  assumes b2: "\<And>p x. length (b2 p x) = 32"
    and es: "chained_after None es" "length es < 2 ^ 64" "\<forall>e \<in> set es. entry_widths e"
    and peer: "log_widths prefix" "\<forall>e \<in> set entries. entry_widths e"
    and rep: "replay_entries b2 prefix None entries = Ok (log_of b2 es)"
  shows "(\<exists>k \<le> length es. prefix = log_of b2 (take k es) \<and> entries = drop k es)
     \<or> collision (case_prod b2) (replay_queries b2 prefix entries) (replay_queries b2 log_empty es)"
proof -
  define k where "k = unat (al_count prefix)"
  have "k + length entries = length es"
    using replay_entries_count [OF rep] unat_log_count [OF es(2), of b2] by (simp add: k_def)
  then have len: "length entries = length (drop k es)" and k: "k \<le> length es" by auto
  have bound: "length (take k es) + length (drop k es) < 2 ^ 64" using es(2) k by simp
  have "replay_entries b2 (log_of b2 (take k es)) None (drop k es) = Ok (log_of b2 es)"
    using replay_entries_log_of [OF bound chained_after_drop [OF es(1)], of b2] by simp
  moreover have "log_widths (log_of b2 (take k es))"
    using log_of_widths [where ?b2.0 = b2, OF b2 chained_after_take [OF es(1)]] bound by simp
  ultimately have "(prefix = log_of b2 (take k es) \<and> entries = drop k es)
      \<or> collision (case_prod b2) (replay_queries b2 prefix entries) (replay_queries b2 (log_of b2 (take k es)) (drop k es))"
    by (intro replay_inject [where ?b2.0 = b2, OF b2 rep]) (use peer es(3) len in \<open>auto dest: in_set_dropD\<close>)
  moreover have "replay_queries b2 (log_of b2 (take k es)) (drop k es) \<subseteq> replay_queries b2 log_empty es"
    using replay_queries_log_of [of "[]" "take k es" "drop k es" b2] bound by (simp add: log_of_Nil)
  ultimately show ?thesis using k by (blast intro: collision_mono)
qed

section \<open>Properties\<close>

text \<open>C8. Replaying entries on the log of the entries below them succeeds exactly when each entry names the
  previous one as its parent with a larger blue score and the count stays below \<open>2^64\<close>; the result is then the
  mountain range built from scratch over all the leaf hashes, with the entry count. The first entry that breaks
  the chain is reported with the error of the check it fails, and no replay panics, on whatever prefix.\<close>

theorem anchor_log_replay_builds_range:
  fixes b2 :: blake
  assumes "length es < 2 ^ 64"
  defines "prefix \<equiv> \<lparr>al_count = of_nat (length es), al_peaks = peaks_of b2 (map (entry_hash b2) es)\<rparr>"
  shows "(log_replay b2 prefix es' = Ok log \<longleftrightarrow>
      chained_after None es' \<and> length es + length es' < 2 ^ 64
      \<and> log = \<lparr>al_count = of_nat (length (es @ es')), al_peaks = peaks_of b2 (map (entry_hash b2) (es @ es'))\<rparr>)
   \<and> (\<forall>xs p e ys. es' = xs @ p # e # ys \<and> chained_after None (xs @ [p]) \<and> length es + length xs + 1 < 2 ^ 64 \<and> \<not> follows p e
      \<longrightarrow> log_replay b2 prefix es' =
        Err (if we_blue_score e \<le> we_blue_score p then ''anchor log entries are not strictly increasing in blue score''
             else ''anchor log entry does not name the previous entry as its parent''))
   \<and> log_replay b2 any_prefix es' \<noteq> Panic"
proof (intro conjI allI impI)
  have prefix: "prefix = log_of b2 es" by (simp add: prefix_def log_of_def)
  show "log_replay b2 prefix es' = Ok log \<longleftrightarrow> chained_after None es' \<and> length es + length es' < 2 ^ 64
      \<and> log = \<lparr>al_count = of_nat (length (es @ es')), al_peaks = peaks_of b2 (map (entry_hash b2) (es @ es'))\<rparr>"
    unfolding prefix log_replay_def replay_entries_Ok_iff [OF assms(1)] by (simp only: log_of_def)
  show "log_replay b2 any_prefix es' \<noteq> Panic" by (simp add: log_replay_def replay_entries_not_Panic)
  fix xs p e ys
  assume broken: "es' = xs @ p # e # ys \<and> chained_after None (xs @ [p]) \<and> length es + length xs + 1 < 2 ^ 64 \<and> \<not> follows p e"
  then have "replay_entries b2 (log_of b2 es) None (xs @ [p]) = Ok (log_of b2 (es @ xs @ [p]))"
    by (intro replay_entries_log_of) simp_all
  with broken show "log_replay b2 prefix es' =
      Err (if we_blue_score e \<le> we_blue_score p then ''anchor log entries are not strictly increasing in blue score''
           else ''anchor log entry does not name the previous entry as its parent'')"
    unfolding prefix log_replay_def by (simp only: replay_entries_append [of b2 _ None xs p "e # ys"]) (auto simp: follows_def)
qed

definition sample_blake :: blake where
  "sample_blake p x = take 32 (rev x @ replicate 32 0)"

definition sample_entry :: "u8 \<Rightarrow> window_entry" where
  "sample_entry n = \<lparr>we_block = replicate 32 n, we_parent = replicate 32 (n - 1), we_root = replicate 32 7,
     we_blue_score = ucast n\<rparr>"

definition sample_log :: "window_entry list \<Rightarrow> anchor_log" where
  "sample_log es = \<lparr>al_count = of_nat (length es), al_peaks = peaks_of sample_blake (map (entry_hash sample_blake) es)\<rparr>"

theorem anchor_log_replay_builds_range_witness:
  "log_replay sample_blake (sample_log [sample_entry 1]) [sample_entry 2, sample_entry 3]
     = Ok (sample_log [sample_entry 1, sample_entry 2, sample_entry 3])
   \<and> log_replay sample_blake (sample_log [sample_entry 1]) [sample_entry 2, sample_entry 4]
     = Err ''anchor log entry does not name the previous entry as its parent''
   \<and> log_replay sample_blake (sample_log [sample_entry 1]) [sample_entry 3, sample_entry 2]
     = Err ''anchor log entries are not strictly increasing in blue score''"
proof -
  have one: "length [sample_entry 1] < 2 ^ 64" by simp
  note exact = anchor_log_replay_builds_range [OF one, where ?b2.0 = sample_blake, folded sample_log_def]
  have "chained_after None [sample_entry 2, sample_entry 3]" by (simp add: follows_def sample_entry_def)
  then have "log_replay sample_blake (sample_log [sample_entry 1]) [sample_entry 2, sample_entry 3]
      = Ok (sample_log ([sample_entry 1] @ [sample_entry 2, sample_entry 3]))"
    unfolding conjunct1 [OF exact] by simp
  moreover have "log_replay sample_blake (sample_log [sample_entry 1]) [p, e] =
      Err (if we_blue_score e \<le> we_blue_score p then ''anchor log entries are not strictly increasing in blue score''
           else ''anchor log entry does not name the previous entry as its parent'')" if "\<not> follows p e" for p e
    by (rule conjunct1 [OF conjunct2 [OF exact], rule_format, of _ "[]" p e "[]"]) (use that in simp)
  moreover have "\<not> follows (sample_entry 2) (sample_entry 4)" "\<not> follows (sample_entry 3) (sample_entry 2)"
    "\<not> we_blue_score (sample_entry 4) \<le> we_blue_score (sample_entry 2)" "we_blue_score (sample_entry 2) \<le> we_blue_score (sample_entry 3)"
    by (simp_all add: follows_def sample_entry_def)
  ultimately show ?thesis by simp
qed

text \<open>C9. Binding of the anchor log: a peer-supplied prefix and peer-supplied entries replay to the commitment of the
  log of the selected chain \<open>es\<close> exactly when the entries are the last entries of \<open>es\<close>, in order, and the prefix is the
  log of the entries before them - unless the strings hashed by the syncing node and by the honest one contain a
  BLAKE2b collision. Nothing is assumed of the prefix or of the supplied entries but their array widths.\<close>

theorem anchor_log_binding:
  assumes b2: "\<And>p x. length (b2 p x) = 32"
    and honest: "log_replay b2 log_empty es = Ok log" "\<forall>e \<in> set es. entry_widths e"
    and peer: "log_widths prefix" "\<forall>e \<in> set entries. entry_widths e"
  shows "((\<exists>log'. log_replay b2 prefix entries = Ok log' \<and> log_commitment b2 log' = log_commitment b2 log)
      \<longleftrightarrow> (\<exists>k \<le> length es. log_replay b2 log_empty (take k es) = Ok prefix \<and> entries = drop k es))
     \<or> collision (case_prod b2) (sync_queries b2 prefix entries) (sync_queries b2 log_empty es)"
    (is "(?reaches \<longleftrightarrow> ?tail) \<or> ?collision")
proof -
  have es: "chained_after None es" "length es < 2 ^ 64" "log = log_of b2 es"
    using honest(1) replay_entries_Ok_iff [of "[]" b2 None es log] by (simp_all add: log_replay_def log_of_Nil)
  have replay: "log_replay b2 log_empty (take k es) = Ok (log_of b2 (take k es))"
    "log_replay b2 (log_of b2 (take k es)) (drop k es) = Ok log" if "k \<le> length es" for k
    using that es chained_after_take [OF es(1), of k] chained_after_drop [OF es(1), of k]
      replay_entries_log_of [of "[]" "take k es" None b2] replay_entries_log_of [of "take k es" "drop k es" None b2]
    by (simp_all add: log_replay_def log_of_Nil)
  have "?reaches" if ?tail
    using that replay by force
  moreover have "?tail \<or> ?collision" if ?reaches
  proof -
    from that obtain log' where rep: "log_replay b2 prefix entries = Ok log'"
      and commit: "log_commitment b2 log' = log_commitment b2 log" by blast
    have w: "log_widths log'" "log_widths log"
      by (rule replay_entries_widths [where ?b2.0 = b2, OF b2 rep [unfolded log_replay_def] peer(1)])
        (use log_of_widths [where ?b2.0 = b2, OF b2 es(1,2)] es(3) in simp)
    show ?thesis
    proof (cases "root_query log' = root_query log")
      case False
      then have ?collision
        using commit rep honest(1) unfolding log_commitment_query sync_queries_def
        by (intro collisionI [of "root_query log'" _ "root_query log"]) auto
      then show ?thesis ..
    next
      case True
      then have "log' = log" using root_query_inject w by blast
      with rep have "replay_entries b2 prefix None entries = Ok (log_of b2 es)" by (simp add: log_replay_def es(3))
      from replay_reaches_tail [where ?b2.0 = b2, OF b2 es(1,2) honest(2) peer this] show ?thesis
      proof
        assume "\<exists>k \<le> length es. prefix = log_of b2 (take k es) \<and> entries = drop k es"
        then have ?tail using replay(1) by blast
        then show ?thesis ..
      next
        assume "collision (case_prod b2) (replay_queries b2 prefix entries) (replay_queries b2 log_empty es)"
        then have ?collision by (rule collision_mono) (auto simp: sync_queries_def)
        then show ?thesis ..
      qed
    qed
  qed
  ultimately show ?thesis by blast
qed

text \<open>The witness is a forgery: the sample hash keeps the last 32 bytes only, so it does not see the parent of an entry.
  A peer that serves the last two of three entries with a false parent in the first of them reaches the commitment,
  and the theorem exhibits the collision.\<close>

definition forged_entry :: window_entry where
  "forged_entry = (sample_entry 2)\<lparr>we_parent := replicate 32 9\<rparr>"

lemma forged_hash: "entry_hash sample_blake forged_entry = entry_hash sample_blake (sample_entry 2)"
  by (simp add: entry_hash_def blake_hash_def sample_blake_def forged_entry_def sample_entry_def rev_append)

lemma sample_replay:
  "log_replay sample_blake log_empty [sample_entry 1, sample_entry 2, sample_entry 3]
     = Ok (log_of sample_blake [sample_entry 1, sample_entry 2, sample_entry 3])"
  using replay_entries_log_of [of "[]" "[sample_entry 1, sample_entry 2, sample_entry 3]" None sample_blake]
  by (simp add: log_replay_def log_of_Nil follows_def sample_entry_def)

lemma forged_replay:
  "log_replay sample_blake (log_of sample_blake [sample_entry 1]) [forged_entry, sample_entry 3]
     = Ok (log_of sample_blake [sample_entry 1, sample_entry 2, sample_entry 3])"
proof -
  have "log_of sample_blake [sample_entry 1, forged_entry, sample_entry 3] = log_of sample_blake [sample_entry 1, sample_entry 2, sample_entry 3]"
    by (simp add: log_of_def forged_hash)
  moreover have "chained_after None [forged_entry, sample_entry 3]"
    by (simp add: follows_def forged_entry_def sample_entry_def)
  ultimately show ?thesis
    using replay_entries_log_of [of "[sample_entry 1]" "[forged_entry, sample_entry 3]" None sample_blake]
    by (simp add: log_replay_def)
qed

theorem anchor_log_binding_witness:
  "log_replay sample_blake (log_of sample_blake [sample_entry 1]) [forged_entry, sample_entry 3]
     = Ok (log_of sample_blake [sample_entry 1, sample_entry 2, sample_entry 3])
   \<and> (\<forall>k. [forged_entry, sample_entry 3] \<noteq> drop k [sample_entry 1, sample_entry 2, sample_entry 3])
   \<and> collision (case_prod sample_blake)
      (sync_queries sample_blake (log_of sample_blake [sample_entry 1]) [forged_entry, sample_entry 3])
      (sync_queries sample_blake log_empty [sample_entry 1, sample_entry 2, sample_entry 3])"
proof -
  have b2: "length (sample_blake p x) = 32" for p x by (simp add: sample_blake_def)
  have w: "log_widths (log_of sample_blake [sample_entry 1])"
    by (rule log_of_widths [where ?b2.0 = sample_blake, OF b2]) simp_all
  have e: "\<forall>e \<in> set [sample_entry 1, sample_entry 2, sample_entry 3]. entry_widths e"
    "\<forall>e \<in> set [forged_entry, sample_entry 3]. entry_widths e"
    by (simp_all add: entry_widths_def sample_entry_def forged_entry_def)
  have ne: "[forged_entry, sample_entry 3] \<noteq> drop k [sample_entry 1, sample_entry 2, sample_entry 3]" for k
  proof
    assume "[forged_entry, sample_entry 3] = drop k [sample_entry 1, sample_entry 2, sample_entry 3]"
    then have "forged_entry \<in> set [sample_entry 1, sample_entry 2, sample_entry 3]"
      by (metis in_set_dropD list.set_intros(1))
    then show False by (simp add: forged_entry_def sample_entry_def)
  qed
  from anchor_log_binding [where ?b2.0 = sample_blake, OF b2 sample_replay e(1) w e(2)] show ?thesis
    using forged_replay ne by blast
qed

end
