(* ===== verification/Note_Tree.thy ===== *)
theory Note_Tree
  imports Prelude_Zkas
begin

text \<open>
  The note-commitment tree (\<^verbatim>\<open>shielded-core/src/tree.rs\<close>): chain-block subtrees, the global tree and
  its persistable snapshot.

  The Orchard Merkle frontier (crate \<^verbatim>\<open>incrementalmerkletree\<close>) and the Orchard hash and anchor types
  are third-party code. They enter as the record \<open>orchard_ops\<close>, whose fields are the calls the source
  makes; \<open>frontier_laws\<close> lists the documented behaviour of the frontier the lemmas rely on.
\<close>

section \<open>Third-party operations\<close>

record ('fr, 'h, 'c, 'a) orchard_ops =
  fr_empty :: 'fr
  fr_append :: "'fr \<Rightarrow> 'h \<Rightarrow> 'fr option"
  fr_value :: "'fr \<Rightarrow> (u64 \<times> 'h \<times> 'h list) option"
  fr_from_parts :: "u64 \<Rightarrow> 'h \<Rightarrow> 'h list \<Rightarrow> 'fr option"
  fr_root :: "'fr \<Rightarrow> 'h"
  node_to_bytes :: "'h \<Rightarrow> bytes"
  orchard_node_from_bytes :: "bytes \<Rightarrow> 'h option"
  from_cmx :: "'c \<Rightarrow> 'h"
  anchor_from :: "'h \<Rightarrow> 'a"
  anchor_empty_tree :: 'a

text \<open>
  \<open>fr_append\<close> returns the extended frontier, or \<open>None\<close> when the frontier is full; \<open>fr_value\<close> is the
  position of the last leaf, the leaf and the ommers; \<open>fr_from_parts\<close> rebuilds a frontier from them.
\<close>

definition frontier_laws :: "('fr, 'h, 'c, 'a) orchard_ops \<Rightarrow> bool" where
  "frontier_laws ops \<longleftrightarrow>
     (\<forall>f. fr_value ops f = None \<longleftrightarrow> f = fr_empty ops)
     \<and> (\<forall>f p l os. fr_value ops f = Some (p, l, os) \<longrightarrow> fr_from_parts ops p l os = Some f)
     \<and> (\<forall>f h f'. fr_append ops f h = Some f' \<longrightarrow>
          (\<exists>os. fr_value ops f' =
             Some ((case fr_value ops f of None \<Rightarrow> 0 | Some (p, _) \<Rightarrow> p + 1), h, os)))
     \<and> (\<forall>h. orchard_node_from_bytes ops (node_to_bytes ops h) = Some h)"

section \<open>The model\<close>

datatype tree_full = TreeFull

record 'c chain_block_subtree =
  sub_commitments :: "'c list"

definition subtree_new :: "'c chain_block_subtree" where
  "subtree_new = \<lparr>sub_commitments = []\<rparr>"

definition subtree_push :: "'c chain_block_subtree \<Rightarrow> 'c \<Rightarrow> 'c chain_block_subtree" where
  "subtree_push st cmx = st\<lparr>sub_commitments := sub_commitments st @ [cmx]\<rparr>"

record 'fr global_tree =
  gt_frontier :: 'fr
  gt_size :: u64

definition tree_new :: "('fr, 'h, 'c, 'a) orchard_ops \<Rightarrow> 'fr global_tree" where
  "tree_new ops = \<lparr>gt_frontier = fr_empty ops, gt_size = 0\<rparr>"

definition tree_append ::
  "('fr, 'h, 'c, 'a) orchard_ops \<Rightarrow> 'fr global_tree \<Rightarrow> 'c \<Rightarrow> (tree_full, 'fr global_tree) outcome"
where
  "tree_append ops t cmx =
     (case fr_append ops (gt_frontier t) (from_cmx ops cmx) of
        Some fr \<Rightarrow> bind_outcome (add_p (gt_size t) 1) (\<lambda>n. Ok \<lparr>gt_frontier = fr, gt_size = n\<rparr>)
      | None \<Rightarrow> Err TreeFull)"

definition append_subtree ::
  "('fr, 'h, 'c, 'a) orchard_ops \<Rightarrow> 'fr global_tree \<Rightarrow> 'c chain_block_subtree
     \<Rightarrow> (tree_full, 'fr global_tree) outcome"
where
  "append_subtree ops t st = fold_outcome (\<lambda>cmx t. tree_append ops t cmx) (sub_commitments st) t"

definition tree_anchor :: "('fr, 'h, 'c, 'a) orchard_ops \<Rightarrow> 'fr global_tree \<Rightarrow> 'a" where
  "tree_anchor ops t =
     (case fr_value ops (gt_frontier t) of
        None \<Rightarrow> anchor_empty_tree ops
      | Some _ \<Rightarrow> anchor_from ops (fr_root ops (gt_frontier t)))"

record frontier_state =
  fs_size :: u64
  fs_leaf :: "bytes option"
  fs_ommers :: "bytes list"

datatype tree_state_error = NonCanonicalNode | Inconsistent

definition to_state :: "('fr, 'h, 'c, 'a) orchard_ops \<Rightarrow> 'fr global_tree \<Rightarrow> frontier_state" where
  "to_state ops t =
     (case fr_value ops (gt_frontier t) of
        None \<Rightarrow> \<lparr>fs_size = 0, fs_leaf = None, fs_ommers = []\<rparr>
      | Some (p, leaf, ommers) \<Rightarrow>
          \<lparr>fs_size = gt_size t, fs_leaf = Some (node_to_bytes ops leaf),
           fs_ommers = map (node_to_bytes ops) ommers\<rparr>)"

definition node_from_bytes ::
  "('fr, 'h, 'c, 'a) orchard_ops \<Rightarrow> bytes \<Rightarrow> (tree_state_error, 'h) outcome"
where
  "node_from_bytes ops b = ok_or NonCanonicalNode (orchard_node_from_bytes ops b)"

primrec nodes_from_bytes ::
  "('fr, 'h, 'c, 'a) orchard_ops \<Rightarrow> bytes list \<Rightarrow> (tree_state_error, 'h list) outcome"
where
  "nodes_from_bytes ops [] = Ok []"
| "nodes_from_bytes ops (b # bs) =
     bind_outcome (node_from_bytes ops b) (\<lambda>h.
     bind_outcome (nodes_from_bytes ops bs) (\<lambda>hs. Ok (h # hs)))"

definition from_state ::
  "('fr, 'h, 'c, 'a) orchard_ops \<Rightarrow> frontier_state \<Rightarrow> (tree_state_error, 'fr global_tree) outcome"
where
  "from_state ops st =
     (if fs_size st = 0 then Ok (tree_new ops)
      else bind_outcome (ok_or Inconsistent (fs_leaf st)) (\<lambda>lf.
           bind_outcome (node_from_bytes ops lf) (\<lambda>leaf.
           bind_outcome (nodes_from_bytes ops (fs_ommers st)) (\<lambda>ommers.
           bind_outcome (sub_p (fs_size st) 1) (\<lambda>position.
           bind_outcome (ok_or Inconsistent (fr_from_parts ops position leaf ommers)) (\<lambda>fr.
           Ok \<lparr>gt_frontier = fr, gt_size = fs_size st\<rparr>))))))"

section \<open>Appending\<close>

lemma tree_append_OkD:
  "tree_append ops t cmx = Ok t' \<Longrightarrow>
     fr_append ops (gt_frontier t) (from_cmx ops cmx) = Some (gt_frontier t')
     \<and> unat (gt_size t') = unat (gt_size t) + 1"
  by (auto simp: tree_append_def outcome_splits unat_arith_simps split: option.splits)

lemma append_subtree_empty [simp]: "append_subtree ops t subtree_new = Ok t"
  by (simp add: append_subtree_def subtree_new_def)

lemma append_subtree_push:
  "append_subtree ops t (subtree_push st cmx)
     = bind_outcome (append_subtree ops t st) (\<lambda>t. tree_append ops t cmx)"
  by (cases "fold_outcome (\<lambda>cmx t. tree_append ops t cmx) (sub_commitments st) t";
      cases "tree_append ops (case fold_outcome (\<lambda>cmx t. tree_append ops t cmx) (sub_commitments st) t of
        Ok u \<Rightarrow> u | _ \<Rightarrow> t) cmx")
    (simp_all add: append_subtree_def subtree_push_def fold_outcome_append)

lemma append_subtree_size:
  "append_subtree ops t st = Ok t' \<Longrightarrow>
     unat (gt_size t') = unat (gt_size t) + length (sub_commitments st)"
  unfolding append_subtree_def
proof (induction "sub_commitments st" arbitrary: t st)
  case Nil
  then show ?case by simp
next
  case (Cons c cs)
  from Cons.prems Cons.hyps(2)[symmetric] obtain u where
    u: "tree_append ops t c = Ok u" "fold_outcome (\<lambda>cmx t. tree_append ops t cmx) cs u = Ok t'"
    by (auto simp: bind_outcome_Ok_iff)
  have "unat (gt_size t') = unat (gt_size u) + length cs"
    using Cons.hyps(1) [of "\<lparr>sub_commitments = cs\<rparr>" u] u(2) by simp
  with tree_append_OkD [OF u(1)] Cons.hyps(2)[symmetric] show ?case by simp
qed

section \<open>The global tree between blocks\<close>

text \<open>The invariant of a tree built by appends: the frontier's position is one below the size.\<close>

definition tree_ok :: "('fr, 'h, 'c, 'a) orchard_ops \<Rightarrow> 'fr global_tree \<Rightarrow> bool" where
  "tree_ok ops t \<longleftrightarrow>
     (case fr_value ops (gt_frontier t) of
        None \<Rightarrow> gt_size t = 0
      | Some (p, _) \<Rightarrow> unat (gt_size t) = unat p + 1)"

lemma tree_ok_new: "frontier_laws ops \<Longrightarrow> tree_ok ops (tree_new ops)"
proof -
  assume "frontier_laws ops"
  then have "fr_value ops (fr_empty ops) = None" by (simp add: frontier_laws_def)
  then show ?thesis by (simp add: tree_ok_def tree_new_def)
qed

lemma tree_ok_append:
  assumes laws: "frontier_laws ops" and ok: "tree_ok ops t" and app: "tree_append ops t cmx = Ok t'"
  shows "tree_ok ops t'"
proof -
  note T = tree_append_OkD [OF app]
  obtain os where v: "fr_value ops (gt_frontier t') =
      Some ((case fr_value ops (gt_frontier t) of None \<Rightarrow> 0 | Some (p, _) \<Rightarrow> p + 1), from_cmx ops cmx, os)"
    using laws T unfolding frontier_laws_def by blast
  show ?thesis
  proof (cases "fr_value ops (gt_frontier t)")
    case None
    with v T ok show ?thesis by (simp add: tree_ok_def)
  next
    case (Some plo)
    then obtain p l o' where plo: "fr_value ops (gt_frontier t) = Some (p, l, o')"
      by (cases plo) auto
    with ok have p: "unat (gt_size t) = unat p + 1" by (simp add: tree_ok_def)
    have "unat p + 1 < 2 ^ 64" using p unat_less [of "gt_size t"] by simp
    then have "unat (p + 1) = unat p + 1" by (simp add: unat_word_ariths)
    with plo v T p show ?thesis by (simp add: tree_ok_def)
  qed
qed

lemma tree_ok_append_subtree:
  assumes "frontier_laws ops" and "tree_ok ops t" and "append_subtree ops t st = Ok t'"
  shows "tree_ok ops t'"
  using assms(3) unfolding append_subtree_def
  by (rule fold_outcome_invariant [where P = "tree_ok ops", OF _ assms(2)])
    (rule tree_ok_append [OF assms(1)])

lemma nodes_from_bytes_map:
  "frontier_laws ops \<Longrightarrow> nodes_from_bytes ops (map (node_to_bytes ops) hs) = Ok hs"
  by (induction hs) (auto simp: frontier_laws_def node_from_bytes_def)

text \<open>A persisted snapshot restores exactly the tree it was taken from.\<close>

lemma from_state_to_state:
  assumes laws: "frontier_laws ops" and ok: "tree_ok ops t"
  shows "from_state ops (to_state ops t) = Ok t"
proof (cases "fr_value ops (gt_frontier t)")
  case None
  then have "gt_frontier t = fr_empty ops" using laws by (simp add: frontier_laws_def)
  moreover have "gt_size t = 0" using None ok by (simp add: tree_ok_def)
  ultimately show ?thesis using None by (simp add: to_state_def from_state_def tree_new_def)
next
  case (Some plo)
  then obtain p l os where v: "fr_value ops (gt_frontier t) = Some (p, l, os)" by (cases plo) auto
  with ok have p: "unat (gt_size t) = unat p + 1" by (simp add: tree_ok_def)
  then have nz: "gt_size t \<noteq> 0" by auto
  have "checked_sub (gt_size t) 1 = Some p" using p by (simp add: checked_sub_Some_iff)
  moreover have "fr_from_parts ops p l os = Some (gt_frontier t)"
    using laws v by (simp add: frontier_laws_def)
  moreover have "node_from_bytes ops (node_to_bytes ops l) = Ok l"
    using laws by (simp add: frontier_laws_def node_from_bytes_def)
  ultimately show ?thesis
    using v nz by (simp add: to_state_def from_state_def nodes_from_bytes_map [OF laws])
qed

section \<open>Properties\<close>

text \<open>C17. Persistence of the global tree: after any number of successful chain-block appends to a fresh
  tree, exporting the frontier snapshot and rebuilding from it returns the very same tree, and the
  recorded size is the number of appended commitments.\<close>

theorem global_tree_snapshot_roundtrip:
  assumes laws: "frontier_laws ops"
    and run: "fold_outcome (\<lambda>st t. append_subtree ops t st) sts (tree_new ops) = Ok t"
  shows "from_state ops (to_state ops t) = Ok t
     \<and> unat (gt_size t) = (\<Sum>st\<leftarrow>sts. length (sub_commitments st))"
proof -
  have "tree_ok ops t"
    using run by (rule fold_outcome_invariant [where P = "tree_ok ops"])
      (auto intro: tree_ok_new tree_ok_append_subtree laws)
  moreover have "fold_outcome (\<lambda>st t. append_subtree ops t st) sts u = Ok t \<Longrightarrow>
      unat (gt_size t) = unat (gt_size u) + (\<Sum>st\<leftarrow>sts. length (sub_commitments st))" for u
  proof (induction sts arbitrary: u)
    case Nil
    then show ?case by simp
  next
    case (Cons st sts)
    then obtain m where "append_subtree ops u st = Ok m"
      "fold_outcome (\<lambda>st t. append_subtree ops t st) sts m = Ok t"
      by (auto simp: bind_outcome_Ok_iff)
    with Cons.IH [of m] append_subtree_size show ?case by fastforce
  qed
  ultimately show ?thesis
    using run from_state_to_state [OF laws] by (fastforce simp: tree_new_def)
qed

text \<open>A concrete frontier: the list of all leaves, full at \<open>2^32\<close>.\<close>

definition list_ops :: "(bytes list, bytes, bytes, bytes) orchard_ops" where
  "list_ops = \<lparr>
     fr_empty = [],
     fr_append = (\<lambda>f h. if length f < 2 ^ 32 then Some (f @ [h]) else None),
     fr_value = (\<lambda>f. if f = [] then None else Some (of_nat (length f - 1), last f, butlast f)),
     fr_from_parts = (\<lambda>p l os. Some (os @ [l])),
     fr_root = concat,
     node_to_bytes = id,
     orchard_node_from_bytes = Some,
     from_cmx = id,
     anchor_from = id,
     anchor_empty_tree = []\<rparr>"

lemma list_ops_laws: "frontier_laws list_ops"
proof -
  have "of_nat (length f) = (of_nat (length f - 1) :: u64) + 1" if "f \<noteq> []" for f :: "bytes list"
    using that by (cases f) (simp_all add: add.commute)
  then show ?thesis
    by (auto simp: frontier_laws_def list_ops_def split: if_splits)
qed

theorem global_tree_snapshot_roundtrip_witness:
  "from_state list_ops (to_state list_ops \<lparr>gt_frontier = [[1], [2], [3]], gt_size = 3\<rparr>)
     = Ok \<lparr>gt_frontier = [[1], [2], [3]], gt_size = 3\<rparr>
   \<and> unat (gt_size \<lparr>gt_frontier = [[1], [2], [3 :: u8]], gt_size = 3\<rparr>)
     = (\<Sum>st\<leftarrow>[\<lparr>sub_commitments = [[1], [2 :: u8]]\<rparr>, \<lparr>sub_commitments = [[3]]\<rparr>]. length (sub_commitments st))"
  by (rule global_tree_snapshot_roundtrip [OF list_ops_laws])
    (simp add: append_subtree_def tree_append_def tree_new_def list_ops_def checked_add_def)

end
