(* ===== verification/Nullifier_Set.thy ===== *)
theory Nullifier_Set
  imports Prelude_Zkas
begin

text \<open>
  The nullifier set and first-in-accepted-order conflict resolution
  (\<^verbatim>\<open>shielded-core/src/nullifier.rs\<close>).

  A nullifier is the 32-byte tag revealed when a shielded note is spent. \<open>mem_nullifier_set\<close> is
  \<^verbatim>\<open>MemNullifierSet\<close>, \<open>nullifier_conflict_resolver\<close> is \<^verbatim>\<open>NullifierConflictResolver\<close>; the trait
  \<^verbatim>\<open>NullifierSet\<close> is the \<open>contains\<close> function the resolver is given. The locale
  \<open>nullifier_store\<close> states what the resolver needs of a finalized set and is interpreted by the
  in-memory set.
\<close>

type_synonym nullifier_bytes = bytes

section \<open>The model\<close>

record mem_nullifier_set =
  nf_set :: "nullifier_bytes set"

definition mem_new :: mem_nullifier_set where
  "mem_new = \<lparr>nf_set = {}\<rparr>"

definition mem_insert :: "mem_nullifier_set \<Rightarrow> nullifier_bytes \<Rightarrow> bool \<times> mem_nullifier_set" where
  "mem_insert s nf = (nf \<notin> nf_set s, s\<lparr>nf_set := insert nf (nf_set s)\<rparr>)"

definition mem_extend :: "mem_nullifier_set \<Rightarrow> nullifier_bytes list \<Rightarrow> mem_nullifier_set" where
  "mem_extend s nfs = s\<lparr>nf_set := nf_set s \<union> set nfs\<rparr>"

definition mem_len :: "mem_nullifier_set \<Rightarrow> nat" where
  "mem_len s = card (nf_set s)"

definition mem_is_empty :: "mem_nullifier_set \<Rightarrow> bool" where
  "mem_is_empty s = Set.is_empty (nf_set s)"

definition mem_contains :: "mem_nullifier_set \<Rightarrow> nullifier_bytes \<Rightarrow> bool" where
  "mem_contains s nf = (nf \<in> nf_set s)"

datatype nullifier_conflict =
    AlreadySpent nullifier_bytes
  | DuplicateWithinTx nullifier_bytes

record nullifier_conflict_resolver =
  finalized :: "nullifier_bytes \<Rightarrow> bool"
  seen :: "nullifier_bytes set"
  accepted_nfs :: "nullifier_bytes list"

definition resolver_new :: "(nullifier_bytes \<Rightarrow> bool) \<Rightarrow> nullifier_conflict_resolver" where
  "resolver_new fin = \<lparr>finalized = fin, seen = {}, accepted_nfs = []\<rparr>"

definition conflicts :: "nullifier_conflict_resolver \<Rightarrow> nullifier_bytes \<Rightarrow> bool" where
  "conflicts r nf = (finalized r nf \<or> nf \<in> seen r)"

text \<open>The checking loop of \<open>try_accept\<close>: \<open>within_tx\<close> grows by one nullifier per iteration.\<close>

fun scan_nullifiers ::
  "nullifier_conflict_resolver \<Rightarrow> nullifier_bytes set \<Rightarrow> nullifier_bytes list \<Rightarrow> nullifier_conflict option"
where
  "scan_nullifiers r within_tx [] = None"
| "scan_nullifiers r within_tx (nf # nfs) =
     (if nf \<in> within_tx then Some (DuplicateWithinTx nf)
      else if conflicts r nf then Some (AlreadySpent nf)
      else scan_nullifiers r (insert nf within_tx) nfs)"

text \<open>The recording loop of \<open>try_accept\<close>.\<close>

fun record_nullifiers ::
  "nullifier_conflict_resolver \<Rightarrow> nullifier_bytes list \<Rightarrow> nullifier_conflict_resolver"
where
  "record_nullifiers r [] = r"
| "record_nullifiers r (nf # nfs) =
     record_nullifiers (r\<lparr>seen := insert nf (seen r), accepted_nfs := accepted_nfs r @ [nf]\<rparr>) nfs"

definition try_accept ::
  "nullifier_conflict_resolver \<Rightarrow> nullifier_bytes list
     \<Rightarrow> (nullifier_conflict, unit) outcome \<times> nullifier_conflict_resolver"
where
  "try_accept r nfs =
     (case scan_nullifiers r {} nfs of
        Some c \<Rightarrow> (Err c, r)
      | None \<Rightarrow> (Ok (), record_nullifiers r nfs))"

definition into_accepted :: "nullifier_conflict_resolver \<Rightarrow> nullifier_bytes list" where
  "into_accepted r = accepted_nfs r"

section \<open>One call of the resolver\<close>

lemma scan_None_iff:
  "scan_nullifiers r W nfs = None
     \<longleftrightarrow> distinct nfs \<and> set nfs \<inter> W = {} \<and> (\<forall>nf \<in> set nfs. \<not> conflicts r nf)"
  by (induction r W nfs rule: scan_nullifiers.induct) auto

lemma scan_AlreadySpent:
  "scan_nullifiers r W nfs = Some (AlreadySpent nf) \<Longrightarrow> nf \<in> set nfs \<and> conflicts r nf"
  by (induction r W nfs rule: scan_nullifiers.induct) (auto split: if_splits)

lemma scan_Duplicate:
  "scan_nullifiers r W nfs = Some (DuplicateWithinTx nf)
     \<Longrightarrow> nf \<in> set nfs \<and> (nf \<in> W \<or> \<not> distinct nfs)"
proof (induction r W nfs rule: scan_nullifiers.induct)
  case (1 r W)
  then show ?case by simp
next
  case (2 r W x xs)
  then show ?case by (cases "x \<in> W"; cases "conflicts r x") auto
qed

lemma record_nullifiers_eq:
  "record_nullifiers r nfs =
     r\<lparr>seen := seen r \<union> set nfs, accepted_nfs := accepted_nfs r @ nfs\<rparr>"
  by (induction r nfs rule: record_nullifiers.induct) auto

definition acceptable :: "nullifier_conflict_resolver \<Rightarrow> nullifier_bytes list \<Rightarrow> bool" where
  "acceptable r nfs \<longleftrightarrow> distinct nfs \<and> (\<forall>nf \<in> set nfs. \<not> conflicts r nf)"

lemma try_accept_cases:
  "(acceptable r nfs \<and> fst (try_accept r nfs) = Ok () \<and>
      snd (try_accept r nfs) = r\<lparr>seen := seen r \<union> set nfs, accepted_nfs := accepted_nfs r @ nfs\<rparr>)
   \<or> (\<not> acceptable r nfs \<and> (\<exists>c. fst (try_accept r nfs) = Err c) \<and> snd (try_accept r nfs) = r)"
proof (cases "scan_nullifiers r {} nfs")
  case None
  then have "acceptable r nfs" by (simp add: acceptable_def scan_None_iff)
  with None show ?thesis by (simp add: try_accept_def record_nullifiers_eq)
next
  case (Some c)
  then have "\<not> acceptable r nfs"
    using scan_None_iff [of r "{}" nfs] by (auto simp: acceptable_def)
  with Some show ?thesis by (simp add: try_accept_def)
qed

lemma try_accept_Ok_iff: "fst (try_accept r nfs) = Ok () \<longleftrightarrow> acceptable r nfs"
  using try_accept_cases [of r nfs] by auto

lemma try_accept_not_Panic: "fst (try_accept r nfs) \<noteq> Panic"
  using try_accept_cases [of r nfs] by auto

text \<open>The invariant of a resolver: \<open>seen\<close> mirrors \<open>accepted\<close>, nothing was accepted twice and
  nothing accepted was already final.\<close>

definition resolver_ok :: "nullifier_conflict_resolver \<Rightarrow> bool" where
  "resolver_ok r \<longleftrightarrow> seen r = set (accepted_nfs r) \<and> distinct (accepted_nfs r)
     \<and> (\<forall>nf \<in> set (accepted_nfs r). \<not> finalized r nf)"

lemma resolver_ok_new [simp]: "resolver_ok (resolver_new fin)"
  by (simp add: resolver_ok_def resolver_new_def)

lemma resolver_ok_try_accept: "resolver_ok r \<Longrightarrow> resolver_ok (snd (try_accept r nfs))"
  using try_accept_cases [of r nfs]
  by (auto simp: resolver_ok_def acceptable_def conflicts_def)

lemma finalized_try_accept [simp]: "finalized (snd (try_accept r nfs)) = finalized r"
  using try_accept_cases [of r nfs] by auto

lemma finalized_new [simp]: "finalized (resolver_new fin) = fin"
  by (simp add: resolver_new_def)

lemma accepted_new [simp]: "accepted_nfs (resolver_new fin) = []"
  by (simp add: resolver_new_def)

section \<open>Specification of a batch: first in accepted order wins\<close>

fun first_wins :: "nullifier_bytes set \<Rightarrow> nullifier_bytes list list \<Rightarrow> bool list" where
  "first_wins spent [] = []"
| "first_wins spent (t # ts) =
     (if distinct t \<and> set t \<inter> spent = {} then True # first_wins (spent \<union> set t) ts
      else False # first_wins spent ts)"

fun resolve_all ::
  "nullifier_conflict_resolver \<Rightarrow> nullifier_bytes list list \<Rightarrow> bool list \<times> nullifier_conflict_resolver"
where
  "resolve_all r [] = ([], r)"
| "resolve_all r (t # ts) =
     (let (res, r') = try_accept r t; (oks, r'') = resolve_all r' ts in (is_ok res # oks, r''))"

definition spent_by :: "nullifier_conflict_resolver \<Rightarrow> nullifier_bytes set" where
  "spent_by r = {nf. conflicts r nf}"

lemma acceptable_spent_by: "acceptable r t \<longleftrightarrow> distinct t \<and> set t \<inter> spent_by r = {}"
  by (auto simp: acceptable_def spent_by_def)

lemma spent_by_try_accept:
  "spent_by (snd (try_accept r t)) = (if acceptable r t then spent_by r \<union> set t else spent_by r)"
  using try_accept_cases [of r t] by (auto simp: spent_by_def conflicts_def)

lemma is_ok_try_accept: "is_ok (fst (try_accept r t)) \<longleftrightarrow> acceptable r t"
  using try_accept_cases [of r t] by auto

lemma resolve_all_first_wins: "fst (resolve_all r ts) = first_wins (spent_by r) ts"
proof (induction ts arbitrary: r)
  case Nil
  then show ?case by simp
next
  case (Cons t ts)
  have "fst (resolve_all r (t # ts))
      = is_ok (fst (try_accept r t)) # fst (resolve_all (snd (try_accept r t)) ts)"
    by (simp add: split_def Let_def)
  then show ?case
    using Cons by (simp add: is_ok_try_accept spent_by_try_accept acceptable_spent_by)
qed

lemma resolve_all_ok: "resolver_ok r \<Longrightarrow> resolver_ok (snd (resolve_all r ts))"
  by (induction ts arbitrary: r) (auto simp: split_def Let_def resolver_ok_try_accept)

lemma finalized_resolve_all [simp]: "finalized (snd (resolve_all r ts)) = finalized r"
  by (induction ts arbitrary: r) (auto simp: split_def Let_def)

section \<open>The contract of a finalized set\<close>

locale nullifier_store =
  fixes contains :: "'s \<Rightarrow> nullifier_bytes \<Rightarrow> bool"
    and extend :: "'s \<Rightarrow> nullifier_bytes list \<Rightarrow> 's"
  assumes contains_extend: "contains (extend s nfs) nf \<longleftrightarrow> contains s nf \<or> nf \<in> set nfs"
begin

lemma append_only: "contains s nf \<Longrightarrow> contains (extend s nfs) nf"
  by (simp add: contains_extend)

lemma extend_extend: "contains (extend (extend s xs) ys) nf \<longleftrightarrow> contains (extend s (xs @ ys)) nf"
  by (auto simp: contains_extend)

text \<open>Once a batch has been committed to the store, no later batch can spend its nullifiers.\<close>

lemma no_respend:
  assumes "nf \<in> set (into_accepted (snd (resolve_all (resolver_new (contains s)) ts)))"
    and "nf \<in> set t"
  shows "\<not> acceptable (resolver_new
           (contains (extend s (into_accepted (snd (resolve_all (resolver_new (contains s)) ts)))))) t"
  using assms by (auto simp: acceptable_def conflicts_def resolver_new_def contains_extend)

end

interpretation mem_store: nullifier_store mem_contains mem_extend
  by unfold_locales (simp add: mem_contains_def mem_extend_def)

end
