(* ===== verification/Bundle_Codec.thy ===== *)
theory Bundle_Codec
  imports Nullifier_Set
begin

text \<open>
  The canonical wire format of a shielded bundle (\<^verbatim>\<open>shielded-core/src/bundle.rs\<close>): the byte writer and
  reader, \<open>to_bytes\<close>, the two decoders (before and after the security fork), the action-count peek
  used by the mass calculator, the size formulas and the operations that attach a burn declaration
  or an anchor block.

  Fixed-size arrays are byte lists whose length the predicate \<open>bundle_widths\<close> records, as the Rust
  types do. An \<open>i64\<close> is a 64-bit word read with \<open>sint\<close>. The lemmas give every reader an exact
  characterisation: it returns a value iff the input starts with the printed form of that value
  (\<open>consumed\<close>).
\<close>

section \<open>The model\<close>

definition FIELD :: nat where "FIELD = 32"
definition ENC_CIPHERTEXT :: nat where "ENC_CIPHERTEXT = 580"
definition OUT_CIPHERTEXT :: nat where "OUT_CIPHERTEXT = 80"
definition SIG :: nat where "SIG = 64"

lemmas size_defs = FIELD_def ENC_CIPHERTEXT_def OUT_CIPHERTEXT_def SIG_def

definition MAX_ACTIONS_PER_BUNDLE :: nat where "MAX_ACTIONS_PER_BUNDLE = 512"
definition BUNDLE_FLAG_BURN :: u8 where "BUNDLE_FLAG_BURN = 4"
definition BUNDLE_FLAG_ANCHOR_BLOCK :: u8 where "BUNDLE_FLAG_ANCHOR_BLOCK = 8"
definition BURN_DECL_LEN :: nat where "BURN_DECL_LEN = 8 + 32"

record action_wire =
  aw_nullifier :: nullifier_bytes
  aw_rk :: bytes
  aw_cmx :: bytes
  aw_cv_net :: bytes
  aw_ephemeral_key :: bytes
  aw_enc_ciphertext :: bytes
  aw_out_ciphertext :: bytes
  aw_spend_auth_sig :: bytes

definition ACTION_SERIALIZED_LEN :: nat where
  "ACTION_SERIALIZED_LEN = FIELD * 5 + ENC_CIPHERTEXT + OUT_CIPHERTEXT + SIG"

definition expected_proof_len :: "nat \<Rightarrow> nat" where
  "expected_proof_len n_actions = 2720 + 2272 * n_actions"

definition expected_wire_len :: "nat \<Rightarrow> nat" where
  "expected_wire_len n_actions =
     117 + n_actions * ACTION_SERIALIZED_LEN + expected_proof_len n_actions"

definition expected_wire_len_with_burn :: "nat \<Rightarrow> nat" where
  "expected_wire_len_with_burn n_actions = expected_wire_len n_actions + BURN_DECL_LEN"

record shielded_bundle =
  sb_actions :: "action_wire list"
  sb_flags :: u8
  sb_value_balance :: "64 word"
  sb_anchor :: bytes
  sb_proof :: bytes
  sb_binding_sig :: bytes
  sb_burn :: "(u64 \<times> bytes) option"
  sb_anchor_block :: "bytes option"

datatype burn_declare_error = ZeroValue | ExceedsValueBalance u64 "64 word"

datatype bundle_decode_error =
    UnexpectedEof
  | LengthOverflow
  | TrailingBytes
  | MalformedBurnDeclaration
  | ZeroValueBurn
  | TooManyActions

subsection \<open>Writer\<close>

definition w_var :: "bytes \<Rightarrow> bytes" where
  "w_var b = to_be_bytes (of_nat (length b) :: u32) @ b"

definition action_to_bytes :: "action_wire \<Rightarrow> bytes" where
  "action_to_bytes a = aw_nullifier a @ aw_rk a @ aw_cmx a @ aw_cv_net a @ aw_ephemeral_key a
     @ aw_enc_ciphertext a @ aw_out_ciphertext a @ aw_spend_auth_sig a"

definition to_bytes :: "shielded_bundle \<Rightarrow> bytes" where
  "to_bytes b = [sb_flags b] @ to_be_bytes (sb_value_balance b) @ sb_anchor b @ w_var (sb_binding_sig b)
     @ to_be_bytes (of_nat (length (sb_actions b)) :: u32)
     @ concat (map action_to_bytes (sb_actions b))
     @ w_var (sb_proof b)
     @ (case sb_burn b of None \<Rightarrow> [] | Some (amount, recipient) \<Rightarrow> to_be_bytes amount @ recipient)
     @ (case sb_anchor_block b of None \<Rightarrow> [] | Some block \<Rightarrow> block)"

subsection \<open>Reader\<close>

record reader =
  rd_buf :: bytes
  rd_pos :: nat

definition r_new :: "bytes \<Rightarrow> reader" where
  "r_new buf = \<lparr>rd_buf = buf, rd_pos = 0\<rparr>"

definition r_take :: "nat \<Rightarrow> reader \<Rightarrow> (bundle_decode_error, bytes \<times> reader) outcome" where
  "r_take n r =
     (if 2 ^ 64 \<le> rd_pos r + n then Err LengthOverflow
      else if length (rd_buf r) < rd_pos r + n then Err UnexpectedEof
      else Ok (take n (drop (rd_pos r) (rd_buf r)), r\<lparr>rd_pos := rd_pos r + n\<rparr>))"

definition r_u8 :: "reader \<Rightarrow> (bundle_decode_error, u8 \<times> reader) outcome" where
  "r_u8 r = bind_outcome (r_take 1 r) (\<lambda>(s, r). bind_outcome (nth_p s 0) (\<lambda>b. Ok (b, r)))"

definition r_u32 :: "reader \<Rightarrow> (bundle_decode_error, u32 \<times> reader) outcome" where
  "r_u32 r = bind_outcome (r_take 4 r) (\<lambda>(s, r). Ok (from_be_bytes s, r))"

definition r_u64 :: "reader \<Rightarrow> (bundle_decode_error, u64 \<times> reader) outcome" where
  "r_u64 r = bind_outcome (r_take 8 r) (\<lambda>(s, r). Ok (from_be_bytes s, r))"

definition r_var :: "reader \<Rightarrow> (bundle_decode_error, bytes \<times> reader) outcome" where
  "r_var r = bind_outcome (r_u32 r) (\<lambda>(n, r). r_take (unat n) r)"

definition r_finished :: "reader \<Rightarrow> bool" where
  "r_finished r \<longleftrightarrow> rd_pos r = length (rd_buf r)"

definition r_action :: "reader \<Rightarrow> (bundle_decode_error, action_wire \<times> reader) outcome" where
  "r_action r =
     bind_outcome (r_take FIELD r) (\<lambda>(nf, r).
     bind_outcome (r_take FIELD r) (\<lambda>(rk, r).
     bind_outcome (r_take FIELD r) (\<lambda>(cmx, r).
     bind_outcome (r_take FIELD r) (\<lambda>(cv_net, r).
     bind_outcome (r_take FIELD r) (\<lambda>(epk, r).
     bind_outcome (r_take ENC_CIPHERTEXT r) (\<lambda>(enc, r).
     bind_outcome (r_take OUT_CIPHERTEXT r) (\<lambda>(out, r).
     bind_outcome (r_take SIG r) (\<lambda>(sig, r).
       Ok (\<lparr>aw_nullifier = nf, aw_rk = rk, aw_cmx = cmx, aw_cv_net = cv_net, aw_ephemeral_key = epk,
            aw_enc_ciphertext = enc, aw_out_ciphertext = out, aw_spend_auth_sig = sig\<rparr>, r)))))))))"

primrec r_actions :: "nat \<Rightarrow> reader \<Rightarrow> (bundle_decode_error, action_wire list \<times> reader) outcome" where
  "r_actions 0 r = Ok ([], r)"
| "r_actions (Suc n) r =
     bind_outcome (r_action r) (\<lambda>(a, r).
     bind_outcome (r_actions n r) (\<lambda>(rest, r). Ok (a # rest, r)))"

subsection \<open>Decoding\<close>

definition action_count_from_bytes :: "bytes \<Rightarrow> (bundle_decode_error, nat option) outcome" where
  "action_count_from_bytes bs =
     (case bind_outcome (r_u8 (r_new bs)) (\<lambda>(_, r).
           bind_outcome (r_u64 r) (\<lambda>(_, r).
           bind_outcome (r_take FIELD r) (\<lambda>(_, r).
           bind_outcome (r_var r) (\<lambda>(_, r).
           bind_outcome (r_u32 r) (\<lambda>(n, r). Ok (unat n)))))) of
        Ok n_actions \<Rightarrow> Ok (if MAX_ACTIONS_PER_BUNDLE < n_actions then None else Some n_actions)
      | Err e \<Rightarrow> Ok None
      | Panic \<Rightarrow> Panic)"

definition r_burn :: "u8 \<Rightarrow> reader \<Rightarrow> (bundle_decode_error, (u64 \<times> bytes) option \<times> reader) outcome" where
  "r_burn flags r =
     (if and flags BUNDLE_FLAG_BURN \<noteq> 0 then
        bind_outcome (map_err (\<lambda>_. MalformedBurnDeclaration) (r_u64 r)) (\<lambda>(amount, r).
        bind_outcome (map_err (\<lambda>_. MalformedBurnDeclaration) (r_take FIELD r)) (\<lambda>(recipient, r).
          if amount = 0 then Err ZeroValueBurn else Ok (Some (amount, recipient), r)))
      else Ok (None, r))"

definition r_anchor_block ::
  "bool \<Rightarrow> u8 \<Rightarrow> reader \<Rightarrow> (bundle_decode_error, bytes option \<times> reader) outcome"
where
  "r_anchor_block anchor_block_field flags r =
     (if anchor_block_field \<and> and flags BUNDLE_FLAG_ANCHOR_BLOCK \<noteq> 0 then
        bind_outcome (map_err (\<lambda>_. UnexpectedEof) (r_take 32 r)) (\<lambda>(block, r). Ok (Some block, r))
      else Ok (None, r))"

definition bundle_decode :: "bytes \<Rightarrow> bool \<Rightarrow> (bundle_decode_error, shielded_bundle) outcome" where
  "bundle_decode bs anchor_block_field =
     bind_outcome (r_u8 (r_new bs)) (\<lambda>(flags, r).
     bind_outcome (r_u64 r) (\<lambda>(value_balance, r).
     bind_outcome (r_take FIELD r) (\<lambda>(anchor, r).
     bind_outcome (r_var r) (\<lambda>(binding_sig, r).
     bind_outcome (if length binding_sig = SIG then Ok () else Err UnexpectedEof) (\<lambda>_.
     bind_outcome (r_u32 r) (\<lambda>(n_actions, r).
     if MAX_ACTIONS_PER_BUNDLE < unat n_actions then Err TooManyActions
     else
     bind_outcome (r_actions (unat n_actions) r) (\<lambda>(actions, r).
     bind_outcome (r_var r) (\<lambda>(proof, r).
     bind_outcome (r_burn flags r) (\<lambda>(burn, r).
     bind_outcome (r_anchor_block anchor_block_field flags r) (\<lambda>(anchor_block, r).
     if \<not> r_finished r then Err TrailingBytes
     else Ok \<lparr>sb_actions = actions, sb_flags = flags, sb_value_balance = value_balance, sb_anchor = anchor,
              sb_proof = proof, sb_binding_sig = binding_sig, sb_burn = burn,
              sb_anchor_block = anchor_block\<rparr>))))))))))"

definition from_bytes :: "bytes \<Rightarrow> (bundle_decode_error, shielded_bundle) outcome" where
  "from_bytes bs = bundle_decode bs True"

definition from_bytes_at :: "bytes \<Rightarrow> bool \<Rightarrow> (bundle_decode_error, shielded_bundle) outcome" where
  "from_bytes_at bs security_fork_active = bundle_decode bs security_fork_active"

definition set_anchor_block :: "shielded_bundle \<Rightarrow> bytes \<Rightarrow> shielded_bundle" where
  "set_anchor_block b block =
     b\<lparr>sb_anchor_block := Some block, sb_flags := or (sb_flags b) BUNDLE_FLAG_ANCHOR_BLOCK\<rparr>"

definition declare_burn ::
  "shielded_bundle \<Rightarrow> u64 \<Rightarrow> bytes \<Rightarrow> (burn_declare_error, shielded_bundle) outcome"
where
  "declare_burn b burn_value kaspa_recipient =
     (if burn_value = 0 then Err ZeroValue
      else if sint (sb_value_balance b) < 0 \<or> sb_value_balance b < burn_value
      then Err (ExceedsValueBalance burn_value (sb_value_balance b))
      else Ok (b\<lparr>sb_flags := or (sb_flags b) BUNDLE_FLAG_BURN,
                 sb_burn := Some (burn_value, kaspa_recipient)\<rparr>))"

definition bundle_nullifiers :: "shielded_bundle \<Rightarrow> nullifier_bytes list" where
  "bundle_nullifiers b = map aw_nullifier (sb_actions b)"

section \<open>What a reader consumes\<close>

definition reader_ok :: "reader \<Rightarrow> bool" where
  "reader_ok r \<longleftrightarrow> rd_pos r \<le> length (rd_buf r) \<and> length (rd_buf r) < 2 ^ 63"

definition consumed :: "reader \<Rightarrow> bytes \<Rightarrow> reader \<Rightarrow> bool" where
  "consumed r s r' \<longleftrightarrow> reader_ok r \<and> rd_buf r' = rd_buf r \<and> rd_pos r' = rd_pos r + length s
     \<and> rd_pos r' \<le> length (rd_buf r) \<and> take (length s) (drop (rd_pos r) (rd_buf r)) = s"

lemma consumed_ok: "consumed r s r' \<Longrightarrow> reader_ok r'"
  by (auto simp: consumed_def reader_ok_def)

lemma consumed_Nil [simp]: "reader_ok r \<Longrightarrow> consumed r [] r' \<longleftrightarrow> r' = r"
  by (auto simp: consumed_def reader_ok_def)

lemma take_append_split:
  "take (length a + length b) xs = a @ b \<longleftrightarrow> take (length a) xs = a \<and> take (length b) (drop (length a) xs) = b"
  if "length a + length b \<le> length xs" for a b xs :: "'x list"
  using that by (auto simp: take_add append_eq_append_conv)

lemma consumed_append:
  "consumed r (a @ b) r' \<longleftrightarrow> (\<exists>m. consumed r a m \<and> consumed m b r')"
proof
  assume c: "consumed r (a @ b) r'"
  let ?m = "r\<lparr>rd_pos := rd_pos r + length a\<rparr>"
  have "take (length a) (drop (rd_pos r) (rd_buf r)) = a"
    and "take (length b) (drop (length a) (drop (rd_pos r) (rd_buf r))) = b"
    using c take_append_split [of a b "drop (rd_pos r) (rd_buf r)"] by (auto simp: consumed_def)
  then have "consumed r a ?m \<and> consumed ?m b r'"
    using c by (auto simp: consumed_def reader_ok_def add.commute)
  then show "\<exists>m. consumed r a m \<and> consumed m b r'" by blast
next
  assume "\<exists>m. consumed r a m \<and> consumed m b r'"
  then obtain m where m: "consumed r a m" "consumed m b r'" by blast
  then have "take (length a) (drop (rd_pos r) (rd_buf r)) = a"
    and "take (length b) (drop (length a) (drop (rd_pos r) (rd_buf r))) = b"
    by (auto simp: consumed_def add.commute)
  then show "consumed r (a @ b) r'"
    using m take_append_split [of a b "drop (rd_pos r) (rd_buf r)"] by (auto simp: consumed_def)
qed

lemma r_take_iff:
  assumes ok: "reader_ok r"
  shows "r_take n r = Ok (s, r') \<longleftrightarrow> length s = n \<and> consumed r s r'"
proof (cases "rd_pos r + n \<le> length (rd_buf r)")
  case True
  then have small: "\<not> 2 ^ 64 \<le> rd_pos r + n"
    using ok by (simp add: reader_ok_def)
  have take: "r_take n r = Ok (take n (drop (rd_pos r) (rd_buf r)), r\<lparr>rd_pos := rd_pos r + n\<rparr>)"
    using True small by (simp add: r_take_def)
  show ?thesis unfolding take consumed_def using ok True by (auto simp: min_def)
next
  case False
  then have "r_take n r = Err LengthOverflow \<or> r_take n r = Err UnexpectedEof"
    by (simp add: r_take_def)
  moreover have "\<not> (length s = n \<and> consumed r s r')" using False by (auto simp: consumed_def)
  ultimately show ?thesis by auto
qed

text \<open>Every reader returns a value exactly when the input starts with that value's printed form.\<close>

lemma r_u8_iff: "reader_ok r \<Longrightarrow> r_u8 r = Ok (x, r') \<longleftrightarrow> consumed r [x] r'"
  by (auto simp: r_u8_def bind_outcome_Ok_iff r_take_iff nth_p_Ok_iff length_Suc_conv)

lemma r_u32_iff: "reader_ok r \<Longrightarrow> r_u32 r = Ok (x, r') \<longleftrightarrow> consumed r (to_be_bytes x) r'"
  by (auto simp: r_u32_def bind_outcome_Ok_iff r_take_iff to_be_from_be intro: exI [of _ "to_be_bytes x"])

lemma r_u64_iff: "reader_ok r \<Longrightarrow> r_u64 r = Ok (x, r') \<longleftrightarrow> consumed r (to_be_bytes x) r'"
  by (auto simp: r_u64_def bind_outcome_Ok_iff r_take_iff to_be_from_be intro: exI [of _ "to_be_bytes x"])

lemma r_var_iff:
  assumes "reader_ok r"
  shows "r_var r = Ok (s, r') \<longleftrightarrow> length s < 2 ^ 32 \<and> consumed r (w_var s) r'"
proof -
  have "r_var r = Ok (s, r') \<longleftrightarrow>
      (\<exists>n m. consumed r (to_be_bytes (n :: u32)) m \<and> length s = unat n \<and> consumed m s r')"
    using assms by (simp add: r_var_def bind_outcome_Ok_iff r_u32_iff r_take_iff consumed_ok cong: conj_cong)
  also have "\<dots> \<longleftrightarrow> (\<exists>n :: u32. length s = unat n \<and> consumed r (to_be_bytes n @ s) r')"
    by (auto simp: consumed_append)
  also have "\<dots> \<longleftrightarrow> length s < 2 ^ 32 \<and> consumed r (w_var s) r'"
  proof
    assume "\<exists>n :: u32. length s = unat n \<and> consumed r (to_be_bytes n @ s) r'"
    then obtain n :: u32 where n: "length s = unat n" "consumed r (to_be_bytes n @ s) r'" by blast
    then have "(of_nat (length s) :: u32) = n" by simp
    then show "length s < 2 ^ 32 \<and> consumed r (w_var s) r'"
      using n unat_less [of n] by (simp add: w_var_def)
  next
    assume "length s < 2 ^ 32 \<and> consumed r (w_var s) r'"
    then show "\<exists>n :: u32. length s = unat n \<and> consumed r (to_be_bytes n @ s) r'"
      by (intro exI [of _ "of_nat (length s)"]) (simp add: w_var_def unat_of_nat)
  qed
  finally show ?thesis .
qed

definition action_widths :: "action_wire \<Rightarrow> bool" where
  "action_widths a \<longleftrightarrow> length (aw_nullifier a) = FIELD \<and> length (aw_rk a) = FIELD
     \<and> length (aw_cmx a) = FIELD \<and> length (aw_cv_net a) = FIELD \<and> length (aw_ephemeral_key a) = FIELD
     \<and> length (aw_enc_ciphertext a) = ENC_CIPHERTEXT \<and> length (aw_out_ciphertext a) = OUT_CIPHERTEXT
     \<and> length (aw_spend_auth_sig a) = SIG"

lemma r_action_iff:
  "reader_ok r \<Longrightarrow> r_action r = Ok (a, r') \<longleftrightarrow> action_widths a \<and> consumed r (action_to_bytes a) r'"
  by (cases a)
    (simp add: r_action_def bind_outcome_Ok_iff r_take_iff consumed_ok action_widths_def action_to_bytes_def
      consumed_append cong: conj_cong, blast)

lemma r_actions_iff:
  "reader_ok r \<Longrightarrow> r_actions n r = Ok (as, r') \<longleftrightarrow>
     length as = n \<and> list_all action_widths as \<and> consumed r (concat (map action_to_bytes as)) r'"
proof (induction n arbitrary: r as)
  case 0
  then show ?case by auto
next
  case (Suc n)
  show ?case
    by (cases as)
      (use Suc in \<open>auto simp: bind_outcome_Ok_iff r_action_iff consumed_append consumed_ok cong: conj_cong\<close>)
qed

definition burn_to_bytes :: "(u64 \<times> bytes) option \<Rightarrow> bytes" where
  "burn_to_bytes burn = (case burn of None \<Rightarrow> [] | Some (amount, recipient) \<Rightarrow> to_be_bytes amount @ recipient)"

definition burn_canonical :: "u8 \<Rightarrow> (u64 \<times> bytes) option \<Rightarrow> bool" where
  "burn_canonical flags burn \<longleftrightarrow>
     (case burn of None \<Rightarrow> and flags BUNDLE_FLAG_BURN = 0
      | Some (amount, recipient) \<Rightarrow> and flags BUNDLE_FLAG_BURN \<noteq> 0 \<and> amount \<noteq> 0 \<and> length recipient = FIELD)"

lemma r_burn_iff:
  assumes "reader_ok r"
  shows "r_burn flags r = Ok (burn, r') \<longleftrightarrow> burn_canonical flags burn \<and> consumed r (burn_to_bytes burn) r'"
proof (cases "and flags BUNDLE_FLAG_BURN = 0")
  case True
  then show ?thesis
    using assms by (auto simp: r_burn_def burn_canonical_def burn_to_bytes_def split: option.splits)
next
  case False
  then show ?thesis
    by (cases burn)
      (use assms in \<open>auto simp: r_burn_def burn_canonical_def burn_to_bytes_def bind_outcome_Ok_iff
        map_err_Ok_iff r_u64_iff r_take_iff consumed_append consumed_ok split: if_splits cong: conj_cong\<close>)
qed

definition anchor_block_canonical :: "bool \<Rightarrow> u8 \<Rightarrow> bytes option \<Rightarrow> bool" where
  "anchor_block_canonical fork flags block \<longleftrightarrow>
     (case block of None \<Rightarrow> \<not> (fork \<and> and flags BUNDLE_FLAG_ANCHOR_BLOCK \<noteq> 0)
      | Some h \<Rightarrow> fork \<and> and flags BUNDLE_FLAG_ANCHOR_BLOCK \<noteq> 0 \<and> length h = 32)"

lemma r_anchor_block_iff:
  assumes "reader_ok r"
  shows "r_anchor_block fork flags r = Ok (block, r') \<longleftrightarrow>
    anchor_block_canonical fork flags block \<and> consumed r (case_option [] (\<lambda>h. h) block) r'"
  by (cases block)
    (use assms in \<open>auto simp: r_anchor_block_def anchor_block_canonical_def bind_outcome_Ok_iff
      map_err_Ok_iff r_take_iff\<close>)

section \<open>The canonical encoding\<close>

text \<open>
  \<open>canonical_bundle fork b\<close>: the array widths of the Rust types, the action cap, a proof whose length
  fits its 32-bit prefix, and trailing fields present exactly when their flag bit says so.
\<close>

definition bundle_widths :: "shielded_bundle \<Rightarrow> bool" where
  "bundle_widths b \<longleftrightarrow> list_all action_widths (sb_actions b) \<and> length (sb_anchor b) = FIELD
     \<and> length (sb_binding_sig b) = SIG"

definition canonical_bundle :: "bool \<Rightarrow> shielded_bundle \<Rightarrow> bool" where
  "canonical_bundle fork b \<longleftrightarrow> bundle_widths b \<and> length (sb_actions b) \<le> MAX_ACTIONS_PER_BUNDLE
     \<and> length (sb_proof b) < 2 ^ 32 \<and> burn_canonical (sb_flags b) (sb_burn b)
     \<and> anchor_block_canonical fork (sb_flags b) (sb_anchor_block b)"

lemma reader_ok_new: "reader_ok (r_new bs) \<longleftrightarrow> length bs < 2 ^ 63"
  by (simp add: reader_ok_def r_new_def)

lemma consumed_all:
  "consumed (r_new bs) s r' \<and> r_finished r' \<longleftrightarrow> length bs < 2 ^ 63 \<and> s = bs \<and> r' = \<lparr>rd_buf = bs, rd_pos = length bs\<rparr>"
  by (cases r') (auto simp: consumed_def r_new_def r_finished_def reader_ok_def)

lemma to_bytes_alt:
  "to_bytes b = [sb_flags b] @ to_be_bytes (sb_value_balance b) @ sb_anchor b @ w_var (sb_binding_sig b)
     @ to_be_bytes (of_nat (length (sb_actions b)) :: u32) @ concat (map action_to_bytes (sb_actions b))
     @ w_var (sb_proof b) @ burn_to_bytes (sb_burn b) @ case_option [] (\<lambda>h. h) (sb_anchor_block b)"
  by (simp add: to_bytes_def burn_to_bytes_def)

lemma action_count_word:
  "length as = unat (n :: u32) \<and> \<not> MAX_ACTIONS_PER_BUNDLE < unat n \<longleftrightarrow>
     length as \<le> MAX_ACTIONS_PER_BUNDLE \<and> n = of_nat (length as)"
  by (auto simp: unat_of_nat MAX_ACTIONS_PER_BUNDLE_def)

lemma exists_action_count:
  "(\<exists>n r. consumed m (to_be_bytes (n :: u32)) r \<and> \<not> MAX_ACTIONS_PER_BUNDLE < unat n \<and> (\<exists>r'. length as = unat n \<and> Q r r'))
     \<longleftrightarrow> length as \<le> MAX_ACTIONS_PER_BUNDLE
         \<and> (\<exists>r. consumed m (to_be_bytes (of_nat (length as) :: u32)) r \<and> (\<exists>r'. Q r r'))"
  using action_count_word [of as] by metis

lemma bundle_decode_steps:
  assumes "length bs < 2 ^ 63"
  shows "bundle_decode bs fork = Ok b \<longleftrightarrow>
    canonical_bundle fork b \<and> (\<exists>r'. consumed (r_new bs) (to_bytes b) r' \<and> r_finished r')"
proof -
  have ok: "reader_ok (r_new bs)" using assms by (simp add: reader_ok_new)
  have if_Ok: "(if c then Ok () else Err e) = Ok u \<longleftrightarrow> c" for c and e :: bundle_decode_error and u by auto
  have if_Err: "(if c then Err e else x) = Ok y \<longleftrightarrow> \<not> c \<and> x = Ok y"
    for c and e :: bundle_decode_error and x and y :: "'y" by auto
  obtain as fl vb an pr bsig bu ab where b: "b = \<lparr>sb_actions = as, sb_flags = fl, sb_value_balance = vb,
      sb_anchor = an, sb_proof = pr, sb_binding_sig = bsig, sb_burn = bu, sb_anchor_block = ab\<rparr>"
    by (cases b)
  have "bundle_decode bs fork = Ok b \<longleftrightarrow> (\<exists>r1. consumed (r_new bs) [fl] r1 \<and>
      (\<exists>r2. consumed r1 (to_be_bytes vb) r2 \<and> (\<exists>r3. length an = FIELD \<and> consumed r2 an r3 \<and>
      (\<exists>r4. length bsig < 2 ^ 32 \<and> consumed r3 (w_var bsig) r4 \<and> length bsig = SIG \<and>
      (\<exists>n r5. consumed r4 (to_be_bytes (n :: u32)) r5 \<and> \<not> MAX_ACTIONS_PER_BUNDLE < unat n \<and>
      (\<exists>r6. length as = unat n \<and> list_all action_widths as \<and> consumed r5 (concat (map action_to_bytes as)) r6 \<and>
      (\<exists>r7. length pr < 2 ^ 32 \<and> consumed r6 (w_var pr) r7 \<and>
      (\<exists>r8. burn_canonical fl bu \<and> consumed r7 (burn_to_bytes bu) r8 \<and>
      (\<exists>r9. anchor_block_canonical fork fl ab \<and> consumed r8 (case_option [] (\<lambda>h. h) ab) r9 \<and> r_finished r9)))))))))"
    using ok unfolding bundle_decode_def b
    by (simp add: bind_outcome_Ok_iff r_u8_iff r_u64_iff r_take_iff r_var_iff r_u32_iff r_actions_iff r_burn_iff
      r_anchor_block_iff if_Ok if_Err consumed_ok cong: conj_cong)
      (rule iffI; clarify; intro exI conjI; (assumption | rule refl))
  also have "\<dots> \<longleftrightarrow> canonical_bundle fork b \<and> (\<exists>r'. consumed (r_new bs) (to_bytes b) r' \<and> r_finished r')"
    unfolding to_bytes_alt consumed_append canonical_bundle_def bundle_widths_def b exists_action_count
    by simp (rule iffI; clarify; intro exI conjI; (assumption | simp add: SIG_def))
  finally show ?thesis .
qed

lemma bundle_decode_iff:
  "length bs < 2 ^ 63 \<Longrightarrow> bundle_decode bs fork = Ok b \<longleftrightarrow> canonical_bundle fork b \<and> to_bytes b = bs"
  by (auto simp: bundle_decode_steps consumed_all)

lemma r_take_no_panic [simp]: "r_take n r \<noteq> Panic"
  by (simp add: r_take_def)

lemma r_take_length: "r_take n r = Ok (s, r') \<Longrightarrow> length s = n"
  by (auto simp: r_take_def split: if_splits)

lemma r_u8_no_panic [simp]: "r_u8 r \<noteq> Panic"
  by (auto simp: r_u8_def bind_outcome_Panic_iff nth_p_def dest: r_take_length)

lemma r_scalar_no_panic [simp]: "r_u32 r \<noteq> Panic" "r_u64 r \<noteq> Panic" "r_var r \<noteq> Panic"
  by (auto simp: r_u32_def r_u64_def r_var_def bind_outcome_Panic_iff)

lemma r_action_no_panic [simp]: "r_action r \<noteq> Panic"
  by (auto simp: r_action_def bind_outcome_Panic_iff)

lemma r_actions_no_panic [simp]: "r_actions n r \<noteq> Panic"
  by (induction n arbitrary: r) (auto simp: bind_outcome_Panic_iff)

lemma r_trailer_no_panic [simp]: "r_burn flags r \<noteq> Panic" "r_anchor_block fork flags r \<noteq> Panic"
  by (auto simp: r_burn_def r_anchor_block_def bind_outcome_Panic_iff map_err_Panic_iff)

lemma bundle_decode_no_panic: "bundle_decode bs fork \<noteq> Panic"
  by (auto simp: bundle_decode_def bind_outcome_Panic_iff split: if_splits)

lemma r_actions_length: "r_actions n r = Ok (as, r') \<Longrightarrow> length as = n"
  by (induction n arbitrary: r as) (auto simp: bind_outcome_Ok_iff)

lemma action_count_of_decoded:
  assumes "bundle_decode bs fork = Ok b"
  shows "action_count_from_bytes bs = Ok (Some (length (sb_actions b)))"
proof -
  have if_Err: "(if c then Err e else x) = Ok y \<longleftrightarrow> \<not> c \<and> x = Ok y"
    for c and e :: bundle_decode_error and x and y :: "'y" by auto
  from assms obtain fl r1 vb r2 an r3 bsig r4 n r5 as r6 where
      steps: "r_u8 (r_new bs) = Ok (fl, r1)" "r_u64 r1 = Ok (vb, r2)" "r_take FIELD r2 = Ok (an, r3)"
        "r_var r3 = Ok (bsig, r4)" "r_u32 r4 = Ok (n, r5)" "\<not> MAX_ACTIONS_PER_BUNDLE < unat n"
      and as: "r_actions (unat n) r5 = Ok (as, r6)" "sb_actions b = as"
    by (auto simp: bundle_decode_def bind_outcome_Ok_iff if_Err)
  show ?thesis
    using steps as r_actions_length [OF as(1)] by (simp add: action_count_from_bytes_def)
qed

lemma length_action: "action_widths a \<Longrightarrow> length (action_to_bytes a) = ACTION_SERIALIZED_LEN"
  by (simp add: action_widths_def action_to_bytes_def ACTION_SERIALIZED_LEN_def size_defs)

lemma length_actions:
  "list_all action_widths as \<Longrightarrow>
     length (concat (map action_to_bytes as)) = length as * ACTION_SERIALIZED_LEN"
  by (induction as) (auto simp: length_action)

definition trailer_len :: "shielded_bundle \<Rightarrow> nat" where
  "trailer_len b = (if sb_burn b = None then 0 else BURN_DECL_LEN) + (if sb_anchor_block b = None then 0 else 32)"

lemma length_to_bytes:
  assumes "canonical_bundle fork b"
  shows "length (to_bytes b) =
    117 + length (sb_actions b) * ACTION_SERIALIZED_LEN + length (sb_proof b) + trailer_len b"
  using assms
  by (auto simp: to_bytes_def canonical_bundle_def bundle_widths_def length_actions w_var_def trailer_len_def
    burn_canonical_def anchor_block_canonical_def BURN_DECL_LEN_def FIELD_def SIG_def split: option.splits)

section \<open>Operations on a proven bundle\<close>

lemma flag_bits [simp]:
  "BUNDLE_FLAG_BURN \<noteq> 0" "BUNDLE_FLAG_ANCHOR_BLOCK \<noteq> 0"
  "and (or f BUNDLE_FLAG_BURN) BUNDLE_FLAG_BURN \<noteq> 0"
  "and (or f BUNDLE_FLAG_ANCHOR_BLOCK) BUNDLE_FLAG_ANCHOR_BLOCK \<noteq> 0"
  "and (or f BUNDLE_FLAG_BURN) BUNDLE_FLAG_ANCHOR_BLOCK = and f BUNDLE_FLAG_ANCHOR_BLOCK"
  "and (or f BUNDLE_FLAG_ANCHOR_BLOCK) BUNDLE_FLAG_BURN = and f BUNDLE_FLAG_BURN"
  by (simp_all add: BUNDLE_FLAG_BURN_def BUNDLE_FLAG_ANCHOR_BLOCK_def bit.conj_disj_distrib2)

lemma canonical_set_anchor_block:
  "canonical_bundle fork b \<Longrightarrow> length block = 32 \<Longrightarrow> canonical_bundle True (set_anchor_block b block)"
  by (auto simp: canonical_bundle_def set_anchor_block_def bundle_widths_def burn_canonical_def
    anchor_block_canonical_def split: option.splits)

lemma canonical_declare_burn:
  "canonical_bundle fork b \<Longrightarrow> length recipient = FIELD \<Longrightarrow> declare_burn b v recipient = Ok b'
     \<Longrightarrow> canonical_bundle fork b'"
  by (auto simp: canonical_bundle_def declare_burn_def bundle_widths_def burn_canonical_def
    anchor_block_canonical_def split: option.splits if_splits)

section \<open>Properties\<close>

definition sample_action :: "u8 \<Rightarrow> action_wire" where
  "sample_action i =
     \<lparr>aw_nullifier = replicate 32 (i + 1), aw_rk = replicate 32 i, aw_cmx = i # replicate 31 0,
      aw_cv_net = replicate 32 i, aw_ephemeral_key = replicate 32 i, aw_enc_ciphertext = replicate 580 i,
      aw_out_ciphertext = replicate 80 i, aw_spend_auth_sig = replicate 64 i\<rparr>"

definition sample_bundle :: shielded_bundle where
  "sample_bundle = \<lparr>sb_actions = [sample_action 0, sample_action 1], sb_flags = 3, sb_value_balance = 10,
     sb_anchor = replicate 32 9, sb_proof = replicate 7264 0xab, sb_binding_sig = replicate 64 0xcd,
     sb_burn = None, sb_anchor_block = None\<rparr>"

lemma sample_bundle_canonical: "canonical_bundle fork sample_bundle"
  by (simp add: canonical_bundle_def sample_bundle_def bundle_widths_def sample_action_def action_widths_def
    size_defs MAX_ACTIONS_PER_BUNDLE_def burn_canonical_def anchor_block_canonical_def
    BUNDLE_FLAG_BURN_def BUNDLE_FLAG_ANCHOR_BLOCK_def)

lemma sample_bundle_length: "length (to_bytes sample_bundle) < 2 ^ 63"
  by (simp add: length_to_bytes [OF sample_bundle_canonical] trailer_len_def)
    (simp add: sample_bundle_def ACTION_SERIALIZED_LEN_def size_defs)

text \<open>
  C10. The bundle codec is exact. For every input a Rust slice can hold, decoding succeeds with a bundle
  iff that bundle is canonical in the selected format and the input is exactly its encoding. So decoding
  inverts encoding, no two byte strings decode to the same bundle, and no two canonical bundles share
  an encoding.
\<close>

theorem bundle_codec_exact:
  assumes "length bs < 2 ^ 63"
  shows "from_bytes_at bs fork = Ok b \<longleftrightarrow> canonical_bundle fork b \<and> to_bytes b = bs"
  unfolding from_bytes_at_def by (rule bundle_decode_iff [OF assms])

theorem bundle_codec_exact_witness:
  "length (to_bytes sample_bundle) < 2 ^ 63 \<and> from_bytes_at (to_bytes sample_bundle) False = Ok sample_bundle"
  using bundle_codec_exact [OF sample_bundle_length, of False sample_bundle] sample_bundle_length
    sample_bundle_canonical by simp

text \<open>
  C13. The action count read by the mass calculator can never disagree with the full decoder: when the
  bytes decode (in either format), the count is the number of decoded actions; when the count is
  refused, decoding returns an error; and neither call panics on any input.
\<close>

theorem action_count_agrees:
  "(\<forall>b. from_bytes_at bs fork = Ok b \<longrightarrow> action_count_from_bytes bs = Ok (Some (length (sb_actions b))))
   \<and> (action_count_from_bytes bs = Ok None \<longrightarrow> (\<exists>e. from_bytes_at bs fork = Err e))
   \<and> action_count_from_bytes bs \<noteq> Panic \<and> from_bytes_at bs fork \<noteq> Panic"
proof (intro conjI)
  show counted: "\<forall>b. from_bytes_at bs fork = Ok b \<longrightarrow>
      action_count_from_bytes bs = Ok (Some (length (sb_actions b)))"
    by (simp add: from_bytes_at_def action_count_of_decoded)
  show decode: "from_bytes_at bs fork \<noteq> Panic"
    by (simp add: from_bytes_at_def bundle_decode_no_panic)
  show "action_count_from_bytes bs = Ok None \<longrightarrow> (\<exists>e. from_bytes_at bs fork = Err e)"
    using counted decode by (cases "from_bytes_at bs fork") auto
  show "action_count_from_bytes bs \<noteq> Panic"
    by (auto simp: action_count_from_bytes_def bind_outcome_Panic_iff split: outcome.splits)
qed

theorem action_count_agrees_witness:
  "from_bytes_at (to_bytes sample_bundle) True = Ok sample_bundle
   \<and> action_count_from_bytes (to_bytes sample_bundle) = Ok (Some 2)
   \<and> action_count_from_bytes [] = Ok None \<and> (\<exists>e. from_bytes_at [] True = Err e)"
proof -
  have decoded: "from_bytes_at (to_bytes sample_bundle) True = Ok sample_bundle"
    by (simp add: from_bytes_at_def bundle_decode_iff sample_bundle_length [simplified] sample_bundle_canonical)
  have "action_count_from_bytes [] = Ok None"
    by (simp add: action_count_from_bytes_def r_u8_def r_take_def r_new_def)
  then show ?thesis
    using decoded action_count_agrees [of "to_bytes sample_bundle" True] action_count_agrees [of "[]" True]
    by (simp add: sample_bundle_def)
qed

text \<open>
  A wallet's size estimate is exact: the encoding of a canonical bundle with a standard-size proof
  has \<open>expected_wire_len\<close> bytes, \<open>expected_wire_len_with_burn\<close> with a burn declaration, and 32 bytes
  more when it names its anchor block.
\<close>

theorem wire_len_exact:
  assumes "canonical_bundle fork b" and "length (sb_proof b) = expected_proof_len (length (sb_actions b))"
  shows "length (to_bytes b) =
    (if sb_burn b = None then expected_wire_len (length (sb_actions b))
     else expected_wire_len_with_burn (length (sb_actions b)))
    + (if sb_anchor_block b = None then 0 else 32)"
  using assms
  by (simp add: length_to_bytes trailer_len_def expected_wire_len_def expected_wire_len_with_burn_def)

theorem wire_len_exact_witness:
  "canonical_bundle True sample_bundle
   \<and> length (sb_proof sample_bundle) = expected_proof_len (length (sb_actions sample_bundle))
   \<and> length (to_bytes sample_bundle) = 9149"
  using wire_len_exact [OF sample_bundle_canonical [of True]]
  by (simp add: sample_bundle_canonical)
    (simp add: sample_bundle_def expected_proof_len_def expected_wire_len_def ACTION_SERIALIZED_LEN_def size_defs)

lemma nonneg_balance_covers:
  "\<not> (sint bal < 0 \<or> bal < v) \<longleftrightarrow> int (unat v) \<le> sint bal" for bal v :: "64 word"
proof (cases "sint bal < 0")
  case False
  then have "sint bal = int (unat bal)" using nonneg_sint_unat [of bal] by simp
  with False show ?thesis by (simp add: word_less_nat_alt not_less)
qed simp

text \<open>
  C14. Naming the anchor block and then declaring a burn fails with the right error exactly for a zero burn and for
  a burn above the signed value balance that the binding signature covers. Otherwise the result is the bundle
  with the two declarations and their flag bits, every other field (actions, value balance, anchor, proof, binding
  signature) as it was, and it is read back exactly from its encoding. The hypotheses are the canonical form of the
  bundle, the array widths and a byte length below \<open>2^63\<close>.
\<close>

theorem declared_bundle_roundtrip:
  fixes v :: u64
  assumes "canonical_bundle True b" and "length block = 32" and "length recipient = FIELD"
  defines "declared \<equiv> b\<lparr>sb_flags := or (sb_flags b) 12, sb_burn := Some (v, recipient), sb_anchor_block := Some block\<rparr>"
  assumes "length (to_bytes declared) < 2 ^ 63"
  shows "declare_burn (set_anchor_block b block) v recipient =
      (if v = 0 then Err ZeroValue
       else if sint (sb_value_balance b) < int (unat v) then Err (ExceedsValueBalance v (sb_value_balance b))
       else Ok declared)
    \<and> (v \<noteq> 0 \<and> int (unat v) \<le> sint (sb_value_balance b) \<longrightarrow> from_bytes (to_bytes declared) = Ok declared)"
proof -
  have flags: "or (or (sb_flags b) 8) 4 = or (sb_flags b) 12" by (simp add: or.assoc)
  have result: "declare_burn (set_anchor_block b block) v recipient =
      (if v = 0 then Err ZeroValue
       else if sint (sb_value_balance b) < int (unat v) then Err (ExceedsValueBalance v (sb_value_balance b))
       else Ok declared)"
    using nonneg_balance_covers [of "sb_value_balance b" v] flags
    by (auto simp: declare_burn_def set_anchor_block_def declared_def BUNDLE_FLAG_BURN_def BUNDLE_FLAG_ANCHOR_BLOCK_def)
  have "from_bytes (to_bytes declared) = Ok declared" if "declare_burn (set_anchor_block b block) v recipient = Ok declared"
    using canonical_declare_burn [OF canonical_set_anchor_block [OF assms(1,2)] assms(3) that] assms(5)
    by (simp add: from_bytes_def bundle_decode_iff)
  with result show ?thesis by simp
qed

definition sample_burn_bundle :: shielded_bundle where
  "sample_burn_bundle = sample_bundle\<lparr>sb_flags := 15, sb_burn := Some (7, replicate 32 2),
     sb_anchor_block := Some (replicate 32 1)\<rparr>"

theorem declared_bundle_roundtrip_witness:
  "declare_burn (set_anchor_block sample_bundle (replicate 32 1)) 7 (replicate 32 2) = Ok sample_burn_bundle
   \<and> from_bytes (to_bytes sample_burn_bundle) = Ok sample_burn_bundle
   \<and> declare_burn (set_anchor_block sample_bundle (replicate 32 1)) 11 (replicate 32 2) = Err (ExceedsValueBalance 11 10)"
proof -
  have len: "length (to_bytes (sample_bundle\<lparr>sb_flags := f, sb_burn := Some (v, replicate 32 2),
      sb_anchor_block := Some (replicate 32 1)\<rparr>)) < 2 ^ 63" for f v
    by (simp add: to_bytes_def sample_bundle_def sample_action_def action_to_bytes_def w_var_def)
  note exact = declared_bundle_roundtrip [OF sample_bundle_canonical _ _ len, unfolded FIELD_def, simplified]
  have "sample_burn_bundle = sample_bundle\<lparr>sb_flags := or (sb_flags sample_bundle) 12,
      sb_burn := Some (7, replicate 32 2), sb_anchor_block := Some (replicate 32 1)\<rparr>"
    by (simp add: sample_burn_bundle_def sample_bundle_def)
  then show ?thesis using exact [of 7] exact [of 11] by (simp add: sample_bundle_def)
qed

end
