(* ===== verification/Turnstile_Ledger.thy ===== *)
theory Turnstile_Ledger
  imports Prelude_Zkas
begin

text \<open>
  The public supply ledger of the shielded pool (\<^verbatim>\<open>shielded-core/src/turnstile.rs\<close>): four
  cumulative 128-bit totals, one operation per seam through which value enters or leaves the pool,
  and the hard consensus check that the pool is never negative.

  \<open>pool_int\<close> is the abstract value of the pool, an integer. The locale \<open>ledger_seam\<close> is the
  contract the four seam operations share: a successful call moves the abstract pool by exactly the
  signed amount, and the only failure is a 128-bit overflow that leaves nothing changed.
\<close>

section \<open>The model\<close>

datatype turnstile_violation =
    PoolUnderflow u128 u128
  | Overflow
  | CommitmentMismatch

record supply_ledger =
  cumulative_coinbase :: u128
  cumulative_fees :: u128
  cumulative_burns :: u128
  cumulative_pegged_in :: u128

definition ledger_from_totals_full :: "u128 \<Rightarrow> u128 \<Rightarrow> u128 \<Rightarrow> u128 \<Rightarrow> supply_ledger" where
  "ledger_from_totals_full cb fees burns pegged =
     \<lparr>cumulative_coinbase = cb, cumulative_fees = fees, cumulative_burns = burns,
      cumulative_pegged_in = pegged\<rparr>"

definition ledger_from_totals_with_burns :: "u128 \<Rightarrow> u128 \<Rightarrow> u128 \<Rightarrow> supply_ledger" where
  "ledger_from_totals_with_burns cb fees burns = ledger_from_totals_full cb fees burns 0"

definition ledger_from_totals :: "u128 \<Rightarrow> u128 \<Rightarrow> supply_ledger" where
  "ledger_from_totals cb fees = ledger_from_totals_with_burns cb fees 0"

definition ledger_new :: supply_ledger where
  "ledger_new = ledger_from_totals_full 0 0 0 0"

definition mint_coinbase :: "supply_ledger \<Rightarrow> u64 \<Rightarrow> (turnstile_violation, supply_ledger) outcome" where
  "mint_coinbase s subsidy =
     bind_outcome (ok_or Overflow (checked_add (cumulative_coinbase s) (ucast subsidy)))
       (\<lambda>v. Ok (s\<lparr>cumulative_coinbase := v\<rparr>))"

definition collect_fees :: "supply_ledger \<Rightarrow> u64 \<Rightarrow> (turnstile_violation, supply_ledger) outcome" where
  "collect_fees s fee =
     bind_outcome (ok_or Overflow (checked_add (cumulative_fees s) (ucast fee)))
       (\<lambda>v. Ok (s\<lparr>cumulative_fees := v\<rparr>))"

definition ledger_burn :: "supply_ledger \<Rightarrow> u64 \<Rightarrow> (turnstile_violation, supply_ledger) outcome" where
  "ledger_burn s amount =
     bind_outcome (ok_or Overflow (checked_add (cumulative_burns s) (ucast amount)))
       (\<lambda>v. Ok (s\<lparr>cumulative_burns := v\<rparr>))"

definition peg_in :: "supply_ledger \<Rightarrow> u64 \<Rightarrow> (turnstile_violation, supply_ledger) outcome" where
  "peg_in s amount =
     bind_outcome (ok_or Overflow (checked_add (cumulative_pegged_in s) (ucast amount)))
       (\<lambda>v. Ok (s\<lparr>cumulative_pegged_in := v\<rparr>))"

definition pool_value :: "supply_ledger \<Rightarrow> (turnstile_violation, u128) outcome" where
  "pool_value s =
     ok_or (PoolUnderflow
              (saturating_add (cumulative_coinbase s) (cumulative_pegged_in s))
              (saturating_add (cumulative_fees s) (cumulative_burns s)))
       (Option.bind (checked_add (cumulative_coinbase s) (cumulative_pegged_in s)) (\<lambda>v.
        Option.bind (checked_sub v (cumulative_fees s)) (\<lambda>v.
        checked_sub v (cumulative_burns s))))"

definition ledger_check :: "supply_ledger \<Rightarrow> (turnstile_violation, unit) outcome" where
  "ledger_check s = bind_outcome (pool_value s) (\<lambda>_. Ok ())"

section \<open>The abstract pool\<close>

definition pool_int :: "supply_ledger \<Rightarrow> int" where
  "pool_int s = int (unat (cumulative_coinbase s)) + int (unat (cumulative_pegged_in s))
     - int (unat (cumulative_fees s)) - int (unat (cumulative_burns s))"

lemma pool_int_new [simp]: "pool_int ledger_new = 0"
  by (simp add: pool_int_def ledger_new_def ledger_from_totals_full_def)

lemma checked_sub_chain:
  "Option.bind (checked_sub v f) (\<lambda>x. checked_sub x b) = Some p
     \<longleftrightarrow> unat v = unat p + unat f + unat b"
  for v f b p :: "'w::len word"
proof
  assume "Option.bind (checked_sub v f) (\<lambda>x. checked_sub x b) = Some p"
  then show "unat v = unat p + unat f + unat b"
    by (auto simp: bind_eq_Some_conv unat_arith_simps)
next
  assume v: "unat v = unat p + unat f + unat b"
  have "checked_sub v f = Some (v - f)"
    using v by (simp add: checked_sub_def word_le_nat_alt)
  moreover from this have "unat v = unat (v - f) + unat f" by (simp only: unat_arith_simps)
  then have "checked_sub (v - f) b = Some p" using v by (simp only: unat_arith_simps)
  ultimately show "Option.bind (checked_sub v f) (\<lambda>x. checked_sub x b) = Some p"
    by simp
qed

lemma pool_value_Ok_iff:
  "pool_value s = Ok v \<longleftrightarrow>
     int (unat v) = pool_int s \<and>
     unat (cumulative_coinbase s) + unat (cumulative_pegged_in s) < 2 ^ 128"
proof
  assume "pool_value s = Ok v"
  then obtain t where t: "checked_add (cumulative_coinbase s) (cumulative_pegged_in s) = Some t"
    and "Option.bind (checked_sub t (cumulative_fees s)) (\<lambda>x. checked_sub x (cumulative_burns s)) = Some v"
    by (auto simp: pool_value_def ok_or_Ok_iff bind_eq_Some_conv)
  then have "unat t = unat v + unat (cumulative_fees s) + unat (cumulative_burns s)"
    and "unat t = unat (cumulative_coinbase s) + unat (cumulative_pegged_in s)"
    by (simp_all add: checked_sub_chain unat_arith_simps)
  moreover have "unat t < 2 ^ 128" using unsigned_less [of t] by simp
  ultimately show "int (unat v) = pool_int s \<and>
     unat (cumulative_coinbase s) + unat (cumulative_pegged_in s) < 2 ^ 128"
    by (simp add: pool_int_def)
next
  assume v: "int (unat v) = pool_int s \<and>
     unat (cumulative_coinbase s) + unat (cumulative_pegged_in s) < 2 ^ 128"
  let ?t = "cumulative_coinbase s + cumulative_pegged_in s"
  have t: "checked_add (cumulative_coinbase s) (cumulative_pegged_in s) = Some ?t"
    using v by (simp add: checked_add_def)
  then have "unat ?t = unat (cumulative_coinbase s) + unat (cumulative_pegged_in s)"
    by (simp only: unat_arith_simps)
  then have "unat ?t = unat v + unat (cumulative_fees s) + unat (cumulative_burns s)"
    using v unfolding pool_int_def by linarith
  then have "Option.bind (checked_sub ?t (cumulative_fees s))
      (\<lambda>x. checked_sub x (cumulative_burns s)) = Some v"
    by (simp only: checked_sub_chain)
  with t show "pool_value s = Ok v"
    by (simp add: pool_value_def)
qed

lemma ledger_check_Ok_iff:
  "ledger_check s = Ok () \<longleftrightarrow>
     0 \<le> pool_int s \<and> unat (cumulative_coinbase s) + unat (cumulative_pegged_in s) < 2 ^ 128"
proof
  assume "ledger_check s = Ok ()"
  then obtain v where "pool_value s = Ok v"
    by (auto simp: ledger_check_def bind_outcome_Ok_iff)
  then show "0 \<le> pool_int s \<and> unat (cumulative_coinbase s) + unat (cumulative_pegged_in s) < 2 ^ 128"
    using pool_value_Ok_iff [of s v] by linarith
next
  assume a: "0 \<le> pool_int s \<and> unat (cumulative_coinbase s) + unat (cumulative_pegged_in s) < 2 ^ 128"
  then have "nat (pool_int s) < 2 ^ 128"
    unfolding pool_int_def by linarith
  then have "int (unat (of_nat (nat (pool_int s)) :: u128)) = pool_int s"
    using a by (subst unat_of_nat) simp
  with a have "pool_value s = Ok (of_nat (nat (pool_int s)))"
    by (simp only: pool_value_Ok_iff)
  then show "ledger_check s = Ok ()"
    by (simp add: ledger_check_def)
qed

section \<open>The contract of a seam\<close>

locale ledger_seam =
  fixes seam :: "supply_ledger \<Rightarrow> u64 \<Rightarrow> (turnstile_violation, supply_ledger) outcome"
    and total :: "supply_ledger \<Rightarrow> u128"
    and dir :: int
  assumes seam_ok: "seam s v = Ok s' \<Longrightarrow> unat (total s') = unat (total s) + unat v
      \<and> pool_int s' = pool_int s + dir * int (unat v)"
    and seam_total: "unat (total s) + unat v < 2 ^ 128 \<Longrightarrow> \<exists>s'. seam s v = Ok s'"
    and seam_err: "2 ^ 128 \<le> unat (total s) + unat v \<Longrightarrow> seam s v = Err Overflow"
begin

lemma seam_Ok_iff: "(\<exists>s'. seam s v = Ok s') \<longleftrightarrow> unat (total s) + unat v < 2 ^ 128"
  using seam_total [of s v] seam_err [of s v] by (metis linorder_not_le outcome.distinct(1))

lemma seam_not_Panic: "seam s v \<noteq> Panic"
  using seam_total [of s v] seam_err [of s v] by (metis linorder_not_le outcome.distinct(3,5))

text \<open>A sequence of calls of one seam moves the pool by the sum of the amounts.\<close>

lemma seam_sum:
  "fold_outcome (\<lambda>v s. seam s v) vs s = Ok s'
     \<Longrightarrow> pool_int s' = pool_int s + dir * int (\<Sum>v\<leftarrow>vs. unat v)"
proof (induction vs arbitrary: s)
  case Nil
  then show ?case by simp
next
  case (Cons v vs)
  then obtain t where t: "seam s v = Ok t" "fold_outcome (\<lambda>v s. seam s v) vs t = Ok s'"
    by (auto simp: bind_outcome_Ok_iff)
  from seam_ok [OF t(1)] Cons.IH [OF t(2)] show ?case
    by (simp add: algebra_simps)
qed

end

lemma seam_update:
  fixes upd :: "u128 \<Rightarrow> supply_ledger"
  assumes "bind_outcome (ok_or Overflow (checked_add c (ucast (v :: u64)))) (\<lambda>x. Ok (upd x)) = Ok s'"
  shows "\<exists>x. s' = upd x \<and> unat x = unat c + unat v"
  using assms by (auto simp: bind_outcome_Ok_iff ok_or_Ok_iff unat_arith_simps unat_up_ucast)

lemma seam_update_total:
  fixes upd :: "u128 \<Rightarrow> supply_ledger"
  assumes "unat c + unat (v :: u64) < 2 ^ 128"
  shows "\<exists>s'. bind_outcome (ok_or Overflow (checked_add c (ucast v))) (\<lambda>x. Ok (upd x)) = Ok s'"
  using assms by (simp add: checked_add_def unat_up_ucast)

lemma seam_update_err:
  fixes upd :: "u128 \<Rightarrow> supply_ledger"
  assumes "2 ^ 128 \<le> unat c + unat (v :: u64)"
  shows "bind_outcome (ok_or Overflow (checked_add c (ucast v))) (\<lambda>x. Ok (upd x)) = Err Overflow"
  using assms by (simp add: checked_add_def unat_up_ucast)

lemmas seam_defs = mint_coinbase_def collect_fees_def ledger_burn_def peg_in_def

interpretation mint_seam: ledger_seam mint_coinbase cumulative_coinbase 1
  by unfold_locales
    (auto simp: seam_defs pool_int_def seam_update_total seam_update_err dest!: seam_update)

interpretation fee_seam: ledger_seam collect_fees cumulative_fees "- 1"
  by unfold_locales
    (auto simp: seam_defs pool_int_def seam_update_total seam_update_err dest!: seam_update)

interpretation burn_seam: ledger_seam ledger_burn cumulative_burns "- 1"
  by unfold_locales
    (auto simp: seam_defs pool_int_def seam_update_total seam_update_err dest!: seam_update)

interpretation pegin_seam: ledger_seam peg_in cumulative_pegged_in 1
  by unfold_locales
    (auto simp: seam_defs pool_int_def seam_update_total seam_update_err dest!: seam_update)

end
