(* ===== verification/Shielded_State.thy ===== *)
theory Shielded_State
  imports Nullifier_Set Turnstile_Ledger Burn_Accumulator Note_Tree Bundle_Codec
begin

text \<open>
  The shielded state transition (\<^verbatim>\<open>shielded-core/src/state.rs\<close>): extraction of a transaction's effects
  from its bundle, the application of one accepted chain block, and the in-memory state that chains
  blocks together.

  The Orchard types are parameters: \<open>ops\<close> is the frontier and hash interface of \<open>Note_Tree\<close>,
  \<open>cmx_from_bytes\<close> the third-party commitment decoder, \<open>sha256\<close> the hash of the burn accumulator. The
  mutable borrows of the source (\<open>tree\<close>, \<open>supply\<close>, \<open>burns\<close>) are returned beside the result, so that what
  an error leaves behind is visible.
\<close>

section \<open>The model\<close>

record 'c shielded_tx =
  st_nullifiers :: "nullifier_bytes list"
  st_commitments :: "'c list"
  st_fee :: u64
  st_anchor :: bytes
  st_burn :: "exit_receipt option"
  st_anchor_block :: "bytes option"

datatype bundle_extract_error =
    NonCanonicalCommitment
  | BurnWithoutSpend
  | MintingValueBalance
  | BridgeDisabled
  | ExtractBurnExceedsValueBalance

primrec decode_commitments ::
  "(bytes \<Rightarrow> 'c option) \<Rightarrow> action_wire list \<Rightarrow> (bundle_extract_error, 'c list) outcome"
where
  "decode_commitments cmx_from_bytes [] = Ok []"
| "decode_commitments cmx_from_bytes (a # as) =
     bind_outcome (ok_or NonCanonicalCommitment (cmx_from_bytes (aw_cmx a))) (\<lambda>cmx.
     bind_outcome (decode_commitments cmx_from_bytes as) (\<lambda>rest. Ok (cmx # rest)))"

definition extract_burn :: "shielded_bundle \<Rightarrow> (bundle_extract_error, exit_receipt option) outcome" where
  "extract_burn bundle =
     (case sb_burn bundle of
        None \<Rightarrow> Ok None
      | Some (v, recipient) \<Rightarrow>
          if \<not> BRIDGE_ENABLED then Err BridgeDisabled
          else if sint (sb_value_balance bundle) < int (unat v) then Err ExtractBurnExceedsValueBalance
          else (case bundle_nullifiers bundle of
                  [] \<Rightarrow> Err BurnWithoutSpend
                | n # _ \<Rightarrow> Ok (Some \<lparr>er_v = v, er_recipient = recipient, er_n = n\<rparr>)))"

definition from_bundle ::
  "(bytes \<Rightarrow> 'c option) \<Rightarrow> shielded_bundle \<Rightarrow> (bundle_extract_error, 'c shielded_tx) outcome"
where
  "from_bundle cmx_from_bytes bundle =
     bind_outcome (decode_commitments cmx_from_bytes (sb_actions bundle)) (\<lambda>commitments.
     if sint (sb_value_balance bundle) < 0 then Err MintingValueBalance
     else bind_outcome (extract_burn bundle) (\<lambda>burn.
       Ok \<lparr>st_nullifiers = map aw_nullifier (sb_actions bundle), st_commitments = commitments,
           st_fee = sb_value_balance bundle, st_anchor = sb_anchor bundle, st_burn = burn,
           st_anchor_block = sb_anchor_block bundle\<rparr>))"

record 'c coinbase_note =
  cn_value :: u64
  cn_commitment :: 'c

record 'c coinbase_mint =
  cm_notes :: "'c coinbase_note list"

definition coinbase_mint_new :: "'c coinbase_note list \<Rightarrow> 'c coinbase_mint" where
  "coinbase_mint_new notes = \<lparr>cm_notes = notes\<rparr>"

definition total_value :: "'c coinbase_mint \<Rightarrow> ('e, u128) outcome" where
  "total_value cb = fold_outcome (\<lambda>n total. add_p total (ucast (cn_value n))) (cm_notes cb) 0"

datatype shielded_state_error =
    Turnstile turnstile_violation
  | StateTreeFull
  | BurnExceedsValueBalance u64 u64

record ('c, 'a) block_shielded_outcome =
  bo_accepted :: "nat list"
  bo_new_nullifiers :: "nullifier_bytes list"
  bo_subtree :: "'c chain_block_subtree"
  bo_anchor :: 'a
  bo_burn_receipts :: "exit_receipt list"

record 'fr shielded_state =
  ss_nullifiers :: mem_nullifier_set
  ss_tree :: "'fr global_tree"
  ss_supply :: supply_ledger
  ss_burns :: burn_accumulator

definition shielded_state_new :: "('fr, 'h, 'c, 'a) orchard_ops \<Rightarrow> 'fr shielded_state" where
  "shielded_state_new ops =
     \<lparr>ss_nullifiers = mem_new, ss_tree = tree_new ops, ss_supply = ledger_new, ss_burns = acc_new\<rparr>"

text \<open>The local variables of \<open>apply_chain_block_to\<close> while it walks the transactions.\<close>

record 'c block_work =
  bw_resolver :: nullifier_conflict_resolver
  bw_subtree :: "'c chain_block_subtree"
  bw_accepted :: "nat list"
  bw_total_fees :: u128
  bw_total_burns :: u128
  bw_receipts :: "exit_receipt list"

definition mint_notes ::
  "'c coinbase_mint option \<Rightarrow> (shielded_state_error, u128 \<times> 'c chain_block_subtree) outcome"
where
  "mint_notes coinbase =
     (case coinbase of
        None \<Rightarrow> Ok (0, subtree_new)
      | Some cb \<Rightarrow>
          fold_outcome (\<lambda>note (total_mint, subtree).
              bind_outcome (add_p total_mint (ucast (cn_value note))) (\<lambda>total_mint.
              Ok (total_mint, subtree_push subtree (cn_commitment note))))
            (cm_notes cb) (0, subtree_new))"

definition burn_amount :: "'c shielded_tx \<Rightarrow> u64" where
  "burn_amount tx = (case st_burn tx of None \<Rightarrow> 0 | Some r \<Rightarrow> er_v r)"

definition check_burn :: "'c shielded_tx \<Rightarrow> (shielded_state_error, unit) outcome" where
  "check_burn tx =
     (case st_burn tx of
        None \<Rightarrow> Ok ()
      | Some receipt \<Rightarrow>
          if st_fee tx < er_v receipt then Err (BurnExceedsValueBalance (er_v receipt) (st_fee tx)) else Ok ())"

definition apply_tx ::
  "nat \<times> 'c shielded_tx \<Rightarrow> 'c block_work \<Rightarrow> (shielded_state_error, 'c block_work) outcome"
where
  "apply_tx = (\<lambda>(i, tx) w.
     bind_outcome (check_burn tx) (\<lambda>_.
     case try_accept (bw_resolver w) (st_nullifiers tx) of
       (Ok _, resolver) \<Rightarrow>
         bind_outcome (add_p (bw_total_burns w) (ucast (burn_amount tx))) (\<lambda>total_burns.
         bind_outcome (sub_p (st_fee tx) (burn_amount tx)) (\<lambda>fee.
         bind_outcome (add_p (bw_total_fees w) (ucast fee)) (\<lambda>total_fees.
         Ok \<lparr>bw_resolver = resolver,
             bw_subtree = foldl subtree_push (bw_subtree w) (st_commitments tx),
             bw_accepted = bw_accepted w @ [i], bw_total_fees = total_fees, bw_total_burns = total_burns,
             bw_receipts = bw_receipts w @ (case st_burn tx of None \<Rightarrow> [] | Some r \<Rightarrow> [r])\<rparr>)))
     | (Err _, resolver) \<Rightarrow> Ok (w\<lparr>bw_resolver := resolver\<rparr>)
     | (Panic, _) \<Rightarrow> Panic))"

definition try_u64 :: "u128 \<Rightarrow> (turnstile_violation, u64) outcome" where
  "try_u64 v = (if unat v < 2 ^ 64 then Ok (ucast v) else Err Overflow)"

definition seam_if_positive ::
  "(supply_ledger \<Rightarrow> u64 \<Rightarrow> (turnstile_violation, supply_ledger) outcome)
     \<Rightarrow> u128 \<Rightarrow> supply_ledger \<Rightarrow> (turnstile_violation, supply_ledger) outcome"
where
  "seam_if_positive seam amount supply =
     (if 0 < amount then bind_outcome (try_u64 amount) (seam supply) else Ok supply)"

definition advance_supply ::
  "supply_ledger \<Rightarrow> u128 \<Rightarrow> u128 \<Rightarrow> u128 \<Rightarrow> (turnstile_violation, supply_ledger) outcome"
where
  "advance_supply supply total_mint total_fees total_burns =
     bind_outcome (seam_if_positive mint_coinbase total_mint supply) (\<lambda>supply.
     bind_outcome (seam_if_positive collect_fees total_fees supply) (\<lambda>supply.
     seam_if_positive ledger_burn total_burns supply))"

definition block_effects ::
  "(nullifier_bytes \<Rightarrow> bool) \<Rightarrow> 'c coinbase_mint option \<Rightarrow> 'c shielded_tx list
     \<Rightarrow> (shielded_state_error, u128 \<times> 'c block_work) outcome"
where
  "block_effects fin coinbase txs =
     bind_outcome (mint_notes coinbase) (\<lambda>(total_mint, subtree).
     bind_outcome (fold_outcome apply_tx (enumerate 0 txs)
         \<lparr>bw_resolver = resolver_new fin, bw_subtree = subtree, bw_accepted = [], bw_total_fees = 0,
          bw_total_burns = 0, bw_receipts = []\<rparr>) (\<lambda>w. Ok (total_mint, w)))"

definition apply_chain_block_to ::
  "('fr, 'h, 'c, 'a) orchard_ops \<Rightarrow> (bytes \<Rightarrow> bytes) \<Rightarrow> (nullifier_bytes \<Rightarrow> bool)
     \<Rightarrow> 'fr global_tree \<Rightarrow> supply_ledger \<Rightarrow> 'c coinbase_mint option \<Rightarrow> 'c shielded_tx list \<Rightarrow> burn_accumulator
     \<Rightarrow> (shielded_state_error, ('c, 'a) block_shielded_outcome) outcome
         \<times> 'fr global_tree \<times> supply_ledger \<times> burn_accumulator"
where
  "apply_chain_block_to ops sha256 fin tree supply coinbase txs burns =
     (case
        bind_outcome (block_effects fin coinbase txs) (\<lambda>(total_mint, w).
        bind_outcome (map_err Turnstile
            (advance_supply supply total_mint (bw_total_fees w) (bw_total_burns w))) (\<lambda>new_supply.
        bind_outcome (map_err (\<lambda>_. StateTreeFull) (append_subtree ops tree (bw_subtree w))) (\<lambda>new_tree.
        bind_outcome (map_err Turnstile (ledger_check new_supply)) (\<lambda>_.
        Ok (w, new_tree, new_supply)))))
      of
        Ok (w, new_tree, new_supply) \<Rightarrow>
          (Ok \<lparr>bo_accepted = bw_accepted w, bo_new_nullifiers = into_accepted (bw_resolver w),
               bo_subtree = bw_subtree w, bo_anchor = tree_anchor ops new_tree,
               bo_burn_receipts = bw_receipts w\<rparr>,
           new_tree, new_supply, foldl (\<lambda>acc r. snd (acc_push sha256 acc r)) burns (bw_receipts w))
      | Err e \<Rightarrow> (Err e, tree, supply, burns)
      | Panic \<Rightarrow> (Panic, tree, supply, burns))"

definition apply_chain_block ::
  "('fr, 'h, 'c, 'a) orchard_ops \<Rightarrow> (bytes \<Rightarrow> bytes) \<Rightarrow> 'fr shielded_state
     \<Rightarrow> 'c coinbase_mint option \<Rightarrow> 'c shielded_tx list
     \<Rightarrow> (shielded_state_error, ('c, 'a) block_shielded_outcome) outcome \<times> 'fr shielded_state"
where
  "apply_chain_block ops sha256 s coinbase txs =
     (let (res, tree, supply, burns) =
            apply_chain_block_to ops sha256 (mem_contains (ss_nullifiers s)) (ss_tree s) (ss_supply s)
              coinbase txs (ss_burns s);
          s = s\<lparr>ss_tree := tree, ss_supply := supply, ss_burns := burns\<rparr>
      in case res of
           Ok out \<Rightarrow> (res, s\<lparr>ss_nullifiers := mem_extend (ss_nullifiers s) (bo_new_nullifiers out)\<rparr>)
         | _ \<Rightarrow> (res, s))"

section \<open>Walking the transactions\<close>

definition burn_within_fee :: "'c shielded_tx \<Rightarrow> bool" where
  "burn_within_fee tx \<longleftrightarrow> unat (burn_amount tx) \<le> unat (st_fee tx)"

lemma check_burn_eq:
  "check_burn tx = (if burn_within_fee tx then Ok () else Err (BurnExceedsValueBalance (burn_amount tx) (st_fee tx)))"
  by (auto simp: check_burn_def burn_within_fee_def burn_amount_def word_less_nat_alt split: option.splits)

lemma foldl_subtree_push: "foldl subtree_push st cs = \<lparr>sub_commitments = sub_commitments st @ cs\<rparr>"
  by (induction cs arbitrary: st) (auto simp: subtree_push_def)

text \<open>What accepting one transaction does to the working state, and the whole walk as a fold of it.\<close>

definition burn_list :: "'c shielded_tx \<Rightarrow> exit_receipt list" where
  "burn_list tx = (case st_burn tx of None \<Rightarrow> [] | Some r \<Rightarrow> [r])"

definition accept_tx :: "nat \<times> 'c shielded_tx \<Rightarrow> 'c block_work \<Rightarrow> 'c block_work" where
  "accept_tx = (\<lambda>(i, tx) w.
     if acceptable (bw_resolver w) (st_nullifiers tx)
     then \<lparr>bw_resolver = snd (try_accept (bw_resolver w) (st_nullifiers tx)),
           bw_subtree = \<lparr>sub_commitments = sub_commitments (bw_subtree w) @ st_commitments tx\<rparr>,
           bw_accepted = bw_accepted w @ [i],
           bw_total_fees = bw_total_fees w + ucast (st_fee tx - burn_amount tx),
           bw_total_burns = bw_total_burns w + ucast (burn_amount tx),
           bw_receipts = bw_receipts w @ burn_list tx\<rparr>
     else w)"

lemma apply_tx_eq:
  assumes ok: "burn_within_fee tx"
    and room: "unat (bw_total_fees w) + unat (st_fee tx) < 2 ^ 128"
      "unat (bw_total_burns w) + unat (st_fee tx) < 2 ^ 128"
  shows "apply_tx (i, tx) w = Ok (accept_tx (i, tx) w)"
proof (cases "acceptable (bw_resolver w) (st_nullifiers tx)")
  case True
  then have accepted: "fst (try_accept (bw_resolver w) (st_nullifiers tx)) = Ok ()"
    by (simp add: try_accept_Ok_iff)
  have sub: "checked_sub (st_fee tx) (burn_amount tx) = Some (st_fee tx - burn_amount tx)"
    using ok by (simp add: checked_sub_def burn_within_fee_def word_le_nat_alt)
  then have "unat (st_fee tx) = unat (st_fee tx - burn_amount tx) + unat (burn_amount tx)"
    by (simp only: checked_sub_Some_iff)
  then have "checked_add (bw_total_fees w) (ucast (st_fee tx - burn_amount tx)) =
      Some (bw_total_fees w + ucast (st_fee tx - burn_amount tx))"
    and "checked_add (bw_total_burns w) (ucast (burn_amount tx)) =
      Some (bw_total_burns w + ucast (burn_amount tx))"
    using room by (simp_all add: checked_add_def unat_up_ucast)
  then show ?thesis
    using True accepted ok sub
    by (cases "try_accept (bw_resolver w) (st_nullifiers tx)")
      (simp add: apply_tx_def accept_tx_def check_burn_eq foldl_subtree_push burn_list_def)
next
  case False
  then have "snd (try_accept (bw_resolver w) (st_nullifiers tx)) = bw_resolver w"
    and "\<exists>c. fst (try_accept (bw_resolver w) (st_nullifiers tx)) = Err c"
    using try_accept_cases [of "bw_resolver w" "st_nullifiers tx"] by auto
  then show ?thesis
    using False ok
    by (cases "try_accept (bw_resolver w) (st_nullifiers tx)")
      (auto simp: apply_tx_def accept_tx_def check_burn_eq)
qed

lemma accept_tx_totals:
  assumes ok: "burn_within_fee tx"
    and room: "unat (bw_total_fees w) + unat (st_fee tx) < 2 ^ 128"
      "unat (bw_total_burns w) + unat (st_fee tx) < 2 ^ 128"
  shows "unat (bw_total_fees (accept_tx (i, tx) w)) = unat (bw_total_fees w)
      + (if acceptable (bw_resolver w) (st_nullifiers tx) then unat (st_fee tx) - unat (burn_amount tx) else 0)"
    and "unat (bw_total_burns (accept_tx (i, tx) w)) = unat (bw_total_burns w)
      + (if acceptable (bw_resolver w) (st_nullifiers tx) then unat (burn_amount tx) else 0)"
proof -
  have sub: "unat (st_fee tx - burn_amount tx) = unat (st_fee tx) - unat (burn_amount tx)"
    using ok by (simp add: burn_within_fee_def unat_sub_if')
  show "unat (bw_total_fees (accept_tx (i, tx) w)) = unat (bw_total_fees w)
      + (if acceptable (bw_resolver w) (st_nullifiers tx) then unat (st_fee tx) - unat (burn_amount tx) else 0)"
    using room sub by (simp add: accept_tx_def unat_word_ariths unat_up_ucast)
  show "unat (bw_total_burns (accept_tx (i, tx) w)) = unat (bw_total_burns w)
      + (if acceptable (bw_resolver w) (st_nullifiers tx) then unat (burn_amount tx) else 0)"
    using room ok by (simp add: accept_tx_def unat_word_ariths unat_up_ucast burn_within_fee_def)
qed

definition walk :: "nat \<Rightarrow> 'c shielded_tx list \<Rightarrow> 'c block_work \<Rightarrow> 'c block_work" where
  "walk n txs w = foldl (\<lambda>w p. accept_tx p w) w (enumerate n txs)"

lemma walk_simps [simp]:
  "walk n [] w = w"
  "walk n (tx # txs) w = walk (Suc n) txs (accept_tx (n, tx) w)"
  by (simp_all add: walk_def)

definition fee_total :: "'c shielded_tx list \<Rightarrow> nat" where
  "fee_total txs = (\<Sum>tx\<leftarrow>txs. unat (st_fee tx))"

lemma fee_total_simps [simp]:
  "fee_total [] = 0" "fee_total (tx # txs) = unat (st_fee tx) + fee_total txs"
  by (simp_all add: fee_total_def)

lemma fee_total_bound: "fee_total txs \<le> length txs * 2 ^ 64"
proof (induction txs)
  case (Cons tx txs)
  then show ?case using unat_less [of "st_fee tx"] by simp
qed simp

lemma accept_tx_room:
  assumes "burn_within_fee tx"
    and "unat (bw_total_fees w) + (unat (st_fee tx) + rest) < 2 ^ 128"
    and "unat (bw_total_burns w) + (unat (st_fee tx) + rest) < 2 ^ 128"
  shows "unat (bw_total_fees (accept_tx (i, tx) w)) + rest < 2 ^ 128"
    and "unat (bw_total_burns (accept_tx (i, tx) w)) + rest < 2 ^ 128"
  using assms accept_tx_totals [of tx w i] by (auto simp: burn_within_fee_def)

lemma fold_apply_tx:
  assumes "unat (bw_total_fees w) + fee_total txs < 2 ^ 128"
    and "unat (bw_total_burns w) + fee_total txs < 2 ^ 128"
  shows "fold_outcome apply_tx (enumerate n txs) w =
    (case find (\<lambda>tx. \<not> burn_within_fee tx) txs of
       Some tx \<Rightarrow> Err (BurnExceedsValueBalance (burn_amount tx) (st_fee tx))
     | None \<Rightarrow> Ok (walk n txs w))"
  using assms
proof (induction txs arbitrary: n w)
  case Nil
  then show ?case by simp
next
  case (Cons tx txs)
  show ?case
  proof (cases "burn_within_fee tx")
    case True
    with Cons.prems have "apply_tx (n, tx) w = Ok (accept_tx (n, tx) w)"
      by (intro apply_tx_eq) auto
    with True Cons.prems accept_tx_room [OF True, of w "fee_total txs" n] show ?thesis
      by (simp add: Cons.IH split: option.split)
  next
    case False
    then show ?thesis by (simp add: apply_tx_def check_burn_eq)
  qed
qed

section \<open>Which transactions survive\<close>

text \<open>\<open>kept_txs spent txs\<close>: the transactions that survive first-in-order conflict resolution.\<close>

definition kept_flags :: "nullifier_bytes set \<Rightarrow> 'c shielded_tx list \<Rightarrow> bool list" where
  "kept_flags spent txs = first_wins spent (map st_nullifiers txs)"

definition kept_txs :: "nullifier_bytes set \<Rightarrow> 'c shielded_tx list \<Rightarrow> 'c shielded_tx list" where
  "kept_txs spent txs = map fst (filter snd (zip txs (kept_flags spent txs)))"

definition kept_indices :: "nat \<Rightarrow> nullifier_bytes set \<Rightarrow> 'c shielded_tx list \<Rightarrow> nat list" where
  "kept_indices n spent txs = map fst (filter snd (enumerate n (kept_flags spent txs)))"

lemma kept_simps [simp]:
  "kept_txs S [] = []"
  "kept_txs S (tx # txs) =
     (if distinct (st_nullifiers tx) \<and> set (st_nullifiers tx) \<inter> S = {}
      then tx # kept_txs (S \<union> set (st_nullifiers tx)) txs else kept_txs S txs)"
  "kept_indices n S [] = []"
  "kept_indices n S (tx # txs) =
     (if distinct (st_nullifiers tx) \<and> set (st_nullifiers tx) \<inter> S = {}
      then n # kept_indices (Suc n) (S \<union> set (st_nullifiers tx)) txs else kept_indices (Suc n) S txs)"
  by (auto simp: kept_txs_def kept_indices_def kept_flags_def)

lemma set_kept_txs: "set (kept_txs S txs) \<subseteq> set txs"
  by (induction txs arbitrary: S) auto

lemma kept_nullifiers:
  "distinct (concat (map st_nullifiers (kept_txs S txs)))
   \<and> set (concat (map st_nullifiers (kept_txs S txs))) \<inter> S = {}"
proof (induction txs arbitrary: S)
  case Nil
  then show ?case by simp
next
  case (Cons tx txs)
  show ?case
    using Cons [of "S \<union> set (st_nullifiers tx)"] Cons [of S] by auto
qed

lemma walk_resolver:
  assumes "S = spent_by (bw_resolver w)"
  shows "accepted_nfs (bw_resolver (walk n txs w)) =
      accepted_nfs (bw_resolver w) @ concat (map st_nullifiers (kept_txs S txs))"
    and "bw_accepted (walk n txs w) = bw_accepted w @ kept_indices n S txs"
    and "sub_commitments (bw_subtree (walk n txs w)) =
      sub_commitments (bw_subtree w) @ concat (map st_commitments (kept_txs S txs))"
    and "bw_receipts (walk n txs w) = bw_receipts w @ concat (map burn_list (kept_txs S txs))"
  using assms
proof (induction txs arbitrary: n w S)
  case Nil
  { case 1 show ?case by simp next case 2 show ?case by simp next case 3 show ?case by simp next case 4 show ?case by simp }
next
  case (Cons tx txs)
  { case 1 then show ?case using Cons try_accept_cases [of "bw_resolver w" "st_nullifiers tx"]
      by (auto simp: accept_tx_def spent_by_try_accept acceptable_spent_by) }
  { case 2 then show ?case using Cons by (auto simp: accept_tx_def spent_by_try_accept acceptable_spent_by) }
  { case 3 then show ?case using Cons by (auto simp: accept_tx_def spent_by_try_accept acceptable_spent_by) }
  { case 4 then show ?case using Cons by (auto simp: accept_tx_def spent_by_try_accept acceptable_spent_by) }
qed

lemma walk_finalized [simp]: "finalized (bw_resolver (walk n txs w)) = finalized (bw_resolver w)"
  by (induction txs arbitrary: n w) (auto simp: accept_tx_def)

lemma walk_totals:
  assumes "S = spent_by (bw_resolver w)" and "\<forall>tx\<in>set txs. burn_within_fee tx"
    and "unat (bw_total_fees w) + fee_total txs < 2 ^ 128"
    and "unat (bw_total_burns w) + fee_total txs < 2 ^ 128"
  shows "unat (bw_total_fees (walk n txs w)) + unat (bw_total_burns (walk n txs w)) =
      unat (bw_total_fees w) + unat (bw_total_burns w) + fee_total (kept_txs S txs)
    \<and> unat (bw_total_burns (walk n txs w)) =
      unat (bw_total_burns w) + (\<Sum>tx\<leftarrow>kept_txs S txs. unat (burn_amount tx))"
  using assms
proof (induction txs arbitrary: n w S)
  case Nil
  then show ?case by simp
next
  case (Cons tx txs)
  have spent: "spent_by (bw_resolver (accept_tx (n, tx) w)) =
      (if distinct (st_nullifiers tx) \<and> set (st_nullifiers tx) \<inter> S = {}
       then S \<union> set (st_nullifiers tx) else S)"
    using Cons.prems(1) by (auto simp: accept_tx_def spent_by_try_accept acceptable_spent_by)
  have ok: "burn_within_fee tx" "unat (bw_total_fees w) + unat (st_fee tx) < 2 ^ 128"
      "unat (bw_total_burns w) + unat (st_fee tx) < 2 ^ 128"
    using Cons.prems by auto
  note step = accept_tx_totals [OF ok, of n]
  have room: "unat (bw_total_fees (accept_tx (n, tx) w)) + fee_total txs < 2 ^ 128"
      "unat (bw_total_burns (accept_tx (n, tx) w)) + fee_total txs < 2 ^ 128"
    using accept_tx_room [OF ok(1), of w "fee_total txs" n] Cons.prems by auto
  have kept: "acceptable (bw_resolver w) (st_nullifiers tx) \<longleftrightarrow>
      distinct (st_nullifiers tx) \<and> set (st_nullifiers tx) \<inter> S = {}"
    using Cons.prems(1) by (simp add: acceptable_spent_by)
  note IH = Cons.IH [OF refl _ room, unfolded spent, of "Suc n"]
  show ?case
  proof (cases "distinct (st_nullifiers tx) \<and> set (st_nullifiers tx) \<inter> S = {}")
    case True
    with kept have "acceptable (bw_resolver w) (st_nullifiers tx)" by simp
    with True IH Cons.prems(2) step ok(1) show ?thesis by (simp add: burn_within_fee_def)
  next
    case False
    with kept have "\<not> acceptable (bw_resolver w) (st_nullifiers tx)" by simp
    with False IH Cons.prems(2) step show ?thesis by (simp only: kept_simps walk_simps) simp
  qed
qed

section \<open>The ledger step\<close>

context ledger_seam
begin

lemma seam_if_positive_ok:
  assumes "seam_if_positive seam v s = Ok s'"
  shows "unat v < 2 ^ 64" and "unat (total s') = unat (total s) + unat v"
    and "pool_int s' = pool_int s + dir * int (unat v)"
proof -
  have "unat v < 2 ^ 64 \<and> unat (total s') = unat (total s) + unat v
      \<and> pool_int s' = pool_int s + dir * int (unat v)"
  proof (cases "0 < v")
    case True
    with assms obtain u where u: "try_u64 v = Ok u" "seam s u = Ok s'"
      by (auto simp: seam_if_positive_def bind_outcome_Ok_iff)
    then have "unat v < 2 ^ 64" "unat u = unat v"
      by (auto simp: try_u64_def unat_down_ucast split: if_splits)
    with seam_ok [OF u(2)] show ?thesis by simp
  next
    case False
    then have "v = 0" by (simp add: word_gt_0)
    with assms show ?thesis by (simp add: seam_if_positive_def)
  qed
  then show "unat v < 2 ^ 64" "unat (total s') = unat (total s) + unat v"
    "pool_int s' = pool_int s + dir * int (unat v)" by blast+
qed

lemma seam_if_positive_total:
  assumes "unat v < 2 ^ 64" and "unat (total s) + unat v < 2 ^ 128"
  shows "\<exists>s'. seam_if_positive seam v s = Ok s'"
proof (cases "0 < v")
  case True
  have "unat (ucast v :: u64) = unat v" using assms(1) by (simp add: unat_down_ucast)
  with assms seam_total [of s "ucast v"] True show ?thesis
    by (auto simp: seam_if_positive_def try_u64_def)
next
  case False
  then show ?thesis by (simp add: seam_if_positive_def)
qed

lemma seam_if_positive_no_panic: "seam_if_positive seam v s \<noteq> Panic"
  using seam_not_Panic by (auto simp: seam_if_positive_def try_u64_def)

end

lemma advance_supply_ok:
  assumes "advance_supply s m f b = Ok s'"
  shows "pool_int s' = pool_int s + int (unat m) - int (unat f) - int (unat b)"
proof -
  from assms obtain s1 s2 where
    "seam_if_positive mint_coinbase m s = Ok s1" "seam_if_positive collect_fees f s1 = Ok s2"
    "seam_if_positive ledger_burn b s2 = Ok s'"
    by (auto simp: advance_supply_def bind_outcome_Ok_iff)
  then show ?thesis
    by (auto dest!: mint_seam.seam_if_positive_ok(3) fee_seam.seam_if_positive_ok(3)
      burn_seam.seam_if_positive_ok(3))
qed

lemma advance_supply_no_panic: "advance_supply s m f b \<noteq> Panic"
  by (auto simp: advance_supply_def bind_outcome_Panic_iff mint_seam.seam_if_positive_no_panic
    fee_seam.seam_if_positive_no_panic burn_seam.seam_if_positive_no_panic)

lemma seam_if_positive_pegged_in:
  "seam_if_positive mint_coinbase v s = Ok s' \<Longrightarrow> cumulative_fees s' = cumulative_fees s
     \<and> cumulative_burns s' = cumulative_burns s \<and> cumulative_pegged_in s' = cumulative_pegged_in s"
  "seam_if_positive collect_fees v s = Ok s' \<Longrightarrow> cumulative_coinbase s' = cumulative_coinbase s
     \<and> cumulative_burns s' = cumulative_burns s \<and> cumulative_pegged_in s' = cumulative_pegged_in s"
  "seam_if_positive ledger_burn v s = Ok s' \<Longrightarrow> cumulative_coinbase s' = cumulative_coinbase s
     \<and> cumulative_fees s' = cumulative_fees s \<and> cumulative_pegged_in s' = cumulative_pegged_in s"
  by (auto simp: seam_if_positive_def seam_defs outcome_splits split: if_splits)

lemma advance_supply_totals:
  assumes "advance_supply s m f b = Ok s'"
  shows "unat (cumulative_coinbase s') = unat (cumulative_coinbase s) + unat m"
    and "unat (cumulative_fees s') = unat (cumulative_fees s) + unat f"
    and "unat (cumulative_burns s') = unat (cumulative_burns s) + unat b"
    and "cumulative_pegged_in s' = cumulative_pegged_in s"
proof -
  from assms obtain s1 s2 where steps:
    "seam_if_positive mint_coinbase m s = Ok s1" "seam_if_positive collect_fees f s1 = Ok s2"
    "seam_if_positive ledger_burn b s2 = Ok s'"
    by (auto simp: advance_supply_def bind_outcome_Ok_iff)
  note totals = mint_seam.seam_if_positive_ok(2) [OF steps(1)] fee_seam.seam_if_positive_ok(2) [OF steps(2)]
    burn_seam.seam_if_positive_ok(2) [OF steps(3)]
  note frames = seam_if_positive_pegged_in(1) [OF steps(1)] seam_if_positive_pegged_in(2) [OF steps(2)]
    seam_if_positive_pegged_in(3) [OF steps(3)]
  show "unat (cumulative_coinbase s') = unat (cumulative_coinbase s) + unat m"
    "unat (cumulative_fees s') = unat (cumulative_fees s) + unat f"
    "unat (cumulative_burns s') = unat (cumulative_burns s) + unat b"
    "cumulative_pegged_in s' = cumulative_pegged_in s"
    using totals frames by simp_all
qed

lemma advance_supply_total:
  assumes "unat m < 2 ^ 64" "unat f < 2 ^ 64" "unat b < 2 ^ 64"
    and "unat (cumulative_coinbase s) + unat m < 2 ^ 128"
    and "unat (cumulative_fees s) + unat f < 2 ^ 128"
    and "unat (cumulative_burns s) + unat b < 2 ^ 128"
  shows "\<exists>s'. advance_supply s m f b = Ok s'"
proof -
  obtain s1 where s1: "seam_if_positive mint_coinbase m s = Ok s1"
    using mint_seam.seam_if_positive_total assms by blast
  obtain s2 where s2: "seam_if_positive collect_fees f s1 = Ok s2"
    using fee_seam.seam_if_positive_total [of f s1] assms seam_if_positive_pegged_in(1) [OF s1] by auto
  obtain s3 where "seam_if_positive ledger_burn b s2 = Ok s3"
    using burn_seam.seam_if_positive_total [of b s2] assms seam_if_positive_pegged_in(1) [OF s1]
      seam_if_positive_pegged_in(2) [OF s2] by auto
  with s1 s2 show ?thesis by (simp add: advance_supply_def)
qed

lemma advance_supply_Ok_iff:
  "is_ok (advance_supply s m f b) \<longleftrightarrow> unat m < 2 ^ 64 \<and> unat f < 2 ^ 64 \<and> unat b < 2 ^ 64
    \<and> unat (cumulative_coinbase s) + unat m < 2 ^ 128 \<and> unat (cumulative_fees s) + unat f < 2 ^ 128
    \<and> unat (cumulative_burns s) + unat b < 2 ^ 128" (is "?L \<longleftrightarrow> ?R")
proof
  assume ?L
  then obtain s' where s': "advance_supply s m f b = Ok s'" by (cases "advance_supply s m f b") auto
  then obtain s1 s2 where
    "seam_if_positive mint_coinbase m s = Ok s1" "seam_if_positive collect_fees f s1 = Ok s2"
    "seam_if_positive ledger_burn b s2 = Ok s'"
    by (auto simp: advance_supply_def bind_outcome_Ok_iff)
  then have "unat m < 2 ^ 64 \<and> unat f < 2 ^ 64 \<and> unat b < 2 ^ 64"
    using mint_seam.seam_if_positive_ok(1) fee_seam.seam_if_positive_ok(1) burn_seam.seam_if_positive_ok(1)
    by blast
  then show ?R
    using advance_supply_totals [OF s'] unat_less [of "cumulative_coinbase s'"]
      unat_less [of "cumulative_fees s'"] unat_less [of "cumulative_burns s'"] by simp
next
  assume ?R
  then show ?L using advance_supply_total [of m f b s] by auto
qed

section \<open>One chain block\<close>

definition coinbase_notes :: "'c coinbase_mint option \<Rightarrow> 'c coinbase_note list" where
  "coinbase_notes coinbase = (case coinbase of None \<Rightarrow> [] | Some cb \<Rightarrow> cm_notes cb)"

definition minted :: "'c coinbase_mint option \<Rightarrow> nat" where
  "minted coinbase = (\<Sum>n\<leftarrow>coinbase_notes coinbase. unat (cn_value n))"

text \<open>A Rust slice holds fewer than \<open>2^63\<close> elements, so the 128-bit sums over one block cannot overflow.\<close>

definition block_fits :: "'c coinbase_mint option \<Rightarrow> 'c shielded_tx list \<Rightarrow> bool" where
  "block_fits coinbase txs \<longleftrightarrow> length (coinbase_notes coinbase) < 2 ^ 63 \<and> length txs < 2 ^ 63"

lemma mint_fold:
  fixes t :: u128
  assumes "unat t + (\<Sum>n\<leftarrow>ns. unat (cn_value n)) < 2 ^ 128"
  shows "\<exists>t'. fold_outcome (\<lambda>m (total_mint, subtree).
        bind_outcome (add_p total_mint (ucast (cn_value m))) (\<lambda>total_mint.
        Ok (total_mint, subtree_push subtree (cn_commitment m)))) ns (t, st)
      = (Ok (t', \<lparr>sub_commitments = sub_commitments st @ map cn_commitment ns\<rparr>) :: (shielded_state_error, _) outcome)
    \<and> unat t' = unat t + (\<Sum>n\<leftarrow>ns. unat (cn_value n))"
  using assms
proof (induction ns arbitrary: t st)
  case Nil
  then show ?case by simp
next
  case (Cons m ns)
  have add: "checked_add t (ucast (cn_value m)) = Some (t + ucast (cn_value m))"
    using Cons.prems by (simp add: checked_add_def unat_up_ucast)
  then have "unat (t + ucast (cn_value m)) = unat t + unat (cn_value m)"
    by (simp only: checked_add_Some_iff) (simp add: unat_up_ucast)
  with add Cons.IH [of "t + ucast (cn_value m)" "subtree_push st (cn_commitment m)"] Cons.prems
  show ?case by (simp add: subtree_push_def add.assoc)
qed

lemma minted_bound: "length (coinbase_notes cb) < 2 ^ 63 \<Longrightarrow> minted cb < 2 ^ 127"
proof -
  assume len: "length (coinbase_notes cb) < 2 ^ 63"
  have "(\<Sum>n\<leftarrow>ns. unat (cn_value n)) \<le> length ns * 2 ^ 64" for ns :: "'b coinbase_note list"
  proof (induction ns)
    case (Cons n ns)
    then show ?case using unat_less [of "cn_value n"] by simp
  qed simp
  from this [of "coinbase_notes cb"] len show ?thesis by (simp add: minted_def)
qed

lemma mint_notes_ok:
  assumes "length (coinbase_notes cb) < 2 ^ 63"
  shows "\<exists>t. mint_notes cb = Ok (t, \<lparr>sub_commitments = map cn_commitment (coinbase_notes cb)\<rparr>) \<and> unat t = minted cb"
proof (cases cb)
  case None
  then show ?thesis by (simp add: mint_notes_def coinbase_notes_def minted_def subtree_new_def)
next
  case (Some c)
  with minted_bound [OF assms] mint_fold [of 0 "cm_notes c" subtree_new] show ?thesis
    by (simp add: mint_notes_def coinbase_notes_def minted_def subtree_new_def)
qed

definition block_subtree :: "nullifier_bytes set \<Rightarrow> 'c coinbase_mint option \<Rightarrow> 'c shielded_tx list \<Rightarrow> 'c chain_block_subtree"
where
  "block_subtree spent coinbase txs =
     \<lparr>sub_commitments = map cn_commitment (coinbase_notes coinbase)
        @ concat (map st_commitments (kept_txs spent txs))\<rparr>"

definition burned :: "'c shielded_tx list \<Rightarrow> nat" where
  "burned txs = (\<Sum>tx\<leftarrow>txs. unat (burn_amount tx))"

text \<open>The effects gathered from one block, read through the specification of survival.\<close>

lemma block_effects_eq:
  assumes fits: "block_fits cb txs" and spent: "spent = {nf. fin nf}"
  shows "case find (\<lambda>tx. \<not> burn_within_fee tx) txs of
      Some tx \<Rightarrow> block_effects fin cb txs = Err (BurnExceedsValueBalance (burn_amount tx) (st_fee tx))
    | None \<Rightarrow> \<exists>m w. block_effects fin cb txs = Ok (m, w) \<and> unat m = minted cb
        \<and> unat (bw_total_fees w) + burned (kept_txs spent txs) = fee_total (kept_txs spent txs)
        \<and> unat (bw_total_burns w) = burned (kept_txs spent txs)
        \<and> bw_accepted w = kept_indices 0 spent txs
        \<and> into_accepted (bw_resolver w) = concat (map st_nullifiers (kept_txs spent txs))
        \<and> bw_subtree w = block_subtree spent cb txs
        \<and> bw_receipts w = concat (map burn_list (kept_txs spent txs))"
proof -
  let ?st = "\<lparr>sub_commitments = map cn_commitment (coinbase_notes cb)\<rparr>"
  let ?w = "\<lparr>bw_resolver = resolver_new fin, bw_subtree = ?st, bw_accepted = [], bw_total_fees = 0,
          bw_total_burns = 0, bw_receipts = []\<rparr>"
  have room: "fee_total txs < 2 ^ 128"
    using fee_total_bound [of txs] fits by (simp add: block_fits_def)
  obtain t where t: "mint_notes cb = Ok (t, ?st)" "unat t = minted cb"
    using mint_notes_ok [of cb] fits by (auto simp: block_fits_def)
  have run: "fold_outcome apply_tx (enumerate 0 txs) ?w =
      (case find (\<lambda>tx. \<not> burn_within_fee tx) txs of
         Some tx \<Rightarrow> Err (BurnExceedsValueBalance (burn_amount tx) (st_fee tx))
       | None \<Rightarrow> Ok (walk 0 txs ?w))"
    using room by (intro fold_apply_tx) simp_all
  have S: "spent = spent_by (bw_resolver ?w)"
    by (simp add: spent spent_by_def conflicts_def resolver_new_def)
  show ?thesis
  proof (cases "find (\<lambda>tx. \<not> burn_within_fee tx) txs")
    case None
    then have within: "\<forall>tx\<in>set txs. burn_within_fee tx" by (simp add: find_None_iff)
    have "block_effects fin cb txs = Ok (t, walk 0 txs ?w)"
      using t(1) run None by (simp add: block_effects_def)
    moreover have "sub_commitments (bw_subtree (walk 0 txs ?w)) = sub_commitments (block_subtree spent cb txs)"
      using walk_resolver(3) [OF S, of 0 txs] by (simp add: block_subtree_def)
    then have "bw_subtree (walk 0 txs ?w) = block_subtree spent cb txs" by simp
    ultimately show ?thesis
      using None t(2) walk_resolver [OF S, of 0 txs] walk_totals [OF S within, of 0] room
      by (simp add: into_accepted_def burned_def)
  next
    case (Some tx)
    then show ?thesis using t(1) run by (simp add: block_effects_def)
  qed
qed

lemma foldl_acc_push:
  "acc_receipts (foldl (\<lambda>acc r. snd (acc_push sha acc r)) acc rs) = acc_receipts acc @ rs"
  by (induction rs arbitrary: acc) (auto simp: acc_push_def)

text \<open>When a block is accepted, and when it is not.\<close>

definition block_valid ::
  "('fr, 'h, 'c, 'a) orchard_ops \<Rightarrow> nullifier_bytes set \<Rightarrow> 'fr global_tree \<Rightarrow> supply_ledger
     \<Rightarrow> 'c coinbase_mint option \<Rightarrow> 'c shielded_tx list \<Rightarrow> bool"
where
  "block_valid ops spent tree supply cb txs \<longleftrightarrow>
     (\<forall>tx\<in>set txs. burn_within_fee tx)
     \<and> minted cb < 2 ^ 64 \<and> fee_total (kept_txs spent txs) - burned (kept_txs spent txs) < 2 ^ 64
     \<and> burned (kept_txs spent txs) < 2 ^ 64
     \<and> unat (cumulative_fees supply) + (fee_total (kept_txs spent txs) - burned (kept_txs spent txs)) < 2 ^ 128
     \<and> unat (cumulative_burns supply) + burned (kept_txs spent txs) < 2 ^ 128
     \<and> unat (cumulative_coinbase supply) + minted cb + unat (cumulative_pegged_in supply) < 2 ^ 128
     \<and> is_ok (append_subtree ops tree (block_subtree spent cb txs))
     \<and> 0 \<le> pool_int supply + int (minted cb) - int (fee_total (kept_txs spent txs))"

lemma apply_to_OkD:
  assumes run: "apply_chain_block_to ops sha fin tree supply cb txs burns = (Ok out, tree', supply', burns')"
  obtains m w where "block_effects fin cb txs = Ok (m, w)"
    and "advance_supply supply m (bw_total_fees w) (bw_total_burns w) = Ok supply'"
    and "append_subtree ops tree (bw_subtree w) = Ok tree'" and "ledger_check supply' = Ok ()"
    and "out = \<lparr>bo_accepted = bw_accepted w, bo_new_nullifiers = into_accepted (bw_resolver w),
               bo_subtree = bw_subtree w, bo_anchor = tree_anchor ops tree',
               bo_burn_receipts = bw_receipts w\<rparr>"
    and "burns' = foldl (\<lambda>acc r. snd (acc_push sha acc r)) burns (bw_receipts w)"
  using run
  by (auto simp: apply_chain_block_to_def bind_outcome_Ok_iff map_err_Ok_iff split: outcome.splits)

lemma apply_to_effects:
  assumes fits: "block_fits cb txs" and spent: "spent = {nf. fin nf}"
    and run: "apply_chain_block_to ops sha fin tree supply cb txs burns = (Ok out, tree', supply', burns')"
  shows "bo_accepted out = kept_indices 0 spent txs"
    and "bo_new_nullifiers out = concat (map st_nullifiers (kept_txs spent txs))"
    and "bo_subtree out = block_subtree spent cb txs"
    and "append_subtree ops tree (bo_subtree out) = Ok tree'"
    and "bo_anchor out = tree_anchor ops tree'"
    and "bo_burn_receipts out = concat (map burn_list (kept_txs spent txs))"
    and "burns' = foldl (\<lambda>acc r. snd (acc_push sha acc r)) burns (bo_burn_receipts out)"
    and "pool_int supply' = pool_int supply + int (minted cb) - int (fee_total (kept_txs spent txs))"
    and "0 \<le> pool_int supply'"
    and "unat (cumulative_burns supply') = unat (cumulative_burns supply) + burned (kept_txs spent txs)"
    and "unat (cumulative_coinbase supply') = unat (cumulative_coinbase supply) + minted cb"
    and "cumulative_pegged_in supply' = cumulative_pegged_in supply"
proof -
  from run obtain m w where steps: "block_effects fin cb txs = Ok (m, w)"
      "advance_supply supply m (bw_total_fees w) (bw_total_burns w) = Ok supply'"
      "append_subtree ops tree (bw_subtree w) = Ok tree'" "ledger_check supply' = Ok ()"
    and out: "out = \<lparr>bo_accepted = bw_accepted w, bo_new_nullifiers = into_accepted (bw_resolver w),
               bo_subtree = bw_subtree w, bo_anchor = tree_anchor ops tree',
               bo_burn_receipts = bw_receipts w\<rparr>"
    and burns': "burns' = foldl (\<lambda>acc r. snd (acc_push sha acc r)) burns (bw_receipts w)"
    by (rule apply_to_OkD)
  note eff = block_effects_eq [OF fits spent]
  from eff steps(1) have none: "find (\<lambda>tx. \<not> burn_within_fee tx) txs = None"
    by (auto split: option.splits)
  show "bo_accepted out = kept_indices 0 spent txs"
    "bo_new_nullifiers out = concat (map st_nullifiers (kept_txs spent txs))"
    "bo_subtree out = block_subtree spent cb txs"
    "append_subtree ops tree (bo_subtree out) = Ok tree'"
    "bo_anchor out = tree_anchor ops tree'"
    "bo_burn_receipts out = concat (map burn_list (kept_txs spent txs))"
    "burns' = foldl (\<lambda>acc r. snd (acc_push sha acc r)) burns (bo_burn_receipts out)"
    "pool_int supply' = pool_int supply + int (minted cb) - int (fee_total (kept_txs spent txs))"
    "0 \<le> pool_int supply'"
    "unat (cumulative_burns supply') = unat (cumulative_burns supply) + burned (kept_txs spent txs)"
    "unat (cumulative_coinbase supply') = unat (cumulative_coinbase supply) + minted cb"
    "cumulative_pegged_in supply' = cumulative_pegged_in supply"
    using eff none steps out burns' advance_supply_ok [OF steps(2)] advance_supply_totals [OF steps(2)]
      ledger_check_Ok_iff [of supply'] by auto
qed

lemma apply_to_Ok_iff:
  "is_ok (fst (apply_chain_block_to ops sha fin tree supply cb txs burns)) \<longleftrightarrow>
     (\<exists>m w supply' tree'. block_effects fin cb txs = Ok (m, w)
        \<and> advance_supply supply m (bw_total_fees w) (bw_total_burns w) = Ok supply'
        \<and> append_subtree ops tree (bw_subtree w) = Ok tree' \<and> ledger_check supply' = Ok ())"
  (is "?L \<longleftrightarrow> ?R")
proof
  assume ?L
  then obtain out tree' supply' burns' where
    "apply_chain_block_to ops sha fin tree supply cb txs burns = (Ok out, tree', supply', burns')"
    by (cases "apply_chain_block_to ops sha fin tree supply cb txs burns"; cases "fst (apply_chain_block_to ops sha fin tree supply cb txs burns)") auto
  then show ?R by (elim apply_to_OkD) blast
next
  assume ?R
  then show ?L by (auto simp: apply_chain_block_to_def)
qed

lemma burned_le_fee_total: "\<forall>tx\<in>set txs. burn_within_fee tx \<Longrightarrow> burned txs \<le> fee_total txs"
  by (induction txs) (auto simp: burned_def burn_within_fee_def)

lemma apply_to_valid_iff:
  assumes fits: "block_fits cb txs" and spent: "spent = {nf. fin nf}"
  shows "is_ok (fst (apply_chain_block_to ops sha fin tree supply cb txs burns)) \<longleftrightarrow>
    block_valid ops spent tree supply cb txs"
proof (cases "find (\<lambda>tx. \<not> burn_within_fee tx) txs")
  case (Some tx)
  then have "\<not> (\<forall>tx\<in>set txs. burn_within_fee tx)" by (metis find_Some_iff nth_mem)
  with Some block_effects_eq [OF fits spent] show ?thesis
    by (simp add: apply_to_Ok_iff block_valid_def)
next
  case None
  then have within: "\<forall>tx\<in>set txs. burn_within_fee tx" by (simp add: find_None_iff)
  let ?K = "kept_txs spent txs"
  from None block_effects_eq [OF fits spent] obtain m w where
    eff: "block_effects fin cb txs = Ok (m, w)" and m: "unat m = minted cb"
    and fees: "unat (bw_total_fees w) + burned ?K = fee_total ?K"
    and burns: "unat (bw_total_burns w) = burned ?K" and sub: "bw_subtree w = block_subtree spent cb txs"
    by auto
  have fees': "fee_total ?K - burned ?K = unat (bw_total_fees w)" using fees by simp
  let ?adv = "advance_supply supply m (bw_total_fees w) (bw_total_burns w)"
  have pool: "pool_int s' = pool_int supply + int (minted cb) - int (fee_total ?K)
      \<and> unat (cumulative_coinbase s') + unat (cumulative_pegged_in s')
          = unat (cumulative_coinbase supply) + minted cb + unat (cumulative_pegged_in supply)"
    if "?adv = Ok s'" for s'
    using advance_supply_ok [OF that] advance_supply_totals [OF that] m fees burns by simp
  have "is_ok (fst (apply_chain_block_to ops sha fin tree supply cb txs burns)) \<longleftrightarrow>
      (\<exists>s'. ?adv = Ok s' \<and> ledger_check s' = Ok ()) \<and> is_ok (append_subtree ops tree (block_subtree spent cb txs))"
    unfolding apply_to_Ok_iff eff using sub
    by (cases "append_subtree ops tree (block_subtree spent cb txs)") auto
  moreover have "(\<exists>s'. ?adv = Ok s' \<and> ledger_check s' = Ok ()) \<longleftrightarrow> is_ok ?adv
      \<and> 0 \<le> pool_int supply + int (minted cb) - int (fee_total ?K)
      \<and> unat (cumulative_coinbase supply) + minted cb + unat (cumulative_pegged_in supply) < 2 ^ 128"
    using pool by (cases ?adv) (auto simp: ledger_check_Ok_iff)
  moreover have "unat (cumulative_coinbase supply) + minted cb + unat (cumulative_pegged_in supply) < 2 ^ 128 \<Longrightarrow>
      is_ok ?adv \<longleftrightarrow> minted cb < 2 ^ 64 \<and> fee_total ?K - burned ?K < 2 ^ 64 \<and> burned ?K < 2 ^ 64
      \<and> unat (cumulative_fees supply) + (fee_total ?K - burned ?K) < 2 ^ 128
      \<and> unat (cumulative_burns supply) + burned ?K < 2 ^ 128"
    unfolding fees' using advance_supply_Ok_iff [of "supply" m "bw_total_fees w" "bw_total_burns w"] m burns
    by simp
  ultimately show ?thesis using within by (auto simp: block_valid_def)
qed

section \<open>The chain of blocks\<close>

text \<open>
  \<open>chain ops sha h s\<close>: the state \<open>s\<close> is reached from genesis by applying blocks in order, each of
  which is accepted or rejected. The history \<open>h\<close> lists, for every accepted block, its coinbase and the
  transactions the outcome names as accepted.
\<close>

definition accepted_of :: "'c shielded_tx list \<Rightarrow> ('c, 'a) block_shielded_outcome \<Rightarrow> 'c shielded_tx list" where
  "accepted_of txs out = map ((!) txs) (bo_accepted out)"

inductive chain ::
  "('fr, 'h, 'c, 'a) orchard_ops \<Rightarrow> (bytes \<Rightarrow> bytes)
     \<Rightarrow> ('c coinbase_mint option \<times> 'c shielded_tx list) list \<Rightarrow> 'fr shielded_state \<Rightarrow> bool"
  for ops sha
where
  genesis: "chain ops sha [] (shielded_state_new ops)"
| block_accepted: "\<lbrakk> chain ops sha h s; block_fits cb txs; apply_chain_block ops sha s cb txs = (Ok out, s') \<rbrakk>
     \<Longrightarrow> chain ops sha (h @ [(cb, accepted_of txs out)]) s'"
| block_rejected: "\<lbrakk> chain ops sha h s; apply_chain_block ops sha s cb txs = (Err e, s') \<rbrakk>
     \<Longrightarrow> chain ops sha h s'"

lemma kept_indices_nth:
  "map ((!) (pre @ txs)) (kept_indices (length pre) S txs) = kept_txs S txs"
proof (induction txs arbitrary: pre S)
  case Nil
  then show ?case by simp
next
  case (Cons tx txs)
  show ?case using Cons [of "pre @ [tx]"] by simp
qed

lemma apply_chain_block_run:
  assumes "apply_chain_block ops sha s cb txs = (Ok out, s')"
  obtains tree supply' burns where
    "apply_chain_block_to ops sha (mem_contains (ss_nullifiers s)) (ss_tree s) (ss_supply s) cb txs (ss_burns s)
      = (Ok out, tree, supply', burns)"
    and "s' = s\<lparr>ss_tree := tree, ss_supply := supply', ss_burns := burns,
      ss_nullifiers := mem_extend (ss_nullifiers s) (bo_new_nullifiers out)\<rparr>"
  using assms by (auto simp: apply_chain_block_def Let_def split: prod.splits outcome.splits)

lemma apply_chain_block_OkD:
  assumes fits: "block_fits cb txs" and run: "apply_chain_block ops sha s cb txs = (Ok out, s')"
    and S: "S = nf_set (ss_nullifiers s)"
  shows "accepted_of txs out = kept_txs S txs"
    and "nf_set (ss_nullifiers s') = S \<union> set (concat (map st_nullifiers (kept_txs S txs)))"
    and "append_subtree ops (ss_tree s) (block_subtree S cb txs) = Ok (ss_tree s')"
    and "ss_burns s' = foldl (\<lambda>acc r. snd (acc_push sha acc r)) (ss_burns s) (concat (map burn_list (kept_txs S txs)))"
    and "pool_int (ss_supply s') = pool_int (ss_supply s) + int (minted cb) - int (fee_total (kept_txs S txs))"
    and "0 \<le> pool_int (ss_supply s')"
    and "unat (cumulative_burns (ss_supply s')) = unat (cumulative_burns (ss_supply s)) + burned (kept_txs S txs)"
    and "cumulative_pegged_in (ss_supply s') = cumulative_pegged_in (ss_supply s)"
proof -
  from run obtain tree supply' burns where
    to: "apply_chain_block_to ops sha (mem_contains (ss_nullifiers s)) (ss_tree s) (ss_supply s) cb txs (ss_burns s)
      = (Ok out, tree, supply', burns)"
    and s': "s' = s\<lparr>ss_tree := tree, ss_supply := supply', ss_burns := burns,
      ss_nullifiers := mem_extend (ss_nullifiers s) (bo_new_nullifiers out)\<rparr>"
    by (rule apply_chain_block_run)
  have "S = {nf. mem_contains (ss_nullifiers s) nf}" by (simp add: S mem_contains_def)
  note eff = apply_to_effects [OF fits this to]
  show "accepted_of txs out = kept_txs S txs"
    using eff(1) kept_indices_nth [of "[]" txs S] by (simp add: accepted_of_def)
  show "nf_set (ss_nullifiers s') = S \<union> set (concat (map st_nullifiers (kept_txs S txs)))"
    "append_subtree ops (ss_tree s) (block_subtree S cb txs) = Ok (ss_tree s')"
    "ss_burns s' = foldl (\<lambda>acc r. snd (acc_push sha acc r)) (ss_burns s) (concat (map burn_list (kept_txs S txs)))"
    "pool_int (ss_supply s') = pool_int (ss_supply s) + int (minted cb) - int (fee_total (kept_txs S txs))"
    "0 \<le> pool_int (ss_supply s')"
    "unat (cumulative_burns (ss_supply s')) = unat (cumulative_burns (ss_supply s)) + burned (kept_txs S txs)"
    "cumulative_pegged_in (ss_supply s') = cumulative_pegged_in (ss_supply s)"
    using eff S s' by (simp_all add: mem_extend_def)
qed

lemma apply_chain_block_ErrD: "apply_chain_block ops sha s cb txs = (Err e, s') \<Longrightarrow> s' = s"
  by (auto simp: apply_chain_block_def apply_chain_block_to_def Let_def split: prod.splits outcome.splits)

definition hist_txs :: "('c coinbase_mint option \<times> 'c shielded_tx list) list \<Rightarrow> 'c shielded_tx list" where
  "hist_txs h = concat (map snd h)"

definition hist_minted :: "('c coinbase_mint option \<times> 'c shielded_tx list) list \<Rightarrow> nat" where
  "hist_minted h = (\<Sum>(cb, txs)\<leftarrow>h. minted cb)"

definition hist_leaves :: "('c coinbase_mint option \<times> 'c shielded_tx list) list \<Rightarrow> 'c list" where
  "hist_leaves h = concat (map (\<lambda>(cb, txs). map cn_commitment (coinbase_notes cb) @ concat (map st_commitments txs)) h)"

lemma hist_snoc [simp]:
  "hist_txs [] = []" "hist_minted [] = 0" "hist_leaves [] = []"
  "hist_txs (h @ [(cb, txs)]) = hist_txs h @ txs"
  "hist_minted (h @ [(cb, txs)]) = hist_minted h + minted cb"
  "hist_leaves (h @ [(cb, txs)]) =
     hist_leaves h @ map cn_commitment (coinbase_notes cb) @ concat (map st_commitments txs)"
  by (simp_all add: hist_txs_def hist_minted_def hist_leaves_def)

lemma fee_total_append [simp]: "fee_total (xs @ ys) = fee_total xs + fee_total ys"
  by (simp add: fee_total_def)

lemma burned_append [simp]: "burned (xs @ ys) = burned xs + burned ys" "burned [] = 0"
  by (simp_all add: burned_def)

lemma chain_spends:
  "chain ops sha h s \<Longrightarrow> distinct (concat (map st_nullifiers (hist_txs h)))
     \<and> nf_set (ss_nullifiers s) = set (concat (map st_nullifiers (hist_txs h)))"
proof (induction rule: chain.induct)
  case genesis
  then show ?case by (simp add: shielded_state_new_def mem_new_def)
next
  case (block_accepted h s cb txs out s')
  note step = apply_chain_block_OkD [OF block_accepted.hyps(2,3) refl]
  show ?case
    using block_accepted.IH kept_nullifiers [of "nf_set (ss_nullifiers s)" txs]
    by (simp add: step(1,2)) blast
next
  case (block_rejected h s cb txs e s')
  then show ?case by (auto dest: apply_chain_block_ErrD)
qed

lemma chain_supply:
  "chain ops sha h s \<Longrightarrow>
     pool_int (ss_supply s) = int (hist_minted h) - int (fee_total (hist_txs h)) \<and> 0 \<le> pool_int (ss_supply s)
     \<and> unat (cumulative_burns (ss_supply s)) = burned (hist_txs h)
     \<and> cumulative_pegged_in (ss_supply s) = 0"
proof (induction rule: chain.induct)
  case genesis
  then show ?case
    by (simp add: shielded_state_new_def) (simp add: ledger_new_def ledger_from_totals_full_def)
next
  case (block_accepted h s cb txs out s')
  note step = apply_chain_block_OkD [OF block_accepted.hyps(2,3) refl]
  show ?case
    using block_accepted.IH step(5,6,7,8) by (simp add: step(1))
next
  case (block_rejected h s cb txs e s')
  then show ?case by (auto dest: apply_chain_block_ErrD)
qed

lemma chain_stores:
  "chain ops sha h s \<Longrightarrow>
     append_subtree ops (tree_new ops) \<lparr>sub_commitments = hist_leaves h\<rparr> = Ok (ss_tree s)
     \<and> ss_burns s = from_receipts sha (concat (map burn_list (hist_txs h)))"
proof (induction rule: chain.induct)
  case genesis
  then show ?case by (simp add: shielded_state_new_def append_subtree_def from_receipts_def)
next
  case (block_accepted h s cb txs out s')
  note step = apply_chain_block_OkD [OF block_accepted.hyps(2,3) refl]
  show ?case
    using block_accepted.IH step(3,4)
    by (simp add: step(1) append_subtree_def block_subtree_def fold_outcome_append from_receipts_def)
next
  case (block_rejected h s cb txs e s')
  then show ?case by (auto dest: apply_chain_block_ErrD)
qed

section \<open>Extraction\<close>

lemma decode_commitments_Ok_iff:
  "decode_commitments dec as = Ok cs \<longleftrightarrow> map (\<lambda>a. dec (aw_cmx a)) as = map Some cs"
  by (induction as arbitrary: cs) (auto simp: bind_outcome_Ok_iff ok_or_Ok_iff map_eq_Cons_conv)

lemma from_bundle_Ok_iff:
  "from_bundle dec b = Ok tx \<longleftrightarrow>
     map (\<lambda>a. dec (aw_cmx a)) (sb_actions b) = map Some (st_commitments tx)
     \<and> 0 \<le> sint (sb_value_balance b) \<and> sb_burn b = None
     \<and> tx = \<lparr>st_nullifiers = map aw_nullifier (sb_actions b), st_commitments = st_commitments tx,
             st_fee = sb_value_balance b, st_anchor = sb_anchor b, st_burn = None,
             st_anchor_block = sb_anchor_block b\<rparr>"
  by (cases tx)
    (auto simp: from_bundle_def bind_outcome_Ok_iff decode_commitments_Ok_iff extract_burn_def
      BRIDGE_ENABLED_def split: option.splits if_splits)

section \<open>A concrete block\<close>

definition sample_coinbase :: "bytes coinbase_mint" where
  "sample_coinbase = coinbase_mint_new [\<lparr>cn_value = 50, cn_commitment = [7]\<rparr>]"

definition sample_tx :: "u64 \<Rightarrow> bytes \<Rightarrow> bytes shielded_tx" where
  "sample_tx fee cmx = \<lparr>st_nullifiers = [[1]], st_commitments = [cmx], st_fee = fee, st_anchor = [],
     st_burn = Some \<lparr>er_v = 2, er_recipient = [4], er_n = [1]\<rparr>, st_anchor_block = None\<rparr>"

definition sample_outcome :: "(bytes, bytes) block_shielded_outcome" where
  "sample_outcome = \<lparr>bo_accepted = [0], bo_new_nullifiers = [[1]],
     bo_subtree = \<lparr>sub_commitments = [[7], [8]]\<rparr>, bo_anchor = [7, 8],
     bo_burn_receipts = [\<lparr>er_v = 2, er_recipient = [4], er_n = [1]\<rparr>]\<rparr>"

definition sample_state :: "bytes list shielded_state" where
  "sample_state = \<lparr>ss_nullifiers = \<lparr>nf_set = {[1]}\<rparr>, ss_tree = \<lparr>gt_frontier = [[7], [8]], gt_size = 2\<rparr>,
     ss_supply = \<lparr>cumulative_coinbase = 50, cumulative_fees = 3, cumulative_burns = 2, cumulative_pegged_in = 0\<rparr>,
     ss_burns = from_receipts sample_hash [\<lparr>er_v = 2, er_recipient = [4], er_n = [1]\<rparr>]\<rparr>"

lemmas block_eval = apply_chain_block_to_def block_effects_def mint_notes_def apply_tx_def check_burn_def
  burn_amount_def advance_supply_def seam_if_positive_def try_u64_def seam_defs ledger_check_def pool_value_def
  try_accept_def resolver_new_def conflicts_def into_accepted_def append_subtree_def tree_append_def
  tree_anchor_def subtree_push_def subtree_new_def mem_contains_def mem_extend_def list_ops_def
  checked_add_def checked_sub_def word_less_nat_alt word_le_nat_alt

lemma sample_block:
  "apply_chain_block list_ops sample_hash (shielded_state_new list_ops) (Some sample_coinbase)
     [sample_tx 5 [8], sample_tx 6 [9]] = (Ok sample_outcome, sample_state)"
  by (simp add: apply_chain_block_def shielded_state_new_def mem_new_def tree_new_def ledger_new_def
    ledger_from_totals_full_def sample_coinbase_def coinbase_mint_new_def sample_tx_def sample_outcome_def
    sample_state_def from_receipts_def block_eval)

lemma sample_chain:
  "chain list_ops sample_hash [(Some sample_coinbase, [sample_tx 5 [8]])] sample_state"
proof -
  have "block_fits (Some sample_coinbase) [sample_tx 5 [8], sample_tx 6 [9]]"
    by (simp add: block_fits_def coinbase_notes_def sample_coinbase_def coinbase_mint_new_def)
  from chain.block_accepted [OF chain.genesis this sample_block] show ?thesis
    by (simp add: accepted_of_def sample_outcome_def)
qed

section \<open>Properties\<close>

text \<open>
  C1. No double spend, ever. In every state reached from genesis by any sequence of accepted and
  rejected chain blocks, all nullifiers revealed by all transactions accepted so far are pairwise
  distinct, and the finalized set holds exactly them.
\<close>

theorem no_double_spend:
  assumes "chain ops sha h s"
  shows "distinct (concat (map st_nullifiers (hist_txs h)))
    \<and> (\<forall>nf. mem_contains (ss_nullifiers s) nf \<longleftrightarrow> nf \<in> set (concat (map st_nullifiers (hist_txs h))))"
  using chain_spends [OF assms] by (simp add: mem_contains_def)

theorem no_double_spend_witness:
  "chain list_ops sample_hash [(Some sample_coinbase, [sample_tx 5 [8]])] sample_state
   \<and> mem_contains (ss_nullifiers sample_state) [1]"
  using no_double_spend [OF sample_chain] sample_chain by (simp add: hist_txs_def sample_tx_def)


text \<open>
  C2. No inflation. In every reachable state the pool holds exactly what coinbases minted minus what
  accepted transactions declared as leaving (miner fees plus bridge burns), it is never negative, the
  ledger's own \<open>pool_value\<close> computes it without error, and the ledger's burn total is the sum of the
  receipts in the burn accumulator.
\<close>

theorem no_inflation:
  assumes "chain ops sha h s"
  shows "\<exists>v. pool_value (ss_supply s) = Ok v \<and> int (unat v) = int (hist_minted h) - int (fee_total (hist_txs h))
    \<and> unat (cumulative_burns (ss_supply s)) = (\<Sum>r\<leftarrow>acc_receipts (ss_burns s). unat (er_v r))"
proof -
  note ledger = chain_supply [OF assms]
  have "ledger_check (ss_supply s) = Ok ()"
    using ledger unat_less [of "cumulative_coinbase (ss_supply s)"] by (simp add: ledger_check_Ok_iff)
  then obtain v where v: "pool_value (ss_supply s) = Ok v"
    by (auto simp: ledger_check_def bind_outcome_Ok_iff)
  have "(\<Sum>r\<leftarrow>concat (map burn_list txs). unat (er_v r)) = burned txs" for txs :: "'c shielded_tx list"
    by (induction txs) (auto simp: burned_def burn_list_def burn_amount_def split: option.splits)
  moreover have "acc_receipts (ss_burns s) = concat (map burn_list (hist_txs h))"
    using chain_stores [OF assms] by (simp add: from_receipts_def foldl_acc_push acc_new_def)
  moreover have "int (unat v) = pool_int (ss_supply s)" using v by (simp add: pool_value_Ok_iff)
  ultimately show ?thesis
    using ledger by (intro exI [of _ v]) (simp add: v)
qed

theorem no_inflation_witness:
  "chain list_ops sample_hash [(Some sample_coinbase, [sample_tx 5 [8]])] sample_state
   \<and> (\<exists>v. pool_value (ss_supply sample_state) = Ok v \<and> int (unat v) = 45)"
  using no_inflation [OF sample_chain] sample_chain
  by (auto simp: hist_minted_def minted_def coinbase_notes_def sample_coinbase_def coinbase_mint_new_def
    hist_txs_def sample_tx_def)


text \<open>
  C5. The stores are functions of the history. In every reachable state the note-commitment tree is
  the fresh tree with the leaves of all accepted blocks appended in order (each block's coinbase notes
  first), its size is their number, and the burn accumulator is the one rebuilt from the receipts of
  all accepted transactions, as a restarting node does.
\<close>

theorem stores_replay_history:
  assumes "chain ops sha h s"
  shows "append_subtree ops (tree_new ops) \<lparr>sub_commitments = hist_leaves h\<rparr> = Ok (ss_tree s)
    \<and> unat (gt_size (ss_tree s)) = length (hist_leaves h)
    \<and> ss_burns s = from_receipts sha (concat (map burn_list (hist_txs h)))"
  using chain_stores [OF assms] append_subtree_size [of ops "tree_new ops" "\<lparr>sub_commitments = hist_leaves h\<rparr>"]
  by (simp add: tree_new_def)

theorem stores_replay_history_witness:
  "chain list_ops sample_hash [(Some sample_coinbase, [sample_tx 5 [8]])] sample_state
   \<and> append_subtree list_ops (tree_new list_ops) \<lparr>sub_commitments = [[7], [8]]\<rparr> = Ok (ss_tree sample_state)"
  using stores_replay_history [OF sample_chain] sample_chain
  by (simp add: hist_leaves_def coinbase_notes_def sample_coinbase_def coinbase_mint_new_def sample_tx_def)


text \<open>
  C3. One block, completely. A chain block is accepted iff no transaction burns more than it proved is
  leaving, the block's totals fit the ledger, the tree has room and the pool stays non-negative; a
  rejected block leaves tree, ledger and accumulator untouched.
\<close>

theorem chain_block_accepted_iff:
  assumes "block_fits cb txs"
  shows "(is_ok (fst (apply_chain_block_to ops sha fin tree supply cb txs burns)) \<longleftrightarrow>
      block_valid ops {nf. fin nf} tree supply cb txs)
    \<and> (is_ok (fst (apply_chain_block_to ops sha fin tree supply cb txs burns))
       \<or> snd (apply_chain_block_to ops sha fin tree supply cb txs burns) = (tree, supply, burns))"
proof (rule conjI)
  show "is_ok (fst (apply_chain_block_to ops sha fin tree supply cb txs burns)) \<longleftrightarrow>
      block_valid ops {nf. fin nf} tree supply cb txs"
    by (rule apply_to_valid_iff [OF assms refl])
  show "is_ok (fst (apply_chain_block_to ops sha fin tree supply cb txs burns))
       \<or> snd (apply_chain_block_to ops sha fin tree supply cb txs burns) = (tree, supply, burns)"
    by (simp add: apply_chain_block_to_def split: outcome.split prod.split)
qed

theorem chain_block_accepted_iff_witness:
  "block_fits (Some sample_coinbase) [sample_tx 1 [8]]
   \<and> snd (apply_chain_block_to list_ops sample_hash (\<lambda>_. False) (tree_new list_ops) ledger_new
        (Some sample_coinbase) [sample_tx 1 [8]] acc_new) = (tree_new list_ops, ledger_new, acc_new)"
proof -
  have fits: "block_fits (Some sample_coinbase) [sample_tx 1 [8]]"
    by (simp add: block_fits_def coinbase_notes_def sample_coinbase_def coinbase_mint_new_def)
  have "\<not> block_valid list_ops {nf. False} (tree_new list_ops) ledger_new (Some sample_coinbase) [sample_tx 1 [8]]"
    by (simp add: block_valid_def burn_within_fee_def burn_amount_def sample_tx_def)
  with fits chain_block_accepted_iff [OF fits, of list_ops sample_hash "\<lambda>_. False" "tree_new list_ops"
      ledger_new acc_new] show ?thesis by auto
qed


text \<open>
  C4. What an accepted block does: the accepted indices and the recorded nullifiers are those of
  first-in-order resolution against the finalized set, the new leaves are the coinbase notes followed by
  the surviving transactions' commitments, the anchor is that of the extended tree, and exactly the
  surviving transactions' burn receipts are recorded.
\<close>

theorem chain_block_effects:
  assumes "block_fits cb txs"
    and "apply_chain_block_to ops sha fin tree supply cb txs burns = (Ok out, tree', supply', burns')"
  shows "bo_accepted out = map fst (filter snd (enumerate 0 (first_wins {nf. fin nf} (map st_nullifiers txs))))
    \<and> bo_new_nullifiers out = concat (map st_nullifiers (accepted_of txs out))
    \<and> distinct (bo_new_nullifiers out) \<and> (\<forall>nf. nf \<in> set (bo_new_nullifiers out) \<longrightarrow> \<not> fin nf)
    \<and> sub_commitments (bo_subtree out) =
        map cn_commitment (coinbase_notes cb) @ concat (map st_commitments (accepted_of txs out))
    \<and> append_subtree ops tree (bo_subtree out) = Ok tree' \<and> bo_anchor out = tree_anchor ops tree'
    \<and> acc_receipts burns' = acc_receipts burns @ concat (map burn_list (accepted_of txs out))"
proof -
  let ?S = "{nf. fin nf}"
  note eff = apply_to_effects [OF assms(1) refl assms(2)]
  have "accepted_of txs out = kept_txs ?S txs"
    using eff(1) kept_indices_nth [of "[]" txs ?S] by (simp add: accepted_of_def)
  then show ?thesis
    using eff kept_nullifiers [of ?S txs]
    by (auto simp: kept_indices_def kept_flags_def block_subtree_def foldl_acc_push)
qed

theorem chain_block_effects_witness:
  "\<exists>tree' supply' burns'. block_fits (Some sample_coinbase) [sample_tx 5 [8], sample_tx 6 [9]]
   \<and> apply_chain_block_to list_ops sample_hash (mem_contains mem_new) (tree_new list_ops) ledger_new
       (Some sample_coinbase) [sample_tx 5 [8], sample_tx 6 [9]] acc_new = (Ok sample_outcome, tree', supply', burns')
   \<and> acc_receipts burns' = [\<lparr>er_v = 2, er_recipient = [4], er_n = [1]\<rparr>]"
proof -
  have fits: "block_fits (Some sample_coinbase) [sample_tx 5 [8], sample_tx 6 [9]]"
    by (simp add: block_fits_def coinbase_notes_def sample_coinbase_def coinbase_mint_new_def)
  obtain tree' supply' burns' where run:
    "apply_chain_block_to list_ops sample_hash (mem_contains mem_new) (tree_new list_ops) ledger_new
       (Some sample_coinbase) [sample_tx 5 [8], sample_tx 6 [9]] acc_new = (Ok sample_outcome, tree', supply', burns')"
    by (rule apply_chain_block_run [OF sample_block]) (simp add: shielded_state_new_def)
  have "acc_receipts burns' = acc_receipts acc_new
      @ concat (map burn_list (accepted_of [sample_tx 5 [8], sample_tx 6 [9]] sample_outcome))"
    using chain_block_effects [OF fits run] by blast
  then have "acc_receipts burns' = [\<lparr>er_v = 2, er_recipient = [4], er_n = [1]\<rparr>]"
    by (simp add: accepted_of_def sample_outcome_def sample_tx_def burn_list_def acc_new_def)
  with fits run show ?thesis by blast
qed

text \<open>
  C15. Extraction is exact. A bundle yields effects iff every commitment is canonical, its value
  balance is not negative and it declares no burn (the bridge is switched off); the fee is the signed
  value balance, and there is one nullifier and one commitment per action, in action order.
\<close>

theorem from_bundle_exact:
  "(\<exists>tx. from_bundle dec b = Ok tx) \<longleftrightarrow>
     None \<notin> set (map (\<lambda>a. dec (aw_cmx a)) (sb_actions b)) \<and> 0 \<le> sint (sb_value_balance b) \<and> sb_burn b = None"
proof
  assume "\<exists>tx. from_bundle dec b = Ok tx"
  then obtain tx where tx: "from_bundle dec b = Ok tx" by blast
  then have "map (\<lambda>a. dec (aw_cmx a)) (sb_actions b) = map Some (st_commitments tx)"
    using from_bundle_Ok_iff by blast
  then have "None \<notin> set (map (\<lambda>a. dec (aw_cmx a)) (sb_actions b))" by (auto simp del: list.set_map)
  with tx show "None \<notin> set (map (\<lambda>a. dec (aw_cmx a)) (sb_actions b)) \<and> 0 \<le> sint (sb_value_balance b)
      \<and> sb_burn b = None"
    using from_bundle_Ok_iff [of dec b tx] by blast
next
  assume r: "None \<notin> set (map (\<lambda>a. dec (aw_cmx a)) (sb_actions b)) \<and> 0 \<le> sint (sb_value_balance b)
      \<and> sb_burn b = None"
  let ?cs = "map (\<lambda>a. the (dec (aw_cmx a))) (sb_actions b)"
  have "map (\<lambda>a. dec (aw_cmx a)) (sb_actions b) = map Some ?cs"
    using r by (auto simp: image_iff)
  with r have "from_bundle dec b = Ok \<lparr>st_nullifiers = map aw_nullifier (sb_actions b), st_commitments = ?cs,
      st_fee = sb_value_balance b, st_anchor = sb_anchor b, st_burn = None, st_anchor_block = sb_anchor_block b\<rparr>"
    unfolding from_bundle_Ok_iff by simp
  then show "\<exists>tx. from_bundle dec b = Ok tx" by blast
qed

text \<open>
  C16. The deactivated bridge stays inert. If every transaction accepted so far was extracted from a
  bundle, the burn accumulator is still empty and the ledger's burn total still zero, and the fee of
  each is exactly its signed value balance.
\<close>

theorem bridge_disabled_no_burns:
  assumes "chain ops sha h s" and "list_all (\<lambda>tx. \<exists>b. from_bundle dec b = Ok tx) (hist_txs h)"
  shows "ss_burns s = acc_new \<and> cumulative_burns (ss_supply s) = 0"
proof -
  have none: "st_burn tx = None" if "from_bundle dec b = Ok tx" for b and tx :: "'c shielded_tx"
  proof -
    from that have "tx = \<lparr>st_nullifiers = map aw_nullifier (sb_actions b), st_commitments = st_commitments tx,
             st_fee = sb_value_balance b, st_anchor = sb_anchor b, st_burn = None,
             st_anchor_block = sb_anchor_block b\<rparr>" using from_bundle_Ok_iff by blast
    then show ?thesis by (metis shielded_tx.select_convs(5))
  qed
  have "concat (map burn_list txs) = [] \<and> burned txs = 0"
    if "list_all (\<lambda>tx. \<exists>b. from_bundle dec b = Ok tx) txs" for txs :: "'c shielded_tx list"
    using that by (induction txs) (auto simp: burned_def burn_list_def burn_amount_def none)
  from this [OF assms(2)] show ?thesis
    using chain_stores [OF assms(1)] chain_supply [OF assms(1)]
    by (simp add: from_receipts_def unat_eq_zero del: concat_eq_Nil_conv)
qed

definition sample_small_bundle :: shielded_bundle where
  "sample_small_bundle = \<lparr>sb_actions = [\<lparr>aw_nullifier = [3], aw_rk = [], aw_cmx = [9], aw_cv_net = [],
       aw_ephemeral_key = [], aw_enc_ciphertext = [], aw_out_ciphertext = [], aw_spend_auth_sig = []\<rparr>],
     sb_flags = 3, sb_value_balance = 5, sb_anchor = [], sb_proof = [], sb_binding_sig = [],
     sb_burn = None, sb_anchor_block = None\<rparr>"

definition sample_plain_tx :: "bytes shielded_tx" where
  "sample_plain_tx = \<lparr>st_nullifiers = [[3]], st_commitments = [[9]], st_fee = 5, st_anchor = [], st_burn = None,
     st_anchor_block = None\<rparr>"

lemma sample_plain_tx_extracted: "from_bundle Some sample_small_bundle = Ok sample_plain_tx"
  by (simp add: from_bundle_def sample_small_bundle_def sample_plain_tx_def extract_burn_def)

lemma sample_plain_chain:
  "\<exists>s. chain list_ops sample_hash [(Some sample_coinbase, [sample_plain_tx])] s"
proof -
  have fits: "block_fits (Some sample_coinbase) [sample_plain_tx]"
    by (simp add: block_fits_def coinbase_notes_def sample_coinbase_def coinbase_mint_new_def)
  obtain out s where run: "apply_chain_block list_ops sample_hash (shielded_state_new list_ops)
      (Some sample_coinbase) [sample_plain_tx] = (Ok out, s)" and out: "bo_accepted out = [0]"
    by (simp add: apply_chain_block_def shielded_state_new_def mem_new_def tree_new_def ledger_new_def
      ledger_from_totals_full_def sample_coinbase_def coinbase_mint_new_def sample_plain_tx_def block_eval)
  from chain.block_accepted [OF chain.genesis fits run] out show ?thesis
    by (auto simp: accepted_of_def)
qed

theorem bridge_disabled_no_burns_witness:
  "\<exists>s. chain list_ops sample_hash [(Some sample_coinbase, [sample_plain_tx])] s \<and> ss_burns s = acc_new"
proof -
  have "list_all (\<lambda>tx. \<exists>b. from_bundle Some b = Ok tx) (hist_txs [(Some sample_coinbase, [sample_plain_tx])])"
    using sample_plain_tx_extracted by (auto simp: hist_txs_def)
  then show ?thesis
    using bridge_disabled_no_burns sample_plain_chain by blast
qed

end
