(* ===== verification/Chain_Types.thy ===== *)
theory Chain_Types
  imports Prelude_Zkas
begin

text \<open>
  The consensus data types shared by the components: hashes, scripts, outpoints, transactions
  (\<^verbatim>\<open>consensus/core/src/tx.rs\<close>), subnetwork ids (\<^verbatim>\<open>subnets.rs\<close>) and fork activations
  (\<^verbatim>\<open>config/params.rs\<close>). A \<^verbatim>\<open>Hash\<close> is its 32 bytes.
\<close>

type_synonym hash = bytes

section \<open>Scripts, outpoints, inputs and outputs\<close>

record script_public_key =
  spk_version :: u16
  spk_script :: bytes

definition spk_default :: script_public_key where
  "spk_default = \<lparr>spk_version = 0, spk_script = []\<rparr>"

record tx_outpoint =
  op_transaction_id :: hash
  op_index :: u32

datatype compute_commit = SigopCount u8 | ComputeBudget u16

definition sig_op_count :: "compute_commit \<Rightarrow> u8 option" where
  "sig_op_count c = (case c of SigopCount n \<Rightarrow> Some n | ComputeBudget _ \<Rightarrow> None)"

definition compute_budget :: "compute_commit \<Rightarrow> u16 option" where
  "compute_budget c = (case c of ComputeBudget n \<Rightarrow> Some n | SigopCount _ \<Rightarrow> None)"

definition version_expects_compute_budget_field :: "u16 \<Rightarrow> bool" where
  "version_expects_compute_budget_field version \<longleftrightarrow> 1 \<le> version"

definition version_expects_sig_op_count_field :: "u16 \<Rightarrow> bool" where
  "version_expects_sig_op_count_field version \<longleftrightarrow> \<not> version_expects_compute_budget_field version"

record tx_input =
  ti_previous_outpoint :: tx_outpoint
  ti_signature_script :: bytes
  ti_sequence :: u64
  ti_compute_commit :: compute_commit

record covenant_binding =
  cb_authorizing_input :: u16
  cb_covenant_id :: hash

record tx_output =
  to_value :: u64
  to_script_public_key :: script_public_key
  to_covenant :: "covenant_binding option"

definition tx_output_new :: "u64 \<Rightarrow> script_public_key \<Rightarrow> tx_output" where
  "tx_output_new v spk = \<lparr>to_value = v, to_script_public_key = spk, to_covenant = None\<rparr>"

record genesis_covenant_group =
  gg_authorizing_input :: u16
  gg_outputs :: "u32 list"

section \<open>Transactions\<close>

record transaction =
  tx_version :: u16
  tx_inputs :: "tx_input list"
  tx_outputs :: "tx_output list"
  tx_lock_time :: u64
  tx_subnetwork_id :: bytes
  tx_gas :: u64
  tx_payload :: bytes
  tx_storage_mass :: u64
  tx_id :: hash

definition TX_VERSION :: u16 where "TX_VERSION = 0"
definition TX_VERSION_TOCCATA :: u16 where "TX_VERSION_TOCCATA = 1"
definition TX_VERSION_SHIELDED :: u16 where "TX_VERSION_SHIELDED = 2"

definition SUBNETWORK_ID_SIZE :: nat where "SUBNETWORK_ID_SIZE = 20"

definition subnetwork_from_byte :: "u8 \<Rightarrow> bytes" where
  "subnetwork_from_byte b = (replicate SUBNETWORK_ID_SIZE 0)[0 := b]"

definition SUBNETWORK_ID_NATIVE :: bytes where "SUBNETWORK_ID_NATIVE = subnetwork_from_byte 0"
definition SUBNETWORK_ID_COINBASE :: bytes where "SUBNETWORK_ID_COINBASE = subnetwork_from_byte 1"
definition SUBNETWORK_ID_REGISTRY :: bytes where "SUBNETWORK_ID_REGISTRY = subnetwork_from_byte 2"

definition subnetwork_is_builtin :: "bytes \<Rightarrow> bool" where
  "subnetwork_is_builtin s \<longleftrightarrow> s = SUBNETWORK_ID_COINBASE \<or> s = SUBNETWORK_ID_REGISTRY"

definition subnetwork_is_native :: "bytes \<Rightarrow> bool" where
  "subnetwork_is_native s \<longleftrightarrow> s = SUBNETWORK_ID_NATIVE"

definition subnetwork_is_builtin_or_native :: "bytes \<Rightarrow> bool" where
  "subnetwork_is_builtin_or_native s \<longleftrightarrow> subnetwork_is_native s \<or> subnetwork_is_builtin s"

definition tx_new_non_finalized ::
  "u16 \<Rightarrow> tx_input list \<Rightarrow> tx_output list \<Rightarrow> u64 \<Rightarrow> bytes \<Rightarrow> u64 \<Rightarrow> bytes \<Rightarrow> transaction"
where
  "tx_new_non_finalized version inputs outputs lock_time subnetwork_id gas payload =
     \<lparr>tx_version = version, tx_inputs = inputs, tx_outputs = outputs, tx_lock_time = lock_time,
      tx_subnetwork_id = subnetwork_id, tx_gas = gas, tx_payload = payload, tx_storage_mass = 0,
      tx_id = replicate 32 0\<rparr>"

definition is_coinbase :: "transaction \<Rightarrow> bool" where
  "is_coinbase tx \<longleftrightarrow> tx_subnetwork_id tx = SUBNETWORK_ID_COINBASE"

definition is_shielded :: "transaction \<Rightarrow> bool" where
  "is_shielded tx \<longleftrightarrow> tx_version tx = TX_VERSION_SHIELDED \<and> \<not> is_coinbase tx"

definition shielded_sighash_context :: "transaction \<Rightarrow> bytes" where
  "shielded_sighash_context tx =
     to_le_bytes (tx_version tx) @ tx_subnetwork_id tx @ to_le_bytes (tx_lock_time tx) @ to_le_bytes (tx_gas tx)"

definition set_storage_mass :: "transaction \<Rightarrow> u64 \<Rightarrow> transaction" where
  "set_storage_mass tx mass = tx\<lparr>tx_storage_mass := mass\<rparr>"

section \<open>GHOSTDAG data of a block\<close>

type_synonym u192 = "192 word"

record ghostdag_data =
  gd_blue_score :: u64
  gd_blue_work :: u192
  gd_selected_parent :: hash
  gd_mergeset_blues :: "hash list"
  gd_mergeset_reds :: "hash list"
  gd_blues_anticone_sizes :: "hash \<rightharpoonup> u16"

section \<open>Fork activations\<close>

record fork_activation =
  fa_score :: u64

definition fork_never :: fork_activation where "fork_never = \<lparr>fa_score = - 1\<rparr>"
definition fork_always :: fork_activation where "fork_always = \<lparr>fa_score = 0\<rparr>"

definition is_active :: "fork_activation \<Rightarrow> u64 \<Rightarrow> bool" where
  "is_active fa current_daa_score \<longleftrightarrow> fa_score fa \<le> current_daa_score"

definition delayed_by :: "fork_activation \<Rightarrow> u64 \<Rightarrow> fork_activation" where
  "delayed_by fa delta =
     (if fa = fork_always \<or> fa = fork_never then fa else \<lparr>fa_score = saturating_add (fa_score fa) delta\<rparr>)"

definition early_by :: "fork_activation \<Rightarrow> u64 \<Rightarrow> fork_activation" where
  "early_by fa delta =
     (if fa = fork_always \<or> fa = fork_never then fa else \<lparr>fa_score = saturating_sub (fa_score fa) delta\<rparr>)"

definition is_within_range_from_activation :: "fork_activation \<Rightarrow> u64 \<Rightarrow> u64 \<Rightarrow> ('e, bool) outcome" where
  "is_within_range_from_activation fa current_daa_score span =
     (if fa \<noteq> fork_always \<and> is_active fa current_daa_score
      then bind_outcome (add_p (fa_score fa) span) (\<lambda>e. Ok (current_daa_score < e))
      else Ok False)"

definition is_within_range_before_activation ::
  "fork_activation \<Rightarrow> u64 \<Rightarrow> u64 \<Rightarrow> ('e, u64 option) outcome"
where
  "is_within_range_before_activation fa current_daa_score span =
     (if is_active fa current_daa_score then Ok None
      else bind_outcome (add_p current_daa_score span) (\<lambda>e.
           if fa_score fa < e
           then bind_outcome (sub_p (fa_score fa) current_daa_score) (\<lambda>d. Ok (Some d))
           else Ok None))"

record 'a forked_param =
  fp_pre :: 'a
  fp_post :: 'a
  fp_activation :: fork_activation

definition forked_const :: "'a \<Rightarrow> 'a forked_param" where
  "forked_const v = \<lparr>fp_pre = v, fp_post = v, fp_activation = fork_never\<rparr>"

definition forked_get :: "'a forked_param \<Rightarrow> u64 \<Rightarrow> 'a" where
  "forked_get p daa_score = (if is_active (fp_activation p) daa_score then fp_post p else fp_pre p)"

definition forked_before :: "'a forked_param \<Rightarrow> 'a" where
  "forked_before p = (if fp_activation p = fork_always then fp_post p else fp_pre p)"

definition forked_after :: "'a forked_param \<Rightarrow> 'a" where
  "forked_after p = (if fp_activation p = fork_never then fp_pre p else fp_post p)"

definition with_delayed_activation :: "'a forked_param \<Rightarrow> u64 \<Rightarrow> 'a forked_param" where
  "with_delayed_activation p delay =
     \<lparr>fp_pre = fp_pre p, fp_post = fp_post p, fp_activation = delayed_by (fp_activation p) delay\<rparr>"

lemma forked_get_before: "daa_score < fa_score (fp_activation p) \<Longrightarrow> forked_get p daa_score = forked_before p"
  by (auto simp: forked_get_def forked_before_def is_active_def fork_always_def)

lemma forked_get_after:
  assumes "is_active (fp_activation p) daa_score" and "fp_activation p \<noteq> fork_never"
  shows "forked_get p daa_score = forked_after p"
  using assms by (simp add: forked_get_def forked_after_def)

end
