(* ===== verification/Prefix_Codes.thy ===== *)
theory Prefix_Codes
  imports Prelude_Zkas
begin

text \<open>
  Uniquely decodable byte encodings. A writer of the source that feeds a hasher is a function into
  bytes; \<open>decodable P p\<close> says that under the width conditions \<open>P\<close> a printed value can be told apart
  from every other whatever follows it, so that a concatenation of such fields commits to each field.
  The file also has the \<^verbatim>\<open>HasherExtensions\<close> writers (\<^verbatim>\<open>consensus/core/src/hashing/mod.rs\<close>).
\<close>

section \<open>Writers\<close>

definition write_len :: "nat \<Rightarrow> bytes" where
  "write_len n = to_le_bytes (of_nat n :: u64)"

definition write_bool :: "bool \<Rightarrow> bytes" where
  "write_bool element = (if element then [1] else [0])"

definition write_var_bytes :: "bytes \<Rightarrow> bytes" where
  "write_var_bytes bs = write_len (length bs) @ bs"

definition write_var_array :: "bytes list \<Rightarrow> bytes" where
  "write_var_array arr = write_len (length arr) @ concat arr"

section \<open>Unique decodability\<close>

definition decodable :: "('a \<Rightarrow> bool) \<Rightarrow> ('a \<Rightarrow> bytes) \<Rightarrow> bool" where
  "decodable P p \<longleftrightarrow> (\<forall>x y r s. P x \<and> P y \<and> p x @ r = p y @ s \<longrightarrow> x = y \<and> r = s)"

lemma decodableI:
  "(\<And>x y r s. P x \<Longrightarrow> P y \<Longrightarrow> p x @ r = p y @ s \<Longrightarrow> x = y \<and> r = s) \<Longrightarrow> decodable P p"
  unfolding decodable_def by blast

lemma decodableD:
  "decodable P p \<Longrightarrow> P x \<Longrightarrow> P y \<Longrightarrow> p x @ r = p y @ s \<Longrightarrow> x = y \<and> r = s"
  unfolding decodable_def by blast

lemma decodable_inj: "decodable P p \<Longrightarrow> P x \<Longrightarrow> P y \<Longrightarrow> p x = p y \<Longrightarrow> x = y"
  using decodableD [of P p x y "[]" "[]"] by simp

lemma decodable_fixed: "decodable (\<lambda>bs. length bs = n) (\<lambda>bs. bs)"
  by (rule decodableI) simp

lemma decodable_le:
  assumes "8 dvd LENGTH('w::len)"
  shows "decodable (\<lambda>_. True) (to_le_bytes :: 'w word \<Rightarrow> bytes)"
proof (rule decodableI)
  fix x y :: "'w word" and r s
  assume "to_le_bytes x @ r = to_le_bytes y @ s"
  then have "to_le_bytes x = to_le_bytes y" and "r = s" by simp_all
  then show "x = y \<and> r = s" using from_le_to_le [OF assms] by metis
qed

lemma len64_unat: "n < 2 ^ 64 \<Longrightarrow> unat (of_nat n :: u64) = n"
  by (simp add: unat_of_nat)

lemma decodable_len: "decodable (\<lambda>n. n < 2 ^ 64) write_len"
proof (rule decodableI)
  fix x y :: nat and r s
  assume b: "x < 2 ^ 64" "y < 2 ^ 64" and eq: "write_len x @ r = write_len y @ s"
  have "decodable (\<lambda>_. True) (to_le_bytes :: u64 \<Rightarrow> bytes)" by (rule decodable_le) simp
  from decodableD [OF this, where x = "of_nat x" and y = "of_nat y" and r = r and s = s] eq
  have "(of_nat x :: u64) = of_nat y" "r = s" by (auto simp: write_len_def)
  then show "x = y \<and> r = s"
    using b by (metis len64_unat)
qed

lemma decodable_bool: "decodable (\<lambda>_. True) write_bool"
  by (rule decodableI) (auto simp: write_bool_def split: if_splits)

lemma decodable_dep:
  assumes p: "decodable P p" and q: "\<And>x. P x \<Longrightarrow> decodable (Q x) (q x)"
  shows "decodable (\<lambda>(x, y). P x \<and> Q x y) (\<lambda>(x, y). p x @ q x y)"
proof (rule decodableI)
  fix a b :: "'a \<times> 'b" and r s
  assume "case a of (x, y) \<Rightarrow> P x \<and> Q x y" "case b of (x, y) \<Rightarrow> P x \<and> Q x y"
    and "(case a of (x, y) \<Rightarrow> p x @ q x y) @ r = (case b of (x, y) \<Rightarrow> p x @ q x y) @ s"
  then obtain x y x' y' where ab: "a = (x, y)" "b = (x', y')"
    and ok: "P x" "Q x y" "P x'" "Q x' y'" and eq: "p x @ q x y @ r = p x' @ q x' y' @ s"
    by (auto split: prod.splits)
  from decodableD [OF p ok(1,3) eq] have "x = x'" "q x y @ r = q x' y' @ s" by auto
  with decodableD [OF q [OF ok(1)], of y y' r s] ok show "a = b \<and> r = s" by (simp add: ab)
qed

lemma decodable_var: "decodable (\<lambda>bs. length bs < 2 ^ 64) write_var_bytes"
proof (rule decodableI)
  fix x y :: bytes and r s
  assume b: "length x < 2 ^ 64" "length y < 2 ^ 64" and eq: "write_var_bytes x @ r = write_var_bytes y @ s"
  then have "length x = length y" "x @ r = y @ s"
    using decodableD [OF decodable_len, of "length x" "length y" "x @ r" "y @ s"]
    by (auto simp: write_var_bytes_def)
  then show "x = y \<and> r = s" by simp
qed

lemma decodable_concat:
  assumes p: "decodable P p"
  shows "list_all P xs \<Longrightarrow> list_all P ys \<Longrightarrow> length xs = length ys
    \<Longrightarrow> concat (map p xs) @ r = concat (map p ys) @ s \<Longrightarrow> xs = ys \<and> r = s"
proof (induction xs arbitrary: ys)
  case Nil
  then show ?case by simp
next
  case (Cons x xs)
  then obtain y ys' where ys: "ys = y # ys'" by (cases ys) auto
  with Cons.prems have "x = y \<and> concat (map p xs) @ r = concat (map p ys') @ s"
    by (intro decodableD [OF p]) auto
  with Cons ys show ?case by auto
qed

lemma decodable_list:
  assumes p: "decodable P p"
  shows "decodable (\<lambda>xs. length xs < 2 ^ 64 \<and> list_all P xs) (\<lambda>xs. write_len (length xs) @ concat (map p xs))"
proof (rule decodableI)
  fix xs ys :: "'a list" and r s
  assume ok: "length xs < 2 ^ 64 \<and> list_all P xs" "length ys < 2 ^ 64 \<and> list_all P ys"
    and eq: "(write_len (length xs) @ concat (map p xs)) @ r = (write_len (length ys) @ concat (map p ys)) @ s"
  have "length xs = length ys \<and> concat (map p xs) @ r = concat (map p ys) @ s"
    using ok eq by (intro decodableD [OF decodable_len]) auto
  with ok show "xs = ys \<and> r = s" by (intro decodable_concat [OF p]) auto
qed

text \<open>A writer composed with an injective view of the value is decodable on the view.\<close>

lemma decodable_view:
  assumes "decodable P p" and "\<And>x. q x = p (v x)" and "P (v x)" "P (v y)" and "q x @ r = q y @ s"
  shows "v x = v y \<and> r = s"
  using decodableD [OF assms(1), of "v x" "v y" r s] assms by simp

end
