(* ===== verification/Tx_Hashing.thy ===== *)
theory Tx_Hashing
  imports Chain_Types Prefix_Codes
begin

text \<open>
  Transaction hashes and identifiers (\<^verbatim>\<open>consensus/core/src/hashing/tx.rs\<close>,
  \<^verbatim>\<open>hashing/covenant_id.rs\<close>), the hashers of \<^verbatim>\<open>crypto/hashes/src/hashers.rs\<close>, and the transaction
  operations of \<^verbatim>\<open>consensus/core/src/tx.rs\<close> that compute them.

  The keyed BLAKE2b and BLAKE3 functions are third-party code: one parameter \<open>H\<close> maps the algorithm,
  the key and the message to the digest. A collision is therefore a collision across both algorithms
  and all keys.
\<close>

section \<open>Hashers\<close>

datatype hash_alg = Blake2bKeyed | Blake3Keyed

type_synonym hash_query = "hash_alg \<times> bytes \<times> bytes"

definition blake2b_query :: "string \<Rightarrow> bytes \<Rightarrow> hash_query" where
  "blake2b_query domain msg = (Blake2bKeyed, ascii_bytes domain, msg)"

definition blake3_key :: "string \<Rightarrow> bytes" where
  "blake3_key domain = ascii_bytes domain @ replicate (32 - length domain) 0"

definition blake3_query :: "string \<Rightarrow> bytes \<Rightarrow> hash_query" where
  "blake3_query domain msg = (Blake3Keyed, blake3_key domain, msg)"

section \<open>Encoding\<close>

definition EXCLUDE_SIGNATURE_SCRIPT :: u8 where "EXCLUDE_SIGNATURE_SCRIPT = 1"
definition EXCLUDE_MASS_COMMIT :: u8 where "EXCLUDE_MASS_COMMIT = 2"
definition EXCLUDE_PAYLOAD :: u8 where "EXCLUDE_PAYLOAD = 4"
definition FULL :: u8 where "FULL = 0"

definition flags_contain :: "u8 \<Rightarrow> u8 \<Rightarrow> bool" where
  "flags_contain flags f \<longleftrightarrow> and flags f = f"

definition write_outpoint :: "tx_outpoint \<Rightarrow> bytes" where
  "write_outpoint outpoint = op_transaction_id outpoint @ to_le_bytes (op_index outpoint)"

definition write_input :: "u16 \<Rightarrow> u8 \<Rightarrow> tx_input \<Rightarrow> bytes" where
  "write_input version flags input =
     write_outpoint (ti_previous_outpoint input)
     @ (if \<not> flags_contain flags EXCLUDE_SIGNATURE_SCRIPT
        then write_var_bytes (ti_signature_script input)
          @ (if version_expects_sig_op_count_field version
             then [case sig_op_count (ti_compute_commit input) of Some n \<Rightarrow> n | None \<Rightarrow> 0] else [])
        else write_var_bytes [])
     @ to_le_bytes (ti_sequence input)
     @ (if \<not> flags_contain flags EXCLUDE_MASS_COMMIT \<and> version_expects_compute_budget_field version
        then to_le_bytes (case compute_budget (ti_compute_commit input) of Some n \<Rightarrow> n | None \<Rightarrow> 0) else [])"

definition write_output :: "u16 \<Rightarrow> tx_output \<Rightarrow> bytes" where
  "write_output version output =
     to_le_bytes (to_value output) @ to_le_bytes (spk_version (to_script_public_key output))
     @ write_var_bytes (spk_script (to_script_public_key output))
     @ (if 1 \<le> version
        then write_bool (to_covenant output \<noteq> None)
          @ (case to_covenant output of
               None \<Rightarrow> []
             | Some covenant \<Rightarrow> to_le_bytes (cb_authorizing_input covenant) @ cb_covenant_id covenant)
        else [])"

definition write_transaction :: "u8 \<Rightarrow> transaction \<Rightarrow> bytes" where
  "write_transaction flags tx =
     to_le_bytes (tx_version tx)
     @ write_len (length (tx_inputs tx)) @ concat (map (write_input (tx_version tx) flags) (tx_inputs tx))
     @ write_len (length (tx_outputs tx)) @ concat (map (write_output (tx_version tx)) (tx_outputs tx))
     @ to_le_bytes (tx_lock_time tx) @ tx_subnetwork_id tx @ to_le_bytes (tx_gas tx)
     @ (if \<not> flags_contain flags EXCLUDE_PAYLOAD then write_var_bytes (tx_payload tx) else write_var_bytes [])
     @ (if \<not> flags_contain flags EXCLUDE_MASS_COMMIT
        then (if tx_version tx < 1
              then (if 0 < tx_storage_mass tx then to_le_bytes (tx_storage_mass tx) else [])
              else to_le_bytes (tx_storage_mass tx))
        else [])"

section \<open>Hashes and identifiers\<close>

definition tx_hash :: "(hash_query \<Rightarrow> hash) \<Rightarrow> transaction \<Rightarrow> hash" where
  "tx_hash H tx = H (blake2b_query ''TransactionHash'' (write_transaction FULL tx))"

definition tx_hash_pre_crescendo :: "(hash_query \<Rightarrow> hash) \<Rightarrow> transaction \<Rightarrow> hash" where
  "tx_hash_pre_crescendo H tx =
     H (blake2b_query ''TransactionHash'' (write_transaction EXCLUDE_MASS_COMMIT tx))"

definition v0_id_preimage :: "transaction \<Rightarrow> bytes" where
  "v0_id_preimage tx = write_transaction (or EXCLUDE_SIGNATURE_SCRIPT EXCLUDE_MASS_COMMIT) tx"

definition id_v0 :: "(hash_query \<Rightarrow> hash) \<Rightarrow> transaction \<Rightarrow> hash" where
  "id_v0 H tx = H (blake2b_query ''TransactionID'' (v0_id_preimage tx))"

definition write_rest_preimage :: "transaction \<Rightarrow> bytes" where
  "write_rest_preimage tx =
     write_transaction (or (or EXCLUDE_PAYLOAD EXCLUDE_SIGNATURE_SCRIPT) EXCLUDE_MASS_COMMIT) tx"

definition ZERO_PAYLOAD_DIGEST :: hash where
  "ZERO_PAYLOAD_DIGEST = [
     156, 12, 162, 172, 180, 94, 146, 255, 230, 206, 180, 174, 41, 24, 139, 53, 200, 45, 150, 118, 205, 211,
     206, 6, 127, 214, 204, 195, 10, 156, 74, 56]"

definition payload_digest :: "(hash_query \<Rightarrow> hash) \<Rightarrow> bytes \<Rightarrow> hash" where
  "payload_digest H payload =
     (if payload = [] then ZERO_PAYLOAD_DIGEST else H (blake3_query ''PayloadDigest'' payload))"

definition id_v1 :: "(hash_query \<Rightarrow> hash) \<Rightarrow> transaction \<Rightarrow> hash" where
  "id_v1 H tx =
     H (blake3_query ''TransactionV1Id''
       (payload_digest H (tx_payload tx) @ H (blake3_query ''TransactionRest'' (write_rest_preimage tx))))"

definition transaction_id :: "(hash_query \<Rightarrow> hash) \<Rightarrow> transaction \<Rightarrow> hash" where
  "transaction_id H tx = (if tx_version tx = 0 then id_v0 H tx else id_v1 H tx)"

definition transaction_v0_id_preimage :: "transaction \<Rightarrow> ('e, bytes) outcome" where
  "transaction_v0_id_preimage tx = (if tx_version tx = 0 then Ok (v0_id_preimage tx) else Panic)"

definition transaction_v1_rest_preimage :: "transaction \<Rightarrow> ('e, bytes) outcome" where
  "transaction_v1_rest_preimage tx = (if 1 \<le> tx_version tx then Ok (write_rest_preimage tx) else Panic)"

definition v1_rest_digest :: "(hash_query \<Rightarrow> hash) \<Rightarrow> transaction \<Rightarrow> ('e, hash) outcome" where
  "v1_rest_digest H tx =
     (if 1 \<le> tx_version tx then Ok (H (blake3_query ''TransactionRest'' (write_rest_preimage tx))) else Panic)"

definition finalize :: "(hash_query \<Rightarrow> hash) \<Rightarrow> transaction \<Rightarrow> transaction" where
  "finalize H tx = tx\<lparr>tx_id := transaction_id H tx\<rparr>"

definition transaction_new ::
  "(hash_query \<Rightarrow> hash) \<Rightarrow> u16 \<Rightarrow> tx_input list \<Rightarrow> tx_output list \<Rightarrow> u64 \<Rightarrow> bytes \<Rightarrow> u64 \<Rightarrow> bytes \<Rightarrow> transaction"
where
  "transaction_new H version inputs outputs lock_time subnetwork_id gas payload =
     finalize H (tx_new_non_finalized version inputs outputs lock_time subnetwork_id gas payload)"

definition transaction_new_with_mass ::
  "(hash_query \<Rightarrow> hash) \<Rightarrow> u16 \<Rightarrow> tx_input list \<Rightarrow> tx_output list \<Rightarrow> u64 \<Rightarrow> bytes \<Rightarrow> u64 \<Rightarrow> bytes \<Rightarrow> u64 \<Rightarrow> transaction"
where
  "transaction_new_with_mass H version inputs outputs lock_time subnetwork_id gas payload mass =
     finalize H (set_storage_mass
       (tx_new_non_finalized version inputs outputs lock_time subnetwork_id gas payload) mass)"

section \<open>What an encoding commits to\<close>

text \<open>
  \<open>view_tx flags tx\<close> is the part of a transaction the encoding under \<open>flags\<close> contains: signature scripts,
  payload and storage mass drop out when excluded, the covenant binding and the compute commitment are
  read the way the version reads them, and the cached id is never encoded.
\<close>

definition view_commit :: "u16 \<Rightarrow> u8 \<Rightarrow> compute_commit \<Rightarrow> compute_commit" where
  "view_commit version flags c =
     (if version_expects_compute_budget_field version
      then (if flags_contain flags EXCLUDE_MASS_COMMIT then ComputeBudget 0
            else ComputeBudget (case compute_budget c of Some n \<Rightarrow> n | None \<Rightarrow> 0))
      else (if flags_contain flags EXCLUDE_SIGNATURE_SCRIPT then SigopCount 0
            else SigopCount (case sig_op_count c of Some n \<Rightarrow> n | None \<Rightarrow> 0)))"

definition view_input :: "u16 \<Rightarrow> u8 \<Rightarrow> tx_input \<Rightarrow> tx_input" where
  "view_input version flags i = i\<lparr>
     ti_signature_script := (if flags_contain flags EXCLUDE_SIGNATURE_SCRIPT then [] else ti_signature_script i),
     ti_compute_commit := view_commit version flags (ti_compute_commit i)\<rparr>"

definition view_output :: "u16 \<Rightarrow> tx_output \<Rightarrow> tx_output" where
  "view_output version o' = (if 1 \<le> version then o' else o'\<lparr>to_covenant := None\<rparr>)"

definition view_tx :: "u8 \<Rightarrow> transaction \<Rightarrow> transaction" where
  "view_tx flags tx = tx\<lparr>
     tx_inputs := map (view_input (tx_version tx) flags) (tx_inputs tx),
     tx_outputs := map (view_output (tx_version tx)) (tx_outputs tx),
     tx_payload := (if flags_contain flags EXCLUDE_PAYLOAD then [] else tx_payload tx),
     tx_storage_mass := (if flags_contain flags EXCLUDE_MASS_COMMIT then 0 else tx_storage_mass tx),
     tx_id := []\<rparr>"

text \<open>The widths the Rust types guarantee.\<close>

definition input_widths :: "tx_input \<Rightarrow> bool" where
  "input_widths i \<longleftrightarrow> length (op_transaction_id (ti_previous_outpoint i)) = 32
     \<and> length (ti_signature_script i) < 2 ^ 64"

definition output_widths :: "tx_output \<Rightarrow> bool" where
  "output_widths o' \<longleftrightarrow> length (spk_script (to_script_public_key o')) < 2 ^ 64
     \<and> (case to_covenant o' of None \<Rightarrow> True | Some c \<Rightarrow> length (cb_covenant_id c) = 32)"

definition tx_widths :: "transaction \<Rightarrow> bool" where
  "tx_widths tx \<longleftrightarrow> length (tx_inputs tx) < 2 ^ 64 \<and> list_all input_widths (tx_inputs tx)
     \<and> length (tx_outputs tx) < 2 ^ 64 \<and> list_all output_widths (tx_outputs tx)
     \<and> length (tx_subnetwork_id tx) = SUBNETWORK_ID_SIZE \<and> length (tx_payload tx) < 2 ^ 64"

lemma write_input_view: "write_input v fl (view_input v fl i) = write_input v fl i"
  by (auto simp: write_input_def view_input_def view_commit_def version_expects_sig_op_count_field_def
    sig_op_count_def compute_budget_def split: compute_commit.splits)

lemma view_input_idem: "view_input v fl (view_input v fl i) = view_input v fl i"
  by (auto simp: view_input_def view_commit_def sig_op_count_def compute_budget_def split: compute_commit.splits)

lemma input_widths_view: "input_widths i \<Longrightarrow> input_widths (view_input v fl i)"
  by (auto simp: input_widths_def view_input_def)

lemma write_var_cancel:
  assumes "length x < 2 ^ 64" "length y < 2 ^ 64"
  shows "write_var_bytes x @ r = write_var_bytes y @ s \<longleftrightarrow> x = y \<and> r = s"
  using decodableD [OF decodable_var, of x y r s] assms by blast

lemma write_outpoint_cancel:
  assumes "length (op_transaction_id p) = 32" "length (op_transaction_id q) = 32"
  shows "write_outpoint p @ r = write_outpoint q @ s \<longleftrightarrow> p = q \<and> r = s"
  using assms by (auto simp: write_outpoint_def intro: tx_outpoint.equality)

lemma decodable_input:
  "decodable (\<lambda>i. input_widths i \<and> view_input v fl i = i) (write_input v fl)"
proof (rule decodableI)
  fix i j r s
  assume i: "input_widths i \<and> view_input v fl i = i" and j: "input_widths j \<and> view_input v fl j = j"
    and eq: "write_input v fl i @ r = write_input v fl j @ s"
  obtain op sg sq c where fi: "i = \<lparr>ti_previous_outpoint = op, ti_signature_script = sg, ti_sequence = sq, ti_compute_commit = c\<rparr>"
    by (cases i)
  obtain op' sg' sq' c' where fj: "j = \<lparr>ti_previous_outpoint = op', ti_signature_script = sg', ti_sequence = sq', ti_compute_commit = c'\<rparr>"
    by (cases j)
  have c: "view_commit v fl c = c" "view_commit v fl c' = c'"
    using i j by (auto simp: fi fj view_input_def)
  have sg: "flags_contain fl EXCLUDE_SIGNATURE_SCRIPT \<Longrightarrow> sg = [] \<and> sg' = []"
    using i j by (auto simp: fi fj view_input_def)
  have ops: "length (op_transaction_id op) = 32" "length (op_transaction_id op') = 32"
    using i j by (auto simp: fi fj input_widths_def)
  have w: "length sg < 2 ^ 64" "length sg' < 2 ^ 64" using i j by (auto simp: fi fj input_widths_def)
  note eq' = eq [unfolded fi fj write_input_def tx_input.select_convs append_assoc
    write_outpoint_cancel [OF ops]]
  have all: "op = op' \<and> sg = sg' \<and> sq = sq' \<and> view_commit v fl c = view_commit v fl c' \<and> r = s"
  proof (cases "flags_contain fl EXCLUDE_SIGNATURE_SCRIPT")
    case True
    with eq' sg [OF True] show ?thesis
      by (cases "flags_contain fl EXCLUDE_MASS_COMMIT"; cases "version_expects_compute_budget_field v")
        (simp_all add: view_commit_def)
  next
    case False
    with eq' show ?thesis
      by (simp add: write_var_cancel [OF w] view_commit_def version_expects_sig_op_count_field_def split: if_splits)
  qed
  then have "c = c'" using c by metis
  then show "i = j \<and> r = s" using all by (simp add: fi fj)
qed

lemma write_output_view: "write_output v (view_output v o') = write_output v o'"
  by (auto simp: write_output_def view_output_def)

lemma output_widths_view: "output_widths o' \<Longrightarrow> output_widths (view_output v o')"
  by (auto simp: output_widths_def view_output_def)

lemma view_output_idem: "view_output v (view_output v o') = view_output v o'"
  by (simp add: view_output_def)

lemma decodable_output: "decodable (\<lambda>o'. output_widths o' \<and> view_output v o' = o') (write_output v)"
proof (rule decodableI)
  fix i j r s
  assume i: "output_widths i \<and> view_output v i = i" and j: "output_widths j \<and> view_output v j = j"
    and eq: "write_output v i @ r = write_output v j @ s"
  obtain x spk c where fi: "i = \<lparr>to_value = x, to_script_public_key = spk, to_covenant = c\<rparr>" by (cases i)
  obtain x' spk' c' where fj: "j = \<lparr>to_value = x', to_script_public_key = spk', to_covenant = c'\<rparr>" by (cases j)
  have w: "length (spk_script spk) < 2 ^ 64" "length (spk_script spk') < 2 ^ 64"
    using i j by (auto simp: fi fj output_widths_def)
  have none: "\<not> 1 \<le> v \<Longrightarrow> c = None \<and> c' = None"
    using i j by (auto simp: fi fj view_output_def)
  have cw: "length (cb_covenant_id d) = 32" if "c = Some d \<or> c' = Some d" for d
    using i j that by (auto simp: fi fj output_widths_def)
  note eq' = eq [unfolded fi fj write_output_def tx_output.select_convs append_assoc]
  have head: "x = x'" "spk = spk'" and tail:
      "(if 1 \<le> v then write_bool (c \<noteq> None) @ (case c of None \<Rightarrow> []
          | Some d \<Rightarrow> to_le_bytes (cb_authorizing_input d) @ cb_covenant_id d) else []) @ r =
       (if 1 \<le> v then write_bool (c' \<noteq> None) @ (case c' of None \<Rightarrow> []
          | Some d \<Rightarrow> to_le_bytes (cb_authorizing_input d) @ cb_covenant_id d) else []) @ s"
    using eq' by (simp_all add: write_var_cancel [OF w] script_public_key.equality)
  have "c = c' \<and> r = s"
  proof (cases "1 \<le> v")
    case True
    with tail cw show ?thesis
      by (cases c; cases c') (simp_all add: write_bool_def covenant_binding.equality)
  next
    case False
    with tail none show ?thesis by simp
  qed
  with head have "x = x' \<and> spk = spk' \<and> c = c' \<and> r = s" by simp
  then show "i = j \<and> r = s" by (simp add: fi fj)
qed

lemma view_list:
  assumes "decodable (\<lambda>x. P x \<and> w x = x) p" and "\<And>x. p (w x) = p x" and "\<And>x. w (w x) = w x"
    and "\<And>x. P x \<Longrightarrow> P (w x)"
    and "length xs < 2 ^ 64" "list_all P xs" "length ys < 2 ^ 64" "list_all P ys"
    and eq: "write_len (length xs) @ concat (map p xs) @ r = write_len (length ys) @ concat (map p ys) @ s"
  shows "map w xs = map w ys \<and> r = s"
proof -
  have same: "map p (map w zs) = map p zs" for zs using assms(2) by simp
  have ok: "list_all (\<lambda>x. P x \<and> w x = x) (map w zs)" if "list_all P zs" for zs
    using that assms(3,4) by (induction zs) auto
  have "(write_len (length (map w xs)) @ concat (map p (map w xs))) @ r =
      (write_len (length (map w ys)) @ concat (map p (map w ys))) @ s"
    using eq by (simp only: same length_map append_assoc)
  then show ?thesis
    using decodableD [OF decodable_list [OF assms(1)], of "map w xs" "map w ys" r s] ok assms(5-8) by simp
qed

lemma le_u64_cancel: "to_le_bytes (a :: u64) @ r = to_le_bytes b @ s \<longleftrightarrow> a = b \<and> r = s"
  by simp

lemma mass_cancel:
  "(if c then (if 0 < a then to_le_bytes a else []) else to_le_bytes a)
     = (if c then (if 0 < b then to_le_bytes b else []) else to_le_bytes b) \<longleftrightarrow> a = b" for a b :: u64
proof -
  have len: "length (to_le_bytes d) = 8" for d :: u64 by simp
  have "to_le_bytes d \<noteq> []" for d :: u64
    using len [of d] by (metis list.size(3) zero_neq_numeral)
  from this this [symmetric] show ?thesis by (auto simp: word_gt_0)
qed

lemma write_transaction_view:
  assumes w: "tx_widths t" "tx_widths t'" and eq: "write_transaction fl t = write_transaction fl t'"
  shows "view_tx fl t = view_tx fl t'"
proof -
  note eq' = eq [unfolded write_transaction_def]
  have v: "tx_version t = tx_version t'" using eq' by simp
  let ?v = "tx_version t'"
  let ?rest = "\<lambda>t. to_le_bytes (tx_lock_time t) @ tx_subnetwork_id t @ to_le_bytes (tx_gas t)
     @ (if \<not> flags_contain fl EXCLUDE_PAYLOAD then write_var_bytes (tx_payload t) else write_var_bytes [])
     @ (if \<not> flags_contain fl EXCLUDE_MASS_COMMIT
        then (if tx_version t < 1
              then (if 0 < tx_storage_mass t then to_le_bytes (tx_storage_mass t) else [])
              else to_le_bytes (tx_storage_mass t))
        else [])"
  let ?outs = "\<lambda>t. write_len (length (tx_outputs t)) @ concat (map (write_output ?v) (tx_outputs t)) @ ?rest t"
  have ins_eq: "write_len (length (tx_inputs t)) @ concat (map (write_input ?v fl) (tx_inputs t)) @ ?outs t =
      write_len (length (tx_inputs t')) @ concat (map (write_input ?v fl) (tx_inputs t')) @ ?outs t'"
    using eq' unfolding v by (simp only: append_assoc same_append_eq)
  note wf = w [unfolded tx_widths_def]
  have ins: "map (view_input ?v fl) (tx_inputs t) = map (view_input ?v fl) (tx_inputs t') \<and> ?outs t = ?outs t'"
    by (rule view_list [OF decodable_input write_input_view view_input_idem input_widths_view _ _ _ _ ins_eq])
      (use wf in blast)+
  then have outs_eq: "?outs t = ?outs t'" by blast
  have outs: "map (view_output ?v) (tx_outputs t) = map (view_output ?v) (tx_outputs t') \<and> ?rest t = ?rest t'"
    by (rule view_list [OF decodable_output write_output_view view_output_idem output_widths_view _ _ _ _ outs_eq])
      (use wf in blast)+
  then have rest: "?rest t = ?rest t'" by blast
  have sub: "length (tx_subnetwork_id t) = length (tx_subnetwork_id t')"
    and pay: "length (tx_payload t) < 2 ^ 64" "length (tx_payload t') < 2 ^ 64"
    using wf by (simp_all only:)
  have sub_cancel: "tx_subnetwork_id t @ r = tx_subnetwork_id t' @ s \<longleftrightarrow>
      tx_subnetwork_id t = tx_subnetwork_id t' \<and> r = s" for r s using sub by simp
  have "tx_lock_time t = tx_lock_time t'" "tx_subnetwork_id t = tx_subnetwork_id t'" "tx_gas t = tx_gas t'"
    and tail: "(if \<not> flags_contain fl EXCLUDE_PAYLOAD then write_var_bytes (tx_payload t) else write_var_bytes [])
     @ (if \<not> flags_contain fl EXCLUDE_MASS_COMMIT
        then (if tx_version t < 1
              then (if 0 < tx_storage_mass t then to_le_bytes (tx_storage_mass t) else [])
              else to_le_bytes (tx_storage_mass t))
        else []) = (if \<not> flags_contain fl EXCLUDE_PAYLOAD then write_var_bytes (tx_payload t') else write_var_bytes [])
     @ (if \<not> flags_contain fl EXCLUDE_MASS_COMMIT
        then (if tx_version t' < 1
              then (if 0 < tx_storage_mass t' then to_le_bytes (tx_storage_mass t') else [])
              else to_le_bytes (tx_storage_mass t'))
        else [])"
    using rest by (simp_all only: le_u64_cancel sub_cancel)
  moreover have "(if flags_contain fl EXCLUDE_PAYLOAD then [] else tx_payload t)
        = (if flags_contain fl EXCLUDE_PAYLOAD then [] else tx_payload t')
      \<and> (if flags_contain fl EXCLUDE_MASS_COMMIT then 0 else tx_storage_mass t)
        = (if flags_contain fl EXCLUDE_MASS_COMMIT then 0 else tx_storage_mass t')"
    using tail unfolding v
    by (cases "flags_contain fl EXCLUDE_PAYLOAD"; cases "flags_contain fl EXCLUDE_MASS_COMMIT")
      (simp_all add: write_var_cancel [OF pay] mass_cancel write_var_cancel [OF pay, where r = "[]" and s = "[]", simplified])
  ultimately show ?thesis
    using v ins outs by (simp add: view_tx_def)
qed

section \<open>Identifiers\<close>

definition id_view :: "transaction \<Rightarrow> transaction" where
  "id_view tx = view_tx (or EXCLUDE_SIGNATURE_SCRIPT EXCLUDE_MASS_COMMIT) tx"

definition id_queries :: "(hash_query \<Rightarrow> hash) \<Rightarrow> transaction \<Rightarrow> hash_query set" where
  "id_queries H tx =
     (if tx_version tx = 0 then {blake2b_query ''TransactionID'' (v0_id_preimage tx)}
      else {blake3_query ''TransactionV1Id''
              (payload_digest H (tx_payload tx) @ H (blake3_query ''TransactionRest'' (write_rest_preimage tx))),
            blake3_query ''TransactionRest'' (write_rest_preimage tx),
            blake3_query ''PayloadDigest'' (tx_payload tx)})"

lemma flag_eval [simp]:
  "flags_contain (or EXCLUDE_SIGNATURE_SCRIPT EXCLUDE_MASS_COMMIT) EXCLUDE_SIGNATURE_SCRIPT"
  "flags_contain (or EXCLUDE_SIGNATURE_SCRIPT EXCLUDE_MASS_COMMIT) EXCLUDE_MASS_COMMIT"
  "\<not> flags_contain (or EXCLUDE_SIGNATURE_SCRIPT EXCLUDE_MASS_COMMIT) EXCLUDE_PAYLOAD"
  "flags_contain (or (or EXCLUDE_PAYLOAD EXCLUDE_SIGNATURE_SCRIPT) EXCLUDE_MASS_COMMIT) EXCLUDE_SIGNATURE_SCRIPT"
  "flags_contain (or (or EXCLUDE_PAYLOAD EXCLUDE_SIGNATURE_SCRIPT) EXCLUDE_MASS_COMMIT) EXCLUDE_MASS_COMMIT"
  "flags_contain (or (or EXCLUDE_PAYLOAD EXCLUDE_SIGNATURE_SCRIPT) EXCLUDE_MASS_COMMIT) EXCLUDE_PAYLOAD"
  "\<not> flags_contain FULL EXCLUDE_SIGNATURE_SCRIPT" "\<not> flags_contain FULL EXCLUDE_MASS_COMMIT"
  "\<not> flags_contain FULL EXCLUDE_PAYLOAD"
  by (simp_all add: flags_contain_def EXCLUDE_SIGNATURE_SCRIPT_def EXCLUDE_MASS_COMMIT_def EXCLUDE_PAYLOAD_def
    FULL_def)

text \<open>The encoding of the view is the encoding of the transaction.\<close>

lemma write_transaction_of_view: "write_transaction fl (view_tx fl t) = write_transaction fl t"
  by (simp add: write_transaction_def view_tx_def write_input_view write_output_view comp_def)

lemma rest_preimage_of_view: "write_rest_preimage (id_view t) = write_rest_preimage t"
proof -
  have "write_input v (or (or EXCLUDE_PAYLOAD EXCLUDE_SIGNATURE_SCRIPT) EXCLUDE_MASS_COMMIT)
      (view_input v (or EXCLUDE_SIGNATURE_SCRIPT EXCLUDE_MASS_COMMIT) i) =
    write_input v (or (or EXCLUDE_PAYLOAD EXCLUDE_SIGNATURE_SCRIPT) EXCLUDE_MASS_COMMIT) i" for v i
    by (simp add: write_input_def view_input_def)
  then show ?thesis
    by (simp add: write_rest_preimage_def write_transaction_def id_view_def view_tx_def write_output_view comp_def)
qed

lemma transaction_id_of_view: "transaction_id H (id_view t) = transaction_id H t"
proof -
  have "tx_version (id_view t) = tx_version t" "tx_payload (id_view t) = tx_payload t"
    by (simp_all add: id_view_def view_tx_def)
  moreover have "v0_id_preimage (id_view t) = v0_id_preimage t"
    by (simp add: v0_id_preimage_def id_view_def write_transaction_of_view)
  ultimately show ?thesis
    by (simp add: transaction_id_def id_v0_def id_v1_def rest_preimage_of_view)
qed

lemma view_of_rest:
  assumes "view_tx (or (or EXCLUDE_PAYLOAD EXCLUDE_SIGNATURE_SCRIPT) EXCLUDE_MASS_COMMIT) t =
      view_tx (or (or EXCLUDE_PAYLOAD EXCLUDE_SIGNATURE_SCRIPT) EXCLUDE_MASS_COMMIT) t'"
    and "tx_payload t = tx_payload t'"
  shows "id_view t = id_view t'"
proof -
  have same: "view_input v (or (or EXCLUDE_PAYLOAD EXCLUDE_SIGNATURE_SCRIPT) EXCLUDE_MASS_COMMIT) =
      view_input v (or EXCLUDE_SIGNATURE_SCRIPT EXCLUDE_MASS_COMMIT)" for v
    by (rule ext) (simp add: view_input_def view_commit_def)
  have id_view: "id_view t = (view_tx (or (or EXCLUDE_PAYLOAD EXCLUDE_SIGNATURE_SCRIPT) EXCLUDE_MASS_COMMIT) t)
      \<lparr>tx_payload := tx_payload t\<rparr>" for t
    by (simp add: id_view_def view_tx_def same)
  show ?thesis using assms by (simp add: id_view [of t] id_view [of t'])
qed

lemma payload_digest_binding:
  assumes zero: "H (blake3_query ''PayloadDigest'' []) = ZERO_PAYLOAD_DIGEST"
    and eq: "payload_digest H p = payload_digest H q"
  shows "H (blake3_query ''PayloadDigest'' p) = H (blake3_query ''PayloadDigest'' q)"
  using eq zero by (auto simp: payload_digest_def split: if_splits)

lemma id_v1_binding:
  assumes w: "tx_widths t" "tx_widths t'" and v: "tx_version t \<noteq> 0" "tx_version t' \<noteq> 0"
    and len: "\<And>q. length (H q) = 32"
    and zero: "H (blake3_query ''PayloadDigest'' []) = ZERO_PAYLOAD_DIGEST"
    and eq: "id_v1 H t = id_v1 H t'" and no: "\<not> collision H (id_queries H t) (id_queries H t')"
  shows "id_view t = id_view t'"
proof -
  have q: "x = y" if "x \<in> id_queries H t" "y \<in> id_queries H t'" "H x = H y" for x y
    using no collisionI [OF that(1,2)] that(3) by blast
  have dlen: "length (payload_digest H p) = 32" for p
    by (simp add: payload_digest_def len ZERO_PAYLOAD_DIGEST_def)
  let ?m = "\<lambda>t. payload_digest H (tx_payload t) @ H (blake3_query ''TransactionRest'' (write_rest_preimage t))"
  have members: "blake3_query ''TransactionV1Id'' (?m t) \<in> id_queries H t"
      "blake3_query ''TransactionV1Id'' (?m t') \<in> id_queries H t'"
      "blake3_query ''TransactionRest'' (write_rest_preimage t) \<in> id_queries H t"
      "blake3_query ''TransactionRest'' (write_rest_preimage t') \<in> id_queries H t'"
      "blake3_query ''PayloadDigest'' (tx_payload t) \<in> id_queries H t"
      "blake3_query ''PayloadDigest'' (tx_payload t') \<in> id_queries H t'"
    using v unfolding id_queries_def by (simp_all only: if_False insert_iff simp_thms)
  have inj: "blake3_query d x = blake3_query d y \<Longrightarrow> x = y" for d x y by (simp add: blake3_query_def)
  have "?m t = ?m t'"
    using q [OF members(1,2)] eq unfolding id_v1_def by (blast intro: inj)
  then have pd: "payload_digest H (tx_payload t) = payload_digest H (tx_payload t')"
    and rest: "H (blake3_query ''TransactionRest'' (write_rest_preimage t)) =
      H (blake3_query ''TransactionRest'' (write_rest_preimage t'))"
    using dlen [of "tx_payload t"] dlen [of "tx_payload t'"] by (metis append_eq_append_conv)+
  have "tx_payload t = tx_payload t'"
    using q [OF members(5,6) payload_digest_binding [where H = H, OF zero pd]] by (rule inj)
  moreover have "write_rest_preimage t = write_rest_preimage t'"
    using q [OF members(3,4) rest] by (rule inj)
  then have "view_tx (or (or EXCLUDE_PAYLOAD EXCLUDE_SIGNATURE_SCRIPT) EXCLUDE_MASS_COMMIT) t =
      view_tx (or (or EXCLUDE_PAYLOAD EXCLUDE_SIGNATURE_SCRIPT) EXCLUDE_MASS_COMMIT) t'"
    unfolding write_rest_preimage_def by (rule write_transaction_view [OF w])
  ultimately show ?thesis by (intro view_of_rest)
qed

section \<open>Properties\<close>

text \<open>
  C11. Transaction ids bind and are not malleable. Two transactions with the same id agree on
  everything the id is meant to cover (version, inputs without their signature scripts, outputs,
  lock time, subnetwork, gas, payload), unless the strings hashed for the two ids contain a collision;
  and the id depends on nothing else, so re-signing or re-committing mass never changes it.
\<close>

theorem transaction_id_binding:
  assumes "tx_widths t" "tx_widths t'"
    and len: "\<And>q. length (H q) = 32"
    and zero: "H (blake3_query ''PayloadDigest'' []) = ZERO_PAYLOAD_DIGEST"
  shows "(transaction_id H t = transaction_id H t' \<longrightarrow>
      id_view t = id_view t' \<or> collision H (id_queries H t) (id_queries H t'))
    \<and> (id_view t = id_view t' \<longrightarrow> transaction_id H t = transaction_id H t')"
proof (intro conjI impI)
  assume "id_view t = id_view t'"
  then show "transaction_id H t = transaction_id H t'" by (metis transaction_id_of_view)
next
  assume eq: "transaction_id H t = transaction_id H t'"
  consider (both0) "tx_version t = 0" "tx_version t' = 0" | (both1) "tx_version t \<noteq> 0" "tx_version t' \<noteq> 0"
    | (mixed) "(tx_version t = 0) \<noteq> (tx_version t' = 0)" by blast
  then show "id_view t = id_view t' \<or> collision H (id_queries H t) (id_queries H t')"
  proof cases
    case both0
    show ?thesis
    proof (cases "v0_id_preimage t = v0_id_preimage t'")
      case True
      then show ?thesis
        unfolding id_view_def v0_id_preimage_def using write_transaction_view [OF assms(1,2)] by blast
    next
      case False
      with both0 eq show ?thesis
        by (simp add: collision_def id_queries_def transaction_id_def id_v0_def blake2b_query_def)
    qed
  next
    case both1
    with eq have "id_v1 H t = id_v1 H t'" by (simp add: transaction_id_def)
    then show ?thesis using id_v1_binding [where H = H, OF assms(1,2) both1 len zero] by blast
  next
    case mixed
    with eq show ?thesis
      by (cases "tx_version t = 0")
        (simp_all add: collision_def id_queries_def transaction_id_def id_v0_def id_v1_def
          blake2b_query_def blake3_query_def)
  qed
qed

text \<open>A digest function with the documented properties, for the witness.\<close>

definition sample_digest :: "hash_query \<Rightarrow> hash" where
  "sample_digest = (\<lambda>(a, k, m).
     if (a, k, m) = blake3_query ''PayloadDigest'' [] then ZERO_PAYLOAD_DIGEST
     else replicate 31 (case a of Blake2bKeyed \<Rightarrow> 1 | Blake3Keyed \<Rightarrow> 2) @ [of_nat (length m)])"

lemma sample_digest_blake2b: "sample_digest (blake2b_query d m) = replicate 31 1 @ [of_nat (length m)]"
  by (simp add: sample_digest_def blake2b_query_def blake3_query_def)

definition sample_transaction :: "bytes \<Rightarrow> transaction" where
  "sample_transaction sig = tx_new_non_finalized 0
     [\<lparr>ti_previous_outpoint = \<lparr>op_transaction_id = replicate 32 3, op_index = 2\<rparr>, ti_signature_script = sig,
       ti_sequence = 7, ti_compute_commit = SigopCount 1\<rparr>]
     [tx_output_new 1564 \<lparr>spk_version = 7, spk_script = [1, 2, 3]\<rparr>] 0 SUBNETWORK_ID_NATIVE 0 []"

lemma sample_transaction_widths: "length sig < 2 ^ 64 \<Longrightarrow> tx_widths (sample_transaction sig)"
  by (simp add: tx_widths_def sample_transaction_def tx_new_non_finalized_def input_widths_def output_widths_def
    tx_output_new_def SUBNETWORK_ID_NATIVE_def subnetwork_from_byte_def SUBNETWORK_ID_SIZE_def)

theorem transaction_id_binding_witness:
  "tx_widths (sample_transaction [1]) \<and> tx_widths (sample_transaction [2])
   \<and> sample_transaction [1] \<noteq> sample_transaction [2]
   \<and> transaction_id sample_digest (sample_transaction [1]) = transaction_id sample_digest (sample_transaction [2])"
proof -
  have len: "length (sample_digest q) = 32" for q
    by (cases q) (simp add: sample_digest_def ZERO_PAYLOAD_DIGEST_def)
  have zero: "sample_digest (blake3_query ''PayloadDigest'' []) = ZERO_PAYLOAD_DIGEST"
    by (simp add: sample_digest_def blake3_query_def)
  have w: "tx_widths (sample_transaction [1])" "tx_widths (sample_transaction [2])"
    by (simp_all add: sample_transaction_widths)
  have "id_view (sample_transaction [1]) = id_view (sample_transaction [2])"
    by (simp add: id_view_def view_tx_def sample_transaction_def tx_new_non_finalized_def view_input_def)
  then have "transaction_id sample_digest (sample_transaction [1]) = transaction_id sample_digest (sample_transaction [2])"
    using transaction_id_binding [where H = sample_digest, OF w len zero] by blast
  moreover have "sample_transaction [1] \<noteq> sample_transaction [2]"
    by (simp add: sample_transaction_def tx_new_non_finalized_def)
  ultimately show ?thesis using w by blast
qed

text \<open>
  C12. The transaction hash commits to the whole transaction as its version reads it, signature
  scripts, payload and storage mass included, unless the two hashed strings collide.
\<close>

theorem transaction_hash_binding:
  assumes "tx_widths t" "tx_widths t'" and eq: "tx_hash H t = tx_hash H t'"
  shows "view_tx FULL t = view_tx FULL t' \<or>
    collision H {blake2b_query ''TransactionHash'' (write_transaction FULL t)}
      {blake2b_query ''TransactionHash'' (write_transaction FULL t')}"
proof (cases "write_transaction FULL t = write_transaction FULL t'")
  case True
  then show ?thesis using write_transaction_view [OF assms(1,2)] by blast
next
  case False
  with eq show ?thesis by (simp add: collision_def tx_hash_def blake2b_query_def)
qed

theorem transaction_hash_binding_witness:
  "tx_hash sample_digest (sample_transaction [1]) = tx_hash sample_digest (sample_transaction [2])
   \<and> collision sample_digest {blake2b_query ''TransactionHash'' (write_transaction FULL (sample_transaction [1]))}
      {blake2b_query ''TransactionHash'' (write_transaction FULL (sample_transaction [2]))}"
proof -
  have w: "tx_widths (sample_transaction [1])" "tx_widths (sample_transaction [2])"
    by (simp_all add: sample_transaction_widths)
  have "length (write_transaction FULL (sample_transaction [1])) = length (write_transaction FULL (sample_transaction [2]))"
    by (simp add: sample_transaction_def tx_new_non_finalized_def write_transaction_def write_input_def
      write_var_bytes_def write_len_def)
  then have same: "tx_hash sample_digest (sample_transaction [1]) = tx_hash sample_digest (sample_transaction [2])"
    by (simp add: tx_hash_def sample_digest_blake2b)
  have "view_tx FULL (sample_transaction [1]) \<noteq> view_tx FULL (sample_transaction [2])"
    by (simp add: view_tx_def sample_transaction_def tx_new_non_finalized_def view_input_def)
  with same transaction_hash_binding [OF w same] show ?thesis by blast
qed

end
