(* ===== verification/Block_Subsidy.thy ===== *)
theory Block_Subsidy
  imports Chain_Types
begin

text \<open>
  The emission schedule (\<^verbatim>\<open>consensus/src/processes/coinbase.rs\<close>): the manager's configuration with its
  precomputed monthly tables, the deflationary curve, the two-step perpetual tail and the block
  subsidy. Machine arithmetic keeps its width; a zero block rate is the only way to panic.
\<close>

section \<open>The model\<close>

definition SECONDS_PER_MONTH :: u64 where "SECONDS_PER_MONTH = 2629800"
definition SUBSIDY_HALVING_INTERVAL_MONTHS :: u64 where "SUBSIDY_HALVING_INTERVAL_MONTHS = 3"
definition LEGACY_MONTHS_PER_HALVING :: u64 where "LEGACY_MONTHS_PER_HALVING = 12"
definition REWARD_SCALE_NUM :: u64 where "REWARD_SCALE_NUM = 3"
definition REWARD_SCALE_DEN :: u64 where "REWARD_SCALE_DEN = 22"
definition TAIL_SUBSIDY_INITIAL_PER_SEC_SOMPI :: u64 where "TAIL_SUBSIDY_INITIAL_PER_SEC_SOMPI = 600000000"
definition TAIL_SUBSIDY_FINAL_PER_SEC_SOMPI :: u64 where "TAIL_SUBSIDY_FINAL_PER_SEC_SOMPI = 60000000"
definition TAIL_STEP_DOWN_MONTH :: u64 where "TAIL_STEP_DOWN_MONTH = 24"
definition SUBSIDY_BY_MONTH_TABLE_SIZE :: nat where "SUBSIDY_BY_MONTH_TABLE_SIZE = 426"

lemmas schedule_consts = SECONDS_PER_MONTH_def SUBSIDY_HALVING_INTERVAL_MONTHS_def LEGACY_MONTHS_PER_HALVING_def
  REWARD_SCALE_NUM_def REWARD_SCALE_DEN_def TAIL_SUBSIDY_INITIAL_PER_SEC_SOMPI_def
  TAIL_SUBSIDY_FINAL_PER_SEC_SOMPI_def TAIL_STEP_DOWN_MONTH_def

definition SUBSIDY_BY_MONTH_TABLE :: "nat list" where
  "SUBSIDY_BY_MONTH_TABLE = [
    44000000000, 41530469757, 39199543598, 36999442271, 34922823143, 32962755691, 31112698372,
    29366476791, 27718263097, 26162556530, 24694165062, 23308188075, 22000000000, 20765234878,
    19599771799, 18499721135, 17461411571, 16481377845, 15556349186, 14683238395, 13859131548,
    13081278265, 12347082531, 11654094037, 11000000000, 10382617439, 9799885899, 9249860567, 8730705785,
    8240688922, 7778174593, 7341619197, 6929565774, 6540639132, 6173541265, 5827047018, 5500000000,
    5191308719, 4899942949, 4624930283, 4365352892, 4120344461, 3889087296, 3670809598, 3464782887,
    3270319566, 3086770632, 2913523509, 2750000000, 2595654359, 2449971474, 2312465141, 2182676446,
    2060172230, 1944543648, 1835404799, 1732391443, 1635159783, 1543385316, 1456761754, 1375000000,
    1297827179, 1224985737, 1156232570, 1091338223, 1030086115, 972271824, 917702399, 866195721,
    817579891, 771692658, 728380877, 687500000, 648913589, 612492868, 578116285, 545669111, 515043057,
    486135912, 458851199, 433097860, 408789945, 385846329, 364190438, 343750000, 324456794, 306246434,
    289058142, 272834555, 257521528, 243067956, 229425599, 216548930, 204394972, 192923164, 182095219,
    171875000, 162228397, 153123217, 144529071, 136417277, 128760764, 121533978, 114712799, 108274465,
    102197486, 96461582, 91047609, 85937500, 81114198, 76561608, 72264535, 68208638, 64380382, 60766989,
    57356399, 54137232, 51098743, 48230791, 45523804, 42968750, 40557099, 38280804, 36132267, 34104319,
    32190191, 30383494, 28678199, 27068616, 25549371, 24115395, 22761902, 21484375, 20278549, 19140402,
    18066133, 17052159, 16095095, 15191747, 14339099, 13534308, 12774685, 12057697, 11380951, 10742187,
    10139274, 9570201, 9033066, 8526079, 8047547, 7595873, 7169549, 6767154, 6387342, 6028848, 5690475,
    5371093, 5069637, 4785100, 4516533, 4263039, 4023773, 3797936, 3584774, 3383577, 3193671, 3014424,
    2845237, 2685546, 2534818, 2392550, 2258266, 2131519, 2011886, 1898968, 1792387, 1691788, 1596835,
    1507212, 1422618, 1342773, 1267409, 1196275, 1129133, 1065759, 1005943, 949484, 896193, 845894,
    798417, 753606, 711309, 671386, 633704, 598137, 564566, 532879, 502971, 474742, 448096, 422947,
    399208, 376803, 355654, 335693, 316852, 299068, 282283, 266439, 251485, 237371, 224048, 211473,
    199604, 188401, 177827, 167846, 158426, 149534, 141141, 133219, 125742, 118685, 112024, 105736,
    99802, 94200, 88913, 83923, 79213, 74767, 70570, 66609, 62871, 59342, 56012, 52868, 49901, 47100,
    44456, 41961, 39606, 37383, 35285, 33304, 31435, 29671, 28006, 26434, 24950, 23550, 22228, 20980,
    19803, 18691, 17642, 16652, 15717, 14835, 14003, 13217, 12475, 11775, 11114, 10490, 9901, 9345, 8821,
    8326, 7858, 7417, 7001, 6608, 6237, 5887, 5557, 5245, 4950, 4672, 4410, 4163, 3929, 3708, 3500, 3304,
    3118, 2943, 2778, 2622, 2475, 2336, 2205, 2081, 1964, 1854, 1750, 1652, 1559, 1471, 1389, 1311, 1237,
    1168, 1102, 1040, 982, 927, 875, 826, 779, 735, 694, 655, 618, 584, 551, 520, 491, 463, 437, 413,
    389, 367, 347, 327, 309, 292, 275, 260, 245, 231, 218, 206, 194, 183, 173, 163, 154, 146, 137, 130,
    122, 115, 109, 103, 97, 91, 86, 81, 77, 73, 68, 65, 61, 57, 54, 51, 48, 45, 43, 40, 38, 36, 34, 32,
    30, 28, 27, 25, 24, 22, 21, 20, 19, 18, 17, 16, 15, 14, 13, 12, 12, 11, 10, 10, 9, 9, 8, 8, 7, 7, 6,
    6, 6, 5, 5, 5, 4, 4, 4, 4, 3, 3, 3, 3, 3, 2, 2, 2, 2, 2, 2, 2, 1, 1, 1, 1, 1, 1, 1, 1, 1, 1, 1, 1, 0]"

definition scaled_subsidy :: "u64 \<Rightarrow> u64 \<Rightarrow> ('e, u64) outcome" where
  "scaled_subsidy table_value bps =
     bind_outcome (div_ceil_p table_value bps) (\<lambda>q.
     bind_outcome (mul_p (ucast q :: u128) (ucast REWARD_SCALE_NUM)) (\<lambda>p.
     bind_outcome (div_p p (ucast REWARD_SCALE_DEN)) (\<lambda>s. Ok (ucast s))))"

record coinbase_manager =
  mgr_script_public_key_max_len :: u8
  mgr_max_coinbase_payload_len :: nat
  mgr_deflationary_phase_daa_score :: u64
  mgr_pre_deflationary_phase_base_subsidy :: u64
  mgr_bps_history :: "u64 forked_param"
  mgr_toccata_activation :: fork_activation
  mgr_dev_fee_permille :: u64
  mgr_dev_fee_recipient :: "bytes option"
  mgr_dev_fee_accrual_activation :: fork_activation
  mgr_dev_fee_payout_interval :: u64
  mgr_dev_fee_end_activation :: fork_activation
  mgr_miner_accrual_payout_interval :: u64
  mgr_miner_accrual_activation :: fork_activation
  mgr_subsidy_by_month_table_before :: "u64 list"
  mgr_subsidy_by_month_table_after :: "u64 list"
  mgr_crescendo_activation_daa_score :: u64

definition subsidy_table :: "u64 \<Rightarrow> ('e, u64 list) outcome" where
  "subsidy_table bps = map_outcome (\<lambda>v. scaled_subsidy (of_nat v) bps) SUBSIDY_BY_MONTH_TABLE"

definition coinbase_manager_new ::
  "u8 \<Rightarrow> nat \<Rightarrow> u64 \<Rightarrow> u64 \<Rightarrow> u64 forked_param \<Rightarrow> fork_activation \<Rightarrow> u64 \<Rightarrow> bytes option \<Rightarrow> fork_activation
     \<Rightarrow> u64 \<Rightarrow> fork_activation \<Rightarrow> u64 \<Rightarrow> fork_activation \<Rightarrow> ('e, coinbase_manager) outcome"
where
  "coinbase_manager_new spk_max_len max_payload_len deflationary_score base_subsidy bps_history toccata
     dev_permille dev_recipient dev_accrual dev_interval miner_accrual miner_interval dev_end =
     bind_outcome (subsidy_table (forked_before bps_history)) (\<lambda>before.
     bind_outcome (subsidy_table (forked_after bps_history)) (\<lambda>after.
     Ok \<lparr>mgr_script_public_key_max_len = spk_max_len, mgr_max_coinbase_payload_len = max_payload_len,
         mgr_deflationary_phase_daa_score = deflationary_score,
         mgr_pre_deflationary_phase_base_subsidy = base_subsidy, mgr_bps_history = bps_history,
         mgr_toccata_activation = toccata, mgr_dev_fee_permille = dev_permille,
         mgr_dev_fee_recipient = dev_recipient, mgr_dev_fee_accrual_activation = dev_accrual,
         mgr_dev_fee_payout_interval = max dev_interval 1, mgr_dev_fee_end_activation = dev_end,
         mgr_miner_accrual_payout_interval = max miner_interval 1,
         mgr_miner_accrual_activation = miner_accrual,
         mgr_subsidy_by_month_table_before = before, mgr_subsidy_by_month_table_after = after,
         mgr_crescendo_activation_daa_score = fa_score (fp_activation bps_history)\<rparr>))"

definition subsidy_seconds :: "coinbase_manager \<Rightarrow> u64 \<Rightarrow> ('e, u64) outcome" where
  "subsidy_seconds m daa_score =
     (if mgr_crescendo_activation_daa_score m < mgr_deflationary_phase_daa_score m
      then bind_outcome (sub_p daa_score (mgr_deflationary_phase_daa_score m)) (\<lambda>d.
           div_p d (forked_after (mgr_bps_history m)))
      else if daa_score < mgr_crescendo_activation_daa_score m
      then bind_outcome (sub_p daa_score (mgr_deflationary_phase_daa_score m)) (\<lambda>d.
           div_p d (forked_before (mgr_bps_history m)))
      else bind_outcome (sub_p (mgr_crescendo_activation_daa_score m) (mgr_deflationary_phase_daa_score m)) (\<lambda>d.
           bind_outcome (div_p d (forked_before (mgr_bps_history m))) (\<lambda>pre.
           bind_outcome (sub_p daa_score (mgr_crescendo_activation_daa_score m)) (\<lambda>e.
           bind_outcome (div_p e (forked_after (mgr_bps_history m))) (\<lambda>post. add_p pre post)))))"

definition subsidy_month :: "coinbase_manager \<Rightarrow> u64 \<Rightarrow> ('e, u64) outcome" where
  "subsidy_month m daa_score =
     bind_outcome (subsidy_seconds m daa_score) (\<lambda>seconds.
     bind_outcome (mul_p (ucast seconds :: u128) (ucast LEGACY_MONTHS_PER_HALVING)) (\<lambda>p.
     bind_outcome (mul_p (ucast SECONDS_PER_MONTH :: u128) (ucast SUBSIDY_HALVING_INTERVAL_MONTHS)) (\<lambda>q.
     bind_outcome (div_p p q) (\<lambda>r. Ok (ucast r)))))"

definition curve_subsidy :: "coinbase_manager \<Rightarrow> u64 \<Rightarrow> ('e, u64) outcome" where
  "curve_subsidy m daa_score =
     bind_outcome (subsidy_month m daa_score) (\<lambda>month.
     let subsidy_table = (if is_active (fp_activation (mgr_bps_history m)) daa_score
                          then mgr_subsidy_by_month_table_after m else mgr_subsidy_by_month_table_before m)
     in nth_p subsidy_table (min (unat month) (length subsidy_table - 1)))"

definition tail_subsidy :: "coinbase_manager \<Rightarrow> u64 \<Rightarrow> ('e, u64) outcome" where
  "tail_subsidy m daa_score =
     bind_outcome (subsidy_month m daa_score) (\<lambda>month.
     bind_outcome (mul_p month SUBSIDY_HALVING_INTERVAL_MONTHS) (\<lambda>x.
     bind_outcome (div_p x LEGACY_MONTHS_PER_HALVING) (\<lambda>real_month.
     let per_sec = (if real_month < TAIL_STEP_DOWN_MONTH then TAIL_SUBSIDY_INITIAL_PER_SEC_SOMPI
                    else TAIL_SUBSIDY_FINAL_PER_SEC_SOMPI)
     in div_ceil_p per_sec (forked_after (mgr_bps_history m)))))"

definition calc_block_subsidy :: "coinbase_manager \<Rightarrow> u64 \<Rightarrow> ('e, u64) outcome" where
  "calc_block_subsidy m daa_score =
     (if daa_score < mgr_deflationary_phase_daa_score m then Ok (mgr_pre_deflationary_phase_base_subsidy m)
      else bind_outcome (curve_subsidy m daa_score) (\<lambda>c.
           bind_outcome (tail_subsidy m daa_score) (\<lambda>t. Ok (max c t))))"

section \<open>The schedule on natural numbers\<close>

definition ceil_div :: "nat \<Rightarrow> nat \<Rightarrow> nat" where
  "ceil_div a b = (a + b - 1) div b"

lemma ceil_div_alt: "0 < b \<Longrightarrow> ceil_div a b = (if 0 < a mod b then a div b + 1 else a div b)"
proof -
  assume b: "0 < b"
  have "a + b - 1 = b * (a div b) + (a mod b + b - 1)" using b by (simp add: algebra_simps)
  then have "ceil_div a b = a div b + (a mod b + b - 1) div b"
    unfolding ceil_div_def using b div_mult_self4 [of b "a div b" "a mod b + b - 1"] by (metis neq0_conv)
  moreover have "(a mod b + b - 1) div b = (if 0 < a mod b then 1 else 0)"
    using b mod_less_divisor [OF b, of a] by (auto simp: div_nat_eqI)
  ultimately show ?thesis by simp
qed

lemma ceil_div_mono: "a \<le> a' \<Longrightarrow> ceil_div a b \<le> ceil_div a' b"
  by (simp add: ceil_div_def div_le_mono)

lemma ceil_div_antimono:
  assumes "0 < b" "b \<le> b'" shows "ceil_div a b' \<le> ceil_div a b"
proof (cases "a = 0")
  case True
  then show ?thesis using assms by (simp add: ceil_div_def)
next
  case False
  then have "a + c - 1 = (a - 1) + c" for c by simp
  then have "ceil_div a c = (a - 1) div c + 1" if "0 < c" for c
    unfolding ceil_div_def using that div_add_self2 [of c "a - 1"] by (metis neq0_conv)
  then show ?thesis using assms by (simp add: div_le_mono2)
qed

lemma ceil_div_le: "0 < b \<Longrightarrow> ceil_div a b \<le> a"
  using ceil_div_antimono [of 1 b a] by (simp add: ceil_div_def)

lemma ceil_div_fits: "b \<noteq> 0 \<Longrightarrow> ceil_div (unat a) (unat b) < 2 ^ LENGTH('w)" for a b :: "'w::len word"
  by (rule le_less_trans [OF ceil_div_le unat_less]) (simp add: unat_gt_0)

lemma div_ceil_p_ok:
  fixes a b :: "'w::len word"
  assumes "b \<noteq> 0"
  shows "div_ceil_p a b = Ok (of_nat (ceil_div (unat a) (unat b)))"
proof -
  have b: "0 < unat b" using assms by (simp add: unat_gt_0)
  have "a div b = of_nat (unat a div unat b)" by (metis unat_div word_of_nat_unat)
  moreover have "0 < a mod b \<longleftrightarrow> 0 < unat a mod unat b"
    by (metis unat_gt_0 unat_mod word_gt_0)
  ultimately show ?thesis using assms b by (simp add: div_ceil_p_def ceil_div_alt)
qed

definition seconds_nat :: "coinbase_manager \<Rightarrow> nat \<Rightarrow> nat" where
  "seconds_nat m d =
     (let start = unat (mgr_deflationary_phase_daa_score m); c = unat (mgr_crescendo_activation_daa_score m);
          b = unat (forked_before (mgr_bps_history m)); a = unat (forked_after (mgr_bps_history m))
      in if c < start then (d - start) div a
         else if d < c then (d - start) div b
         else (c - start) div b + (d - c) div a)"

definition month_nat :: "coinbase_manager \<Rightarrow> nat \<Rightarrow> nat" where
  "month_nat m d = seconds_nat m d * 12 div 7889400"

definition scaled_nat :: "nat \<Rightarrow> nat \<Rightarrow> nat" where
  "scaled_nat v bps = ceil_div v bps * 3 div 22"

definition curve_nat :: "nat \<Rightarrow> nat \<Rightarrow> nat" where
  "curve_nat bps month = scaled_nat (SUBSIDY_BY_MONTH_TABLE ! min month 425) bps"

definition tail_nat :: "nat \<Rightarrow> nat \<Rightarrow> nat" where
  "tail_nat bps month = ceil_div (if month * 3 div 12 < 24 then 600000000 else 60000000) bps"

lemma length_table: "length SUBSIDY_BY_MONTH_TABLE = 426"
  by (simp add: SUBSIDY_BY_MONTH_TABLE_def)

lemma table_bound: "list_all (\<lambda>v. v \<le> 44000000000) SUBSIDY_BY_MONTH_TABLE"
  by (simp add: SUBSIDY_BY_MONTH_TABLE_def)

lemma table_step: "successively (\<ge>) SUBSIDY_BY_MONTH_TABLE"
  by (simp add: SUBSIDY_BY_MONTH_TABLE_def)

lemma table_antimono:
  assumes "i \<le> j" "j < 426"
  shows "SUBSIDY_BY_MONTH_TABLE ! j \<le> SUBSIDY_BY_MONTH_TABLE ! i"
proof -
  have "sorted_wrt (\<ge>) SUBSIDY_BY_MONTH_TABLE"
    using table_step by (simp add: successively_conv_sorted_wrt transp_on_def)
  then show ?thesis
    using assms sorted_wrt_nth_less [of "(\<ge>)" SUBSIDY_BY_MONTH_TABLE i j] length_table
    by (cases "i = j") auto
qed

lemma unat22: "unat (22 :: u128) = 22" by simp

lemma scaled_subsidy_ok:
  assumes "bps \<noteq> 0"
  shows "scaled_subsidy v bps = Ok (of_nat (scaled_nat (unat v) (unat bps)))"
proof -
  let ?c = "ceil_div (unat v) (unat bps)"
  let ?q = "of_nat ?c :: u64"
  have q: "unat ?q = ?c" using ceil_div_fits [OF assms, of v] by (simp add: unat_of_nat)
  have c3: "unat (of_nat (?c * 3) :: u128) = ?c * 3"
    by (rule unat_of_nat_less) (use ceil_div_fits [OF assms, of v] in simp)
  have "unat (ucast ?q :: u128) = ?c" using q by (simp add: unat_up_ucast)
  then have "checked_mul (ucast ?q :: u128) 3 = Some (of_nat (?c * 3))"
    unfolding checked_mul_Some_iff c3 by simp
  moreover have "(of_nat (?c * 3) :: u128) div 22 = of_nat (?c * 3 div 22)"
    using c3 by (metis unat_div word_of_nat_unat unat22)
  moreover have "ucast (of_nat (?c * 3 div 22) :: u128) = (of_nat (?c * 3 div 22) :: u64)"
    by (rule ucast_of_nat_less) (use ceil_div_fits [OF assms, of v] in simp)
  ultimately show ?thesis
    by (simp add: scaled_subsidy_def schedule_consts scaled_nat_def div_ceil_p_ok [OF assms])
qed

definition table_nat :: "u64 \<Rightarrow> u64 list" where
  "table_nat bps = map (\<lambda>v. of_nat (scaled_nat v (unat bps))) SUBSIDY_BY_MONTH_TABLE"

lemma subsidy_table_ok:
  assumes "bps \<noteq> 0"
  shows "subsidy_table bps = Ok (table_nat bps)"
  unfolding subsidy_table_def table_nat_def
proof (rule map_outcome_Ok)
  fix v assume "v \<in> set SUBSIDY_BY_MONTH_TABLE"
  then have "v \<le> 44000000000" using table_bound by (simp add: list_all_iff)
  then have "unat (of_nat v :: u64) = v" by (intro unat_of_nat_less) simp
  then show "scaled_subsidy (of_nat v) bps = Ok (of_nat (scaled_nat v (unat bps)))"
    by (simp add: scaled_subsidy_ok [OF assms])
qed

text \<open>A manager as the constructor builds it, with both block rates positive.\<close>

definition schedule_ok :: "coinbase_manager \<Rightarrow> bool" where
  "schedule_ok m \<longleftrightarrow> forked_before (mgr_bps_history m) \<noteq> 0 \<and> forked_after (mgr_bps_history m) \<noteq> 0
     \<and> mgr_crescendo_activation_daa_score m = fa_score (fp_activation (mgr_bps_history m))
     \<and> mgr_subsidy_by_month_table_before m = table_nat (forked_before (mgr_bps_history m))
     \<and> mgr_subsidy_by_month_table_after m = table_nat (forked_after (mgr_bps_history m))"

lemma coinbase_manager_new_ok:
  assumes "forked_before bps \<noteq> 0" "forked_after bps \<noteq> 0"
  shows "\<exists>m. coinbase_manager_new a b c d bps e f g h i j k l = Ok m \<and> schedule_ok m \<and> mgr_bps_history m = bps
    \<and> mgr_deflationary_phase_daa_score m = c \<and> mgr_pre_deflationary_phase_base_subsidy m = d"
  using assms by (simp add: coinbase_manager_new_def schedule_ok_def subsidy_table_ok)

lemma seconds_bound: "seconds_nat m d \<le> d"
proof -
  have le: "(x - s) div y \<le> x" for x s y :: nat
    using div_le_dividend [of "x - s" y] by linarith
  have "(c - s) div x + (d - c) div y \<le> d" if "c \<le> d" for c s x y :: nat
    using le [of c s x] div_le_dividend [of "d - c" y] that by linarith
  then show ?thesis by (simp add: seconds_nat_def Let_def le)
qed

lemma subsidy_seconds_ok:
  assumes "schedule_ok m" "mgr_deflationary_phase_daa_score m \<le> d"
  shows "subsidy_seconds m d = Ok (of_nat (seconds_nat m (unat d)))"
proof -
  let ?S = "mgr_deflationary_phase_daa_score m" and ?C = "mgr_crescendo_activation_daa_score m"
  let ?B = "forked_before (mgr_bps_history m)" and ?A = "forked_after (mgr_bps_history m)"
  have nz: "?B \<noteq> 0" "?A \<noteq> 0" using assms by (auto simp: schedule_ok_def)
  have div: "(x - y) div z = of_nat ((unat x - unat y) div unat z)" if "y \<le> x" for x y z :: u64
    using that by (metis unat_div unat_sub word_of_nat_unat)
  have bnd: "seconds_nat m (unat d) < 2 ^ 64"
    by (rule le_less_trans [OF seconds_bound]) (use unat_less [of d] in simp)
  show ?thesis
  proof (cases "?C < ?S \<or> d < ?C")
    case True
    then show ?thesis using assms nz
      by (auto simp: subsidy_seconds_def seconds_nat_def Let_def word_less_nat_alt word_le_nat_alt sub_p_le div)
  next
    case False
    then have le: "?S \<le> ?C" "?C \<le> d" by auto
    with nz bnd show ?thesis
      by (simp add: subsidy_seconds_def seconds_nat_def Let_def sub_p_le div add_p_of_nat word_less_nat_alt word_le_nat_alt)
  qed
qed

lemma subsidy_month_ok:
  assumes "schedule_ok m" "mgr_deflationary_phase_daa_score m \<le> d"
  shows "subsidy_month m d = Ok (of_nat (month_nat m (unat d)))"
proof -
  let ?n = "seconds_nat m (unat d)"
  have n: "?n < 2 ^ 64"
    by (rule le_less_trans [OF seconds_bound]) (use unat_less [of d] in simp)
  then have up: "ucast (of_nat ?n :: u64) = (of_nat ?n :: u128)" by (intro ucast_of_nat_less) simp
  have mul: "mul_p (of_nat ?n :: u128) (of_nat 12) = Ok (of_nat (?n * 12))"
    using n by (intro mul_p_of_nat) simp_all
  have dv: "(of_nat (?n * 12) :: u128) div of_nat 7889400 = of_nat (?n * 12 div 7889400)"
    using n by (intro div_of_nat) simp_all
  have down: "ucast (of_nat (?n * 12 div 7889400) :: u128) = (of_nat (?n * 12 div 7889400) :: u64)"
    using n by (intro ucast_of_nat_less) simp
  have cst: "mul_p (2629800 :: u128) 3 = Ok 7889400" by (simp add: checked_mul_def)
  show ?thesis using dv down
    by (simp add: subsidy_month_def schedule_consts subsidy_seconds_ok [OF assms] month_nat_def up mul [simplified] cst)
qed

lemma month_bound: "month_nat m (unat d) * 3 < 2 ^ 64" for d :: u64
proof -
  have "seconds_nat m (unat d) < 2 ^ 64"
    by (rule le_less_trans [OF seconds_bound]) (use unat_less [of d] in simp)
  then show ?thesis by (simp add: month_nat_def)
qed

lemma table_nth:
  assumes "i < 426"
  shows "table_nat bps ! i = of_nat (curve_nat (unat bps) i)"
  using assms by (simp add: table_nat_def length_table curve_nat_def min_absorb1)

lemma curve_subsidy_ok:
  assumes "schedule_ok m" "mgr_deflationary_phase_daa_score m \<le> d"
  shows "curve_subsidy m d = Ok (of_nat (curve_nat
    (unat (if is_active (fp_activation (mgr_bps_history m)) d then forked_after (mgr_bps_history m)
           else forked_before (mgr_bps_history m))) (month_nat m (unat d))))"
proof -
  have "unat (of_nat (month_nat m (unat d)) :: u64) = month_nat m (unat d)"
    using month_bound [of m d] by (intro unat_of_nat_less) simp
  moreover have "curve_nat b (min i 425) = curve_nat b i" for b i by (simp add: curve_nat_def)
  moreover have "length (table_nat b) = 426" for b by (simp add: table_nat_def length_table)
  ultimately show ?thesis using assms(1)
    by (simp add: curve_subsidy_def subsidy_month_ok [OF assms] schedule_ok_def table_nth)
qed

lemma tail_subsidy_ok:
  assumes "schedule_ok m" "mgr_deflationary_phase_daa_score m \<le> d"
  shows "tail_subsidy m d = Ok (of_nat (tail_nat (unat (forked_after (mgr_bps_history m))) (month_nat m (unat d))))"
proof -
  let ?n = "month_nat m (unat d)"
  have n: "?n * 3 < 2 ^ 64" by (rule month_bound)
  then have mul: "mul_p (of_nat ?n :: u64) (of_nat 3) = Ok (of_nat (?n * 3))"
    by (intro mul_p_of_nat) simp_all
  have dv: "(of_nat (?n * 3) :: u64) div of_nat 12 = of_nat (?n * 3 div 12)"
    using n by (intro div_of_nat) simp_all
  have "unat (of_nat (?n * 3 div 12) :: u64) = ?n * 3 div 12"
    using n by (intro unat_of_nat_less) simp
  then have less: "(of_nat (?n * 3 div 12) :: u64) < 24 \<longleftrightarrow> ?n * 3 div 12 < 24"
    by (simp only: word_less_nat_alt) simp
  have "forked_after (mgr_bps_history m) \<noteq> 0" using assms by (simp add: schedule_ok_def)
  then show ?thesis using dv less
    by (simp add: tail_subsidy_def schedule_consts subsidy_month_ok [OF assms] mul [simplified] tail_nat_def
        div_ceil_p_ok)
qed

lemma table_le: "i < 426 \<Longrightarrow> SUBSIDY_BY_MONTH_TABLE ! i \<le> 44000000000"
  using table_bound length_table by (simp add: list_all_length)

lemma curve_nat_le: "0 < bps \<Longrightarrow> curve_nat bps month \<le> 6000000000"
proof -
  assume "0 < bps"
  then have "ceil_div (SUBSIDY_BY_MONTH_TABLE ! min month 425) bps \<le> 44000000000"
    by (rule order_trans [OF ceil_div_le table_le]) simp
  then have "ceil_div (SUBSIDY_BY_MONTH_TABLE ! min month 425) bps * 3 div 22 \<le> 44000000000 * 3 div 22"
    by (intro div_le_mono mult_le_mono1)
  then show ?thesis by (simp add: curve_nat_def scaled_nat_def)
qed

lemma curve_nat_antimono: "0 < b \<Longrightarrow> b \<le> b' \<Longrightarrow> i \<le> j \<Longrightarrow> curve_nat b' j \<le> curve_nat b i"
  unfolding curve_nat_def scaled_nat_def
  by (intro div_le_mono mult_le_mono1 order_trans [OF ceil_div_antimono ceil_div_mono] table_antimono) auto

lemma tail_nat_le: "0 < bps \<Longrightarrow> tail_nat bps month \<le> 600000000"
  unfolding tail_nat_def by (rule order_trans [OF ceil_div_le]) auto

lemma tail_nat_antimono: "i \<le> j \<Longrightarrow> tail_nat b j \<le> tail_nat b i"
  unfolding tail_nat_def by (rule ceil_div_mono) (use div_le_mono [of "i * 3" "j * 3" 12] in auto)

lemma tail_nat_ge: "ceil_div 60000000 b \<le> tail_nat b i"
  unfolding tail_nat_def by (rule ceil_div_mono) simp

lemma seconds_mono: "d \<le> d' \<Longrightarrow> seconds_nat m d \<le> seconds_nat m d'"
proof -
  assume d: "d \<le> d'"
  have "(d - s) div y \<le> (c - s) div y + z" if "d < c" for c s y z :: nat
    using that by (intro trans_le_add1 div_le_mono) simp
  then show ?thesis using d
    by (auto simp: seconds_nat_def Let_def intro!: div_le_mono diff_le_mono)
qed

lemma month_mono: "d \<le> d' \<Longrightarrow> month_nat m d \<le> month_nat m d'"
  by (simp add: month_nat_def div_le_mono seconds_mono)

text \<open>The schedule: the subsidy of a score as a natural number.\<close>

definition subsidy_nat :: "coinbase_manager \<Rightarrow> u64 \<Rightarrow> nat" where
  "subsidy_nat m d =
     (let bps = mgr_bps_history m; month = month_nat m (unat d)
      in if d < mgr_deflationary_phase_daa_score m then unat (mgr_pre_deflationary_phase_base_subsidy m)
         else max (curve_nat (unat (if fa_score (fp_activation bps) \<le> d then forked_after bps else forked_before bps)) month)
                  (tail_nat (unat (forked_after bps)) month))"

lemma calc_block_subsidy_ok:
  assumes "schedule_ok m"
  shows "calc_block_subsidy m d = Ok (of_nat (subsidy_nat m d)) \<and> unat (of_nat (subsidy_nat m d) :: u64) = subsidy_nat m d"
proof (cases "d < mgr_deflationary_phase_daa_score m")
  case True
  then show ?thesis by (simp add: calc_block_subsidy_def subsidy_nat_def)
next
  case False
  let ?b = "mgr_bps_history m"
  let ?c = "curve_nat (unat (if is_active (fp_activation ?b) d then forked_after ?b else forked_before ?b)) (month_nat m (unat d))"
  let ?t = "tail_nat (unat (forked_after ?b)) (month_nat m (unat d))"
  have start: "mgr_deflationary_phase_daa_score m \<le> d" using False by simp
  have pos: "0 < unat (forked_before ?b)" "0 < unat (forked_after ?b)"
    using assms by (auto simp: schedule_ok_def unat_gt_0)
  then have "?c \<le> 6000000000" "?t \<le> 600000000" by (auto intro!: curve_nat_le tail_nat_le)
  then have fits: "unat (of_nat ?c :: u64) = ?c" "unat (of_nat ?t :: u64) = ?t"
    by (auto intro!: unat_of_nat_less)
  then have "max (of_nat ?c :: u64) (of_nat ?t) = of_nat (max ?c ?t)"
    by (simp only: max_def word_le_nat_alt) simp
  moreover have "subsidy_nat m d = max ?c ?t"
    using False by (simp add: subsidy_nat_def Let_def is_active_def)
  ultimately show ?thesis using False fits
    by (simp add: calc_block_subsidy_def curve_subsidy_ok [OF assms start] tail_subsidy_ok [OF assms start] max_def)
qed

lemma subsidy_nat_antimono:
  assumes "schedule_ok m" "forked_before (mgr_bps_history m) \<le> forked_after (mgr_bps_history m)"
    and "mgr_deflationary_phase_daa_score m \<le> d" "d \<le> d'"
  shows "subsidy_nat m d' \<le> subsidy_nat m d"
proof -
  have pos: "0 < unat (forked_before (mgr_bps_history m))" "0 < unat (forked_after (mgr_bps_history m))"
    using assms by (auto simp: schedule_ok_def unat_gt_0)
  have mon: "month_nat m (unat d) \<le> month_nat m (unat d')"
    using assms(4) by (intro month_mono) (simp add: word_le_nat_alt)
  have le: "\<not> d < mgr_deflationary_phase_daa_score m" "\<not> d' < mgr_deflationary_phase_daa_score m"
    using assms by auto
  let ?r = "\<lambda>d. unat (if fa_score (fp_activation (mgr_bps_history m)) \<le> d then forked_after (mgr_bps_history m)
    else forked_before (mgr_bps_history m))"
  have "0 < ?r d" "?r d \<le> ?r d'" using assms(2,4) pos by (auto simp: word_le_nat_alt)
  then have "curve_nat (?r d') (month_nat m (unat d')) \<le> curve_nat (?r d) (month_nat m (unat d))"
    using mon by (rule curve_nat_antimono)
  then show ?thesis using le unfolding subsidy_nat_def Let_def
    by (simp only: if_False) (rule max.mono [OF _ tail_nat_antimono [OF mon]])
qed










lemma subsidy_table_Ok_iff: "(\<exists>t. subsidy_table bps = Ok t) \<longleftrightarrow> bps \<noteq> 0"
proof (cases "bps = 0")
  case True
  then show ?thesis by (simp add: subsidy_table_def SUBSIDY_BY_MONTH_TABLE_def scaled_subsidy_def div_ceil_p_def)
qed (simp add: subsidy_table_ok)

lemma coinbase_manager_newE:
  assumes "coinbase_manager_new a b c d bps e f g h i j k l = Ok m"
  shows "schedule_ok m" "mgr_bps_history m = bps" "mgr_deflationary_phase_daa_score m = c"
    "forked_before bps \<noteq> 0" "forked_after bps \<noteq> 0"
proof -
  have nz: "forked_before bps \<noteq> 0" "forked_after bps \<noteq> 0"
    using assms subsidy_table_Ok_iff [of "forked_before bps"] subsidy_table_Ok_iff [of "forked_after bps"]
    by (auto simp: coinbase_manager_new_def bind_outcome_Ok_iff)
  then show "forked_before bps \<noteq> 0" "forked_after bps \<noteq> 0" by auto
  show "schedule_ok m" "mgr_bps_history m = bps" "mgr_deflationary_phase_daa_score m = c"
    using assms nz by (auto simp: coinbase_manager_new_def schedule_ok_def subsidy_table_ok)
qed

section \<open>Properties\<close>

text \<open>C22. The manager is built exactly when both block rates are positive (a zero rate panics in the
  table), and then the block subsidy never panics, for any DAA score up to the largest \<^verbatim>\<open>u64\<close>:
  the 64- and 128-bit arithmetic of \<^const>\<open>calc_block_subsidy\<close> computes the schedule
  \<^const>\<open>subsidy_nat\<close> over the natural numbers.\<close>

theorem block_subsidy_exact:
  "(\<exists>m. coinbase_manager_new a b c d bps e f g h i j k l = Ok m
      \<and> (\<forall>daa_score. \<exists>s. calc_block_subsidy m daa_score = Ok s \<and> unat s = subsidy_nat m daa_score))
   \<longleftrightarrow> forked_before bps \<noteq> 0 \<and> forked_after bps \<noteq> 0" (is "?L \<longleftrightarrow> ?R")
proof
  show "?L \<Longrightarrow> ?R" using coinbase_manager_newE(4,5) by metis
  show "?R \<Longrightarrow> ?L"
    by (simp add: coinbase_manager_new_def subsidy_table_ok calc_block_subsidy_ok schedule_ok_def)
qed


text \<open>C24. When the block rate never drops, the subsidy never increases with the DAA score once the
  deflationary phase has started.\<close>

theorem block_subsidy_antimono:
  assumes "coinbase_manager_new a b c d bps e f g h i j k l = Ok m"
    and "forked_before bps \<le> forked_after bps" "c \<le> daa_score" "daa_score \<le> later"
  shows "\<exists>s s'. calc_block_subsidy m daa_score = Ok s \<and> calc_block_subsidy m later = Ok s' \<and> s' \<le> s"
proof -
  have ok: "schedule_ok m" by (rule coinbase_manager_newE(1) [OF assms(1)])
  have "subsidy_nat m later \<le> subsidy_nat m daa_score"
    using assms coinbase_manager_newE(2,3) [OF assms(1)] by (intro subsidy_nat_antimono [OF ok]) auto
  then show ?thesis by (simp add: calc_block_subsidy_ok [OF ok] word_le_nat_alt)
qed

text \<open>The witnesses: a network that moves from one to ten blocks per second at score 1000.\<close>

definition example_rates :: "u64 forked_param" where
  "example_rates = \<lparr>fp_pre = 1, fp_post = 10, fp_activation = \<lparr>fa_score = 1000\<rparr>\<rparr>"

definition example_manager :: "(unit, coinbase_manager) outcome" where
  "example_manager = coinbase_manager_new 150 204 500 0 example_rates fork_always 0 None fork_never 1 fork_never 1 fork_never"

lemma example_rates_simps: "forked_before example_rates = 1" "forked_after example_rates = 10"
  by (simp_all add: example_rates_def forked_before_def forked_after_def fork_always_def fork_never_def)


theorem block_subsidy_antimono_witness:
  "\<exists>m s s'. example_manager = Ok m \<and> calc_block_subsidy m 600 = (Ok s :: (unit, _) outcome)
     \<and> calc_block_subsidy m 2000 = (Ok s' :: (unit, _) outcome) \<and> s' \<le> s"
proof -
  obtain m where m: "example_manager = Ok m"
    using coinbase_manager_new_ok [of example_rates 150 204 500 0 fork_always 0 None fork_never 1 fork_never 1 fork_never]
    by (auto simp: example_manager_def example_rates_simps)
  then show ?thesis using block_subsidy_antimono [OF m [unfolded example_manager_def], of 600 2000]
    by (auto simp: example_rates_simps)
qed

end
