(* ===== verification/Coinbase_Manager.thy ===== *)
theory Coinbase_Manager
  imports Block_Subsidy Tx_Hashing
begin

text \<open>
  The coinbase of a chain block (\<^verbatim>\<open>consensus/src/processes/coinbase.rs\<close>, types in
  \<^verbatim>\<open>consensus/core/src/coinbase.rs\<close>): the payload codec, the dev fee, the miner accrual slot and the expected
  coinbase transaction. The properties: the codec is exact, replacing the miner data is the same as
  serializing again, the accrual slot conserves every recipient's reward, and a whole coinbase conserves
  value.
\<close>

section \<open>Types\<close>

record miner_data =
  md_script_public_key :: script_public_key
  md_extra_data :: bytes

record coinbase_data =
  cd_blue_score :: u64
  cd_subsidy :: u64
  cd_shielded_commitment :: bytes
  cd_miner_data :: miner_data

record block_reward_data =
  brd_subsidy :: u64
  brd_total_fees :: u64
  brd_script_public_key :: script_public_key

record miner_accrual =
  ma_script_public_key :: script_public_key
  ma_amount :: u64

definition accrual_default :: miner_accrual where
  "accrual_default = \<lparr>ma_script_public_key = spk_default, ma_amount = 0\<rparr>"

definition accrual_is_empty :: "miner_accrual \<Rightarrow> bool" where
  "accrual_is_empty a \<longleftrightarrow> ma_amount a = 0"

record coinbase_template =
  ct_tx :: transaction
  ct_has_red_reward :: bool
  ct_dev_accrued :: u64
  ct_miner_accrual :: miner_accrual

datatype coinbase_error =
    PayloadLenBelowMin nat nat
  | PayloadLenAboveMax nat nat
  | PayloadScriptPublicKeyLenAboveMax nat u8
  | PayloadCantContainScriptPublicKey nat nat
  | AccrualOverflow

section \<open>The payload\<close>

definition LENGTH_OF_BLUE_SCORE :: nat where "LENGTH_OF_BLUE_SCORE = 8"
definition LENGTH_OF_SUBSIDY :: nat where "LENGTH_OF_SUBSIDY = 8"
definition LENGTH_OF_SHIELDED_COMMITMENT :: nat where "LENGTH_OF_SHIELDED_COMMITMENT = 32"
definition LENGTH_OF_SCRIPT_PUB_KEY_VERSION :: nat where "LENGTH_OF_SCRIPT_PUB_KEY_VERSION = 2"
definition LENGTH_OF_SCRIPT_PUB_KEY_LENGTH :: nat where "LENGTH_OF_SCRIPT_PUB_KEY_LENGTH = 1"

definition MIN_PAYLOAD_LENGTH :: nat where
  "MIN_PAYLOAD_LENGTH = LENGTH_OF_BLUE_SCORE + LENGTH_OF_SUBSIDY + LENGTH_OF_SHIELDED_COMMITMENT
     + LENGTH_OF_SCRIPT_PUB_KEY_VERSION + LENGTH_OF_SCRIPT_PUB_KEY_LENGTH"

lemmas payload_lengths = LENGTH_OF_BLUE_SCORE_def LENGTH_OF_SUBSIDY_def LENGTH_OF_SHIELDED_COMMITMENT_def
  LENGTH_OF_SCRIPT_PUB_KEY_VERSION_def LENGTH_OF_SCRIPT_PUB_KEY_LENGTH_def

definition payload_take :: "bytes \<Rightarrow> nat \<Rightarrow> ('e, bytes \<times> bytes) outcome" where
  "payload_take remaining n = (if n \<le> length remaining then Ok (take n remaining, drop n remaining) else Panic)"

definition serialize_coinbase_payload :: "coinbase_manager \<Rightarrow> coinbase_data \<Rightarrow> (coinbase_error, bytes) outcome" where
  "serialize_coinbase_payload m d =
     (let spk = md_script_public_key (cd_miner_data d); script_pub_key_len = length (spk_script spk)
      in if unat (mgr_script_public_key_max_len m) < script_pub_key_len
         then Err (PayloadScriptPublicKeyLenAboveMax script_pub_key_len (mgr_script_public_key_max_len m))
         else Ok (to_le_bytes (cd_blue_score d) @ to_le_bytes (cd_subsidy d) @ cd_shielded_commitment d
                  @ to_le_bytes (spk_version spk) @ to_le_bytes (of_nat script_pub_key_len :: u8)
                  @ spk_script spk @ md_extra_data (cd_miner_data d)))"

definition modify_coinbase_payload :: "coinbase_manager \<Rightarrow> bytes \<Rightarrow> miner_data \<Rightarrow> (coinbase_error, bytes) outcome" where
  "modify_coinbase_payload m payload md =
     (let spk = md_script_public_key md; script_pub_key_len = length (spk_script spk)
      in if unat (mgr_script_public_key_max_len m) < script_pub_key_len
         then Err (PayloadScriptPublicKeyLenAboveMax script_pub_key_len (mgr_script_public_key_max_len m))
         else Ok (take (LENGTH_OF_BLUE_SCORE + LENGTH_OF_SUBSIDY + LENGTH_OF_SHIELDED_COMMITMENT) payload
                  @ to_le_bytes (spk_version spk) @ to_le_bytes (of_nat script_pub_key_len :: u8)
                  @ spk_script spk @ md_extra_data md))"

definition deserialize_coinbase_payload :: "coinbase_manager \<Rightarrow> bytes \<Rightarrow> (coinbase_error, coinbase_data) outcome" where
  "deserialize_coinbase_payload m payload =
     (if length payload < MIN_PAYLOAD_LENGTH then Err (PayloadLenBelowMin (length payload) MIN_PAYLOAD_LENGTH)
      else if mgr_max_coinbase_payload_len m < length payload
      then Err (PayloadLenAboveMax (length payload) (mgr_max_coinbase_payload_len m))
      else
        bind_outcome (payload_take payload LENGTH_OF_BLUE_SCORE) (\<lambda>(a, r1).
        bind_outcome (payload_take r1 LENGTH_OF_SUBSIDY) (\<lambda>(b, r2).
        bind_outcome (payload_take r2 LENGTH_OF_SHIELDED_COMMITMENT) (\<lambda>(c, r3).
        bind_outcome (payload_take r3 LENGTH_OF_SCRIPT_PUB_KEY_VERSION) (\<lambda>(v, r4).
        bind_outcome (payload_take r4 LENGTH_OF_SCRIPT_PUB_KEY_LENGTH) (\<lambda>(l, r5).
        let script_pub_key_len = (from_le_bytes l :: u8)
        in if mgr_script_public_key_max_len m < script_pub_key_len
           then Err (PayloadScriptPublicKeyLenAboveMax (unat script_pub_key_len) (mgr_script_public_key_max_len m))
           else if length r5 < unat script_pub_key_len
           then Err (PayloadCantContainScriptPublicKey (length payload) (MIN_PAYLOAD_LENGTH + unat script_pub_key_len))
           else bind_outcome (payload_take r5 (unat script_pub_key_len)) (\<lambda>(script, extra_data).
                Ok \<lparr>cd_blue_score = from_le_bytes a, cd_subsidy = from_le_bytes b, cd_shielded_commitment = c,
                    cd_miner_data = \<lparr>md_script_public_key = \<lparr>spk_version = from_le_bytes v, spk_script = script\<rparr>,
                                    md_extra_data = extra_data\<rparr>\<rparr>)))))))"

section \<open>The coinbase transaction\<close>

definition dev_fee_cut :: "coinbase_manager \<Rightarrow> u64 \<Rightarrow> ('e, u64) outcome" where
  "dev_fee_cut m subsidy =
     (if mgr_dev_fee_recipient m \<noteq> None \<and> 0 < mgr_dev_fee_permille m
      then bind_outcome (mul_p (ucast subsidy :: u128) (ucast (mgr_dev_fee_permille m))) (\<lambda>p. Ok (ucast (p div 1000)))
      else Ok 0)"

definition is_dev_fee_payout :: "coinbase_manager \<Rightarrow> u64 \<Rightarrow> u64 \<Rightarrow> ('e, bool) outcome" where
  "is_dev_fee_payout m parent_daa_score daa_score =
     bind_outcome (div_p daa_score (mgr_dev_fee_payout_interval m)) (\<lambda>a.
     bind_outcome (div_p parent_daa_score (mgr_dev_fee_payout_interval m)) (\<lambda>b. Ok (b < a)))"

definition accrue_step ::
  "u64 \<times> script_public_key \<Rightarrow> tx_output list \<times> miner_accrual \<Rightarrow> (coinbase_error, tx_output list \<times> miner_accrual) outcome"
where
  "accrue_step = (\<lambda>(v, spk) (outputs, slot).
     if \<not> accrual_is_empty slot \<and> ma_script_public_key slot = spk
     then bind_outcome (ok_or AccrualOverflow (checked_add (ma_amount slot) v)) (\<lambda>a. Ok (outputs, slot\<lparr>ma_amount := a\<rparr>))
     else Ok (if \<not> accrual_is_empty slot then outputs @ [tx_output_new (ma_amount slot) (ma_script_public_key slot)]
              else outputs,
              \<lparr>ma_script_public_key = spk, ma_amount = v\<rparr>))"

definition accrue_miner_rewards ::
  "miner_accrual \<Rightarrow> (u64 \<times> script_public_key) list \<Rightarrow> bool \<Rightarrow> (coinbase_error, tx_output list \<times> miner_accrual) outcome"
where
  "accrue_miner_rewards parent payments payout =
     bind_outcome (fold_outcome accrue_step payments ([], parent)) (\<lambda>(outputs, slot).
     if payout \<and> \<not> accrual_is_empty slot
     then Ok (outputs @ [tx_output_new (ma_amount slot) (ma_script_public_key slot)], accrual_default)
     else Ok (outputs, slot))"

type_synonym rewards = "hash \<rightharpoonup> block_reward_data"

definition blue_reward_step ::
  "(u64 \<Rightarrow> ('e, u64) outcome) \<Rightarrow> rewards \<Rightarrow> hash \<Rightarrow> u64 \<times> (u64 \<times> script_public_key) list
     \<Rightarrow> ('e, u64 \<times> (u64 \<times> script_public_key) list) outcome"
where
  "blue_reward_step fee_cut mergeset_rewards blue = (\<lambda>(dev_fee_accum, payments).
     bind_outcome (unwrap (mergeset_rewards blue)) (\<lambda>reward_data.
     bind_outcome (fee_cut (brd_subsidy reward_data)) (\<lambda>dev_cut.
     bind_outcome (add_p dev_fee_accum dev_cut) (\<lambda>accum.
     bind_outcome (sub_p (brd_subsidy reward_data) dev_cut) (\<lambda>rest.
     bind_outcome (add_p rest (brd_total_fees reward_data)) (\<lambda>miner_reward.
     Ok (accum, if 0 < miner_reward then payments @ [(miner_reward, brd_script_public_key reward_data)] else payments)))))))"

definition red_reward_step ::
  "(u64 \<Rightarrow> ('e, u64) outcome) \<Rightarrow> rewards \<Rightarrow> hash set \<Rightarrow> hash \<Rightarrow> u64 \<times> u64 \<Rightarrow> ('e, u64 \<times> u64) outcome"
where
  "red_reward_step fee_cut mergeset_rewards mergeset_non_daa red = (\<lambda>(dev_fee_accum, red_reward).
     bind_outcome (unwrap (mergeset_rewards red)) (\<lambda>reward_data.
     if red \<in> mergeset_non_daa
     then bind_outcome (add_p red_reward (brd_total_fees reward_data)) (\<lambda>r. Ok (dev_fee_accum, r))
     else bind_outcome (fee_cut (brd_subsidy reward_data)) (\<lambda>dev_cut.
          bind_outcome (add_p dev_fee_accum dev_cut) (\<lambda>accum.
          bind_outcome (sub_p (brd_subsidy reward_data) dev_cut) (\<lambda>rest.
          bind_outcome (add_p rest (brd_total_fees reward_data)) (\<lambda>x.
          bind_outcome (add_p red_reward x) (\<lambda>r. Ok (accum, r))))))))"

definition collect_payments ::
  "coinbase_manager \<Rightarrow> u64 \<Rightarrow> miner_data \<Rightarrow> ghostdag_data \<Rightarrow> rewards \<Rightarrow> hash set
     \<Rightarrow> (coinbase_error, u64 \<times> u64 \<times> (u64 \<times> script_public_key) list) outcome"
where
  "collect_payments m daa_score md gd mergeset_rewards mergeset_non_daa =
     (let fee_cut = (\<lambda>subsidy. if is_active (mgr_dev_fee_end_activation m) daa_score then Ok 0 else dev_fee_cut m subsidy)
      in bind_outcome (fold_outcome (blue_reward_step fee_cut mergeset_rewards)
           (filter (\<lambda>h. h \<notin> mergeset_non_daa) (gd_mergeset_blues gd)) (0, [])) (\<lambda>(dev_fee_accum, payments).
         bind_outcome (fold_outcome (red_reward_step fee_cut mergeset_rewards mergeset_non_daa) (gd_mergeset_reds gd)
           (dev_fee_accum, 0)) (\<lambda>(dev_fee_accum, red_reward).
         Ok (dev_fee_accum, red_reward,
             if 0 < red_reward then payments @ [(red_reward, md_script_public_key md)] else payments))))"

definition settle_miners ::
  "coinbase_manager \<Rightarrow> u64 \<Rightarrow> u64 \<Rightarrow> miner_accrual \<Rightarrow> (u64 \<times> script_public_key) list
     \<Rightarrow> (coinbase_error, tx_output list \<times> miner_accrual) outcome"
where
  "settle_miners m daa_score parent_daa_score miner_accrual_parent payments =
     (if is_active (mgr_miner_accrual_activation m) daa_score
      then bind_outcome (div_p daa_score (mgr_miner_accrual_payout_interval m)) (\<lambda>a.
           bind_outcome (div_p parent_daa_score (mgr_miner_accrual_payout_interval m)) (\<lambda>b.
           accrue_miner_rewards miner_accrual_parent payments (b < a)))
      else Ok (map (\<lambda>(v, spk). tx_output_new v spk) payments, accrual_default))"

definition settle_dev_fee ::
  "coinbase_manager \<Rightarrow> u64 \<Rightarrow> u64 \<Rightarrow> u64 \<Rightarrow> u64 \<Rightarrow> ('e, u64 \<times> u64) outcome"
where
  "settle_dev_fee m daa_score parent_daa_score dev_accrued_parent dev_fee_accum =
     (let accrual_active = is_active (mgr_dev_fee_accrual_activation m) daa_score;
          dev_accrued_after = (if accrual_active then saturating_add dev_accrued_parent dev_fee_accum else 0)
      in if \<not> accrual_active then Ok (dev_fee_accum, 0)
         else if is_active (mgr_dev_fee_end_activation m) daa_score then Ok (dev_accrued_after, 0)
         else bind_outcome (is_dev_fee_payout m parent_daa_score daa_score) (\<lambda>payout.
              Ok (if payout then (dev_accrued_after, 0) else (0, dev_accrued_after))))"

definition dev_fee_output :: "coinbase_manager \<Rightarrow> u64 \<Rightarrow> tx_output list" where
  "dev_fee_output m dev_fee_paid =
     (case mgr_dev_fee_recipient m of
        None \<Rightarrow> []
      | Some recipient \<Rightarrow>
          (if 0 < dev_fee_paid then [tx_output_new dev_fee_paid \<lparr>spk_version = 0, spk_script = recipient\<rparr>] else []))"

definition expected_coinbase_transaction ::
  "(hash_query \<Rightarrow> hash) \<Rightarrow> coinbase_manager \<Rightarrow> u64 \<Rightarrow> miner_data \<Rightarrow> ghostdag_data \<Rightarrow> rewards \<Rightarrow> hash set \<Rightarrow> bytes
     \<Rightarrow> u64 \<Rightarrow> u64 \<Rightarrow> miner_accrual \<Rightarrow> (coinbase_error, coinbase_template) outcome"
where
  "expected_coinbase_transaction H m daa_score md gd mergeset_rewards mergeset_non_daa shielded_commitment
     parent_daa_score dev_accrued_parent miner_accrual_parent =
     bind_outcome (collect_payments m daa_score md gd mergeset_rewards mergeset_non_daa)
       (\<lambda>(dev_fee_accum, red_reward, payments).
     bind_outcome (settle_miners m daa_score parent_daa_score miner_accrual_parent payments) (\<lambda>(outputs, accrual).
     bind_outcome (settle_dev_fee m daa_score parent_daa_score dev_accrued_parent dev_fee_accum)
       (\<lambda>(dev_fee_paid, dev_accrued_after).
     bind_outcome (calc_block_subsidy m daa_score) (\<lambda>subsidy.
     bind_outcome (serialize_coinbase_payload m
        \<lparr>cd_blue_score = gd_blue_score gd, cd_subsidy = subsidy, cd_shielded_commitment = shielded_commitment,
         cd_miner_data = md\<rparr>) (\<lambda>payload.
     let tx_version = (if is_active (mgr_toccata_activation m) daa_score then TX_VERSION_TOCCATA else TX_VERSION)
     in Ok \<lparr>ct_tx = transaction_new H tx_version [] (outputs @ dev_fee_output m dev_fee_paid) 0
                     SUBNETWORK_ID_COINBASE 0 payload,
            ct_has_red_reward = (0 < red_reward), ct_dev_accrued = dev_accrued_after,
            ct_miner_accrual = accrual\<rparr>)))))"

section \<open>The payload codec\<close>

lemma payload_take_append [simp]: "length xs = n \<Longrightarrow> payload_take (xs @ ys) n = Ok (xs, ys)"
  by (auto simp: payload_take_def)

lemma payload_take_ok: "n \<le> length r \<Longrightarrow> payload_take r n = Ok (take n r, drop n r)"
  by (simp add: payload_take_def)

lemma take_drop_more: "drop n p = take k (drop n p) @ drop (n + k) p"
  by (metis add.commute append_take_drop_id drop_drop)

lemma payload_parts:
  assumes "51 \<le> length p"
  obtains a b c v l r where "p = a @ b @ c @ v @ l @ r" "length a = 8" "length b = 8" "length c = 32"
    "length v = 2" "length l = 1"
proof
  have "p = take 8 p @ drop 8 p" by simp
  also have "drop 8 p = take 8 (drop 8 p) @ drop 16 p" using take_drop_more [of 8 p 8] by simp
  also have "drop 16 p = take 32 (drop 16 p) @ drop 48 p" using take_drop_more [of 16 p 32] by simp
  also have "drop 48 p = take 2 (drop 48 p) @ drop 50 p" using take_drop_more [of 48 p 2] by simp
  also have "drop 50 p = take 1 (drop 50 p) @ drop 51 p" using take_drop_more [of 50 p 1] by simp
  finally show "p = take 8 p @ take 8 (drop 8 p) @ take 32 (drop 16 p) @ take 2 (drop 48 p) @ take 1 (drop 50 p) @ drop 51 p" .
qed (use assms in simp_all)

lemma deserialize_parts:
  assumes "length a = 8" "length b = 8" "length c = 32" "length v = 2" "length l = 1"
  shows "deserialize_coinbase_payload m (a @ b @ c @ v @ l @ r) =
    (let n = (from_le_bytes l :: u8)
     in if mgr_max_coinbase_payload_len m < 51 + length r
        then Err (PayloadLenAboveMax (51 + length r) (mgr_max_coinbase_payload_len m))
        else if mgr_script_public_key_max_len m < n
        then Err (PayloadScriptPublicKeyLenAboveMax (unat n) (mgr_script_public_key_max_len m))
        else if length r < unat n then Err (PayloadCantContainScriptPublicKey (51 + length r) (51 + unat n))
        else Ok \<lparr>cd_blue_score = from_le_bytes a, cd_subsidy = from_le_bytes b, cd_shielded_commitment = c,
                 cd_miner_data = \<lparr>md_script_public_key = \<lparr>spk_version = from_le_bytes v, spk_script = take (unat n) r\<rparr>,
                                 md_extra_data = drop (unat n) r\<rparr>\<rparr>)"
  using assms
  by (simp add: deserialize_coinbase_payload_def MIN_PAYLOAD_LENGTH_def payload_lengths payload_take_ok Let_def
      split: prod.splits)

lemma deserialize_short: "length p < 51 \<Longrightarrow> deserialize_coinbase_payload m p = Err (PayloadLenBelowMin (length p) 51)"
  by (simp add: deserialize_coinbase_payload_def MIN_PAYLOAD_LENGTH_def payload_lengths)

lemma deserialize_not_Panic: "deserialize_coinbase_payload m p \<noteq> Panic"
proof (cases "51 \<le> length p")
  case True
  then obtain a b c v l r where "p = a @ b @ c @ v @ l @ r" "length a = 8" "length b = 8" "length c = 32"
    "length v = 2" "length l = 1" by (rule payload_parts)
  then show ?thesis by (simp add: deserialize_parts Let_def)
qed (simp add: deserialize_short)

lemma script_len_fits:
  assumes "k \<le> unat (n :: u8)" shows "unat (of_nat k :: u8) = k"
  by (rule unat_of_nat_less) (use assms unat_less [of n] in simp)

lemma deserialize_serialize:
  assumes "serialize_coinbase_payload m d = Ok p" "length (cd_shielded_commitment d) = 32"
    and "length p \<le> mgr_max_coinbase_payload_len m"
  shows "deserialize_coinbase_payload m p = Ok d"
proof -
  let ?spk = "md_script_public_key (cd_miner_data d)"
  have len: "length (spk_script ?spk) \<le> unat (mgr_script_public_key_max_len m)"
    using assms(1) by (simp add: serialize_coinbase_payload_def Let_def split: if_splits)
  then have p: "p = to_le_bytes (cd_blue_score d) @ to_le_bytes (cd_subsidy d) @ cd_shielded_commitment d
      @ to_le_bytes (spk_version ?spk) @ to_le_bytes (of_nat (length (spk_script ?spk)) :: u8)
      @ (spk_script ?spk @ md_extra_data (cd_miner_data d))"
    using assms(1) by (simp add: serialize_coinbase_payload_def Let_def)
  show ?thesis using assms(2,3) len script_len_fits [OF len] unfolding p
    by (subst deserialize_parts) (simp_all add: Let_def word_less_nat_alt)
qed

lemma serialize_deserialize:
  assumes "deserialize_coinbase_payload m p = Ok d"
  shows "serialize_coinbase_payload m d = Ok p" "length (cd_shielded_commitment d) = 32"
    "length p \<le> mgr_max_coinbase_payload_len m"
proof -
  have "51 \<le> length p" using assms deserialize_short [of p m] by fastforce
  then obtain a b c v l r where p: "p = a @ b @ c @ v @ l @ r" and lens: "length a = 8" "length b = 8" "length c = 32"
    "length v = 2" "length l = 1" by (rule payload_parts)
  note ds = assms [unfolded p deserialize_parts [OF lens] Let_def]
  show "length (cd_shielded_commitment d) = 32" "length p \<le> mgr_max_coinbase_payload_len m"
    using ds lens p by (auto split: if_splits)
  have "to_le_bytes (from_le_bytes a :: u64) = a" "to_le_bytes (from_le_bytes b :: u64) = b"
    "to_le_bytes (from_le_bytes v :: u16) = v" "to_le_bytes (from_le_bytes l :: u8) = l"
    using lens by (simp_all add: to_le_from_le)
  then show "serialize_coinbase_payload m d = Ok p"
    using ds p by (auto simp: serialize_coinbase_payload_def Let_def word_less_nat_alt min_absorb2 not_less split: if_splits)
qed

section \<open>The accrual slot\<close>

text \<open>What the outputs pay the scripts of a group, what a slot holds for them and what a reward list owes them.\<close>

definition paid_to :: "(script_public_key \<Rightarrow> bool) \<Rightarrow> tx_output list \<Rightarrow> nat" where
  "paid_to P outs = (\<Sum>out\<leftarrow>outs. if P (to_script_public_key out) then unat (to_value out) else 0)"

definition held_for :: "(script_public_key \<Rightarrow> bool) \<Rightarrow> miner_accrual \<Rightarrow> nat" where
  "held_for P slot = (if P (ma_script_public_key slot) then unat (ma_amount slot) else 0)"

definition owed_to :: "(script_public_key \<Rightarrow> bool) \<Rightarrow> (u64 \<times> script_public_key) list \<Rightarrow> nat" where
  "owed_to P payments = (\<Sum>(v, spk)\<leftarrow>payments. if P spk then unat v else 0)"

definition slots_used :: "miner_accrual \<Rightarrow> nat" where
  "slots_used slot = (if accrual_is_empty slot then 0 else 1)"

definition accrual_canonical :: "miner_accrual \<Rightarrow> bool" where
  "accrual_canonical slot \<longleftrightarrow> (accrual_is_empty slot \<longrightarrow> slot = accrual_default)"

lemma accrual_sums [simp]:
  "paid_to P [] = 0" "paid_to P (outs @ outs') = paid_to P outs + paid_to P outs'"
  "paid_to P [tx_output_new v spk] = (if P spk then unat v else 0)"
  "owed_to P [] = 0" "owed_to P ((v, spk) # payments) = (if P spk then unat v else 0) + owed_to P payments"
  "held_for P accrual_default = 0"
  by (simp_all add: paid_to_def owed_to_def held_for_def accrual_default_def tx_output_new_def)

lemma held_for_empty: "accrual_is_empty slot \<Longrightarrow> held_for P slot = 0"
  by (simp add: held_for_def accrual_is_empty_def)

lemma accrue_step_cases:
  assumes "accrue_step (v, spk) (outs, slot) = Ok (outs', slot')"
  obtains (add) a where "\<not> accrual_is_empty slot" "ma_script_public_key slot = spk" "outs' = outs"
      "slot' = slot\<lparr>ma_amount := a\<rparr>" "unat a = unat (ma_amount slot) + unat v"
    | (fresh) "accrual_is_empty slot" "outs' = outs" "slot' = \<lparr>ma_script_public_key = spk, ma_amount = v\<rparr>"
    | (turn) "\<not> accrual_is_empty slot" "outs' = outs @ [tx_output_new (ma_amount slot) (ma_script_public_key slot)]"
        "slot' = \<lparr>ma_script_public_key = spk, ma_amount = v\<rparr>"
  using assms unfolding accrue_step_def
  by (auto simp: bind_outcome_Ok_iff ok_or_Ok_iff checked_add_Some_iff split: if_splits)

lemma accrue_step_conserves:
  assumes "accrue_step (v, spk) (outs, slot) = Ok (outs', slot')"
  shows "paid_to P outs' + held_for P slot' = paid_to P outs + held_for P slot + (if P spk then unat v else 0)"
  using assms by (cases rule: accrue_step_cases) (auto simp: held_for_def accrual_is_empty_def)

lemma accrue_step_length:
  assumes "accrue_step (v, spk) (outs, slot) = Ok (outs', slot')"
  shows "length outs' + slots_used slot' \<le> length outs + slots_used slot + 1"
  using assms by (cases rule: accrue_step_cases) (auto simp: slots_used_def)

lemma accrue_step_nonempty:
  assumes "accrue_step (v, spk) (outs, slot) = Ok (outs', slot')" "v \<noteq> 0"
  shows "\<not> accrual_is_empty slot'"
  using assms(1)
proof (cases rule: accrue_step_cases)
  case (add a)
  then show ?thesis using assms(2) by (metis accrual_is_empty_def add_eq_0_iff_both_eq_0 miner_accrual.select_convs(2)
      miner_accrual.surjective miner_accrual.update_convs(2) unat_eq_zero unsigned_0)
qed (use assms(2) in \<open>auto simp: accrual_is_empty_def\<close>)

lemma accrue_fold_cons:
  assumes "fold_outcome accrue_step ((v, spk) # payments) (outs, slot) = Ok r"
  obtains outs1 slot1 where "accrue_step (v, spk) (outs, slot) = Ok (outs1, slot1)"
    "fold_outcome accrue_step payments (outs1, slot1) = Ok r"
  using assms by (auto simp: bind_outcome_Ok_iff)

lemma accrue_fold_conserves:
  assumes "fold_outcome accrue_step payments (outs, slot) = Ok (outs', slot')"
  shows "paid_to P outs' + held_for P slot' = paid_to P outs + held_for P slot + owed_to P payments"
  using assms
proof (induction payments arbitrary: outs slot)
  case (Cons p payments)
  obtain v spk where p: "p = (v, spk)" by (cases p)
  from Cons.prems [unfolded p] obtain outs1 slot1 where st: "accrue_step (v, spk) (outs, slot) = Ok (outs1, slot1)"
    and "fold_outcome accrue_step payments (outs1, slot1) = Ok (outs', slot')"
    by (rule accrue_fold_cons)
  with Cons.IH accrue_step_conserves [OF st, of P] show ?case by (simp add: p)
qed simp

lemma accrue_fold_length:
  assumes "fold_outcome accrue_step payments (outs, slot) = Ok (outs', slot')"
  shows "length outs' + slots_used slot' \<le> length outs + slots_used slot + length payments"
  using assms
proof (induction payments arbitrary: outs slot)
  case (Cons p payments)
  obtain v spk where p: "p = (v, spk)" by (cases p)
  from Cons.prems [unfolded p] obtain outs1 slot1 where st: "accrue_step (v, spk) (outs, slot) = Ok (outs1, slot1)"
    and "fold_outcome accrue_step payments (outs1, slot1) = Ok (outs', slot')"
    by (rule accrue_fold_cons)
  with Cons.IH accrue_step_length [OF st] show ?case by fastforce
qed simp

lemma accrue_fold_canonical:
  assumes "fold_outcome accrue_step payments (outs, slot) = Ok (outs', slot')"
    and "accrual_canonical slot" "\<And>v spk. (v, spk) \<in> set payments \<Longrightarrow> v \<noteq> 0"
  shows "accrual_canonical slot'"
  using assms
proof (induction payments arbitrary: outs slot)
  case (Cons p payments)
  obtain v spk where p: "p = (v, spk)" by (cases p)
  from Cons.prems(1) [unfolded p] obtain outs1 slot1 where st: "accrue_step (v, spk) (outs, slot) = Ok (outs1, slot1)"
    and fo: "fold_outcome accrue_step payments (outs1, slot1) = Ok (outs', slot')"
    by (rule accrue_fold_cons)
  have "v \<noteq> 0" using Cons.prems(3) p by auto
  with accrue_step_nonempty [OF st] have "accrual_canonical slot1" by (simp add: accrual_canonical_def)
  with fo Cons.prems(3) show ?case by (intro Cons.IH) auto
qed simp

lemma accrue_fold_total:
  assumes "unat (ma_amount slot) + (\<Sum>(v, spk)\<leftarrow>payments. unat v) < 2 ^ 64"
  shows "\<exists>r. fold_outcome accrue_step payments (outs, slot) = Ok r"
  using assms
proof (induction payments arbitrary: outs slot)
  case (Cons p payments)
  obtain v spk where p: "p = (v, spk)" by (cases p)
  have fit: "unat (ma_amount slot) + unat v < 2 ^ 64" using Cons.prems by (simp add: p)
  then have "checked_add (ma_amount slot) v = Some (ma_amount slot + v)" and a: "unat (ma_amount slot + v) = unat (ma_amount slot) + unat v"
    by (simp_all add: checked_add_def unat_word_ariths)
  then have "accrue_step (v, spk) (outs, slot) = Ok (outs, slot\<lparr>ma_amount := ma_amount slot + v\<rparr>)
    \<or> (\<exists>o1. accrue_step (v, spk) (outs, slot) = Ok (o1, \<lparr>ma_script_public_key = spk, ma_amount = v\<rparr>))"
    by (simp add: accrue_step_def)
  then show ?case using Cons.IH Cons.prems a by (auto simp: p)
qed simp

lemma accrue_rewardsE:
  assumes "accrue_miner_rewards parent payments payout = Ok (outs, slot)"
  obtains outs' slot' where "fold_outcome accrue_step payments ([], parent) = Ok (outs', slot')"
    "(outs, slot) = (if payout \<and> \<not> accrual_is_empty slot'
       then (outs' @ [tx_output_new (ma_amount slot') (ma_script_public_key slot')], accrual_default) else (outs', slot'))"
  using assms by (auto simp: accrue_miner_rewards_def bind_outcome_Ok_iff split: if_splits prod.splits)

lemma accrue_rewards_conserves:
  assumes "accrue_miner_rewards parent payments payout = Ok (outs, slot)"
  shows "paid_to P outs + held_for P slot = held_for P parent + owed_to P payments"
  using assms
proof (rule accrue_rewardsE)
  fix outs' slot'
  assume fo: "fold_outcome accrue_step payments ([], parent) = Ok (outs', slot')"
    and "(outs, slot) = (if payout \<and> \<not> accrual_is_empty slot'
       then (outs' @ [tx_output_new (ma_amount slot') (ma_script_public_key slot')], accrual_default) else (outs', slot'))"
  then show ?thesis using accrue_fold_conserves [OF fo, of P]
    by (auto simp: held_for_def accrual_default_def split: if_splits)
qed

lemma accrue_rewards_shape:
  assumes "accrue_miner_rewards parent payments payout = Ok (outs, slot)"
  shows "length outs \<le> length payments + 1" and "payout \<Longrightarrow> accrual_is_empty slot"
    and "accrual_canonical parent \<Longrightarrow> (\<And>v spk. (v, spk) \<in> set payments \<Longrightarrow> v \<noteq> 0) \<Longrightarrow> accrual_canonical slot"
proof -
  obtain outs' slot' where fo: "fold_outcome accrue_step payments ([], parent) = Ok (outs', slot')"
    and eq: "(outs, slot) = (if payout \<and> \<not> accrual_is_empty slot'
       then (outs' @ [tx_output_new (ma_amount slot') (ma_script_public_key slot')], accrual_default) else (outs', slot'))"
    using assms by (rule accrue_rewardsE)
  have "slots_used parent \<le> 1" by (simp add: slots_used_def)
  then show "length outs \<le> length payments + 1"
    using accrue_fold_length [OF fo] eq by (auto simp: slots_used_def split: if_splits)
  show "payout \<Longrightarrow> accrual_is_empty slot" using eq by (auto simp: accrual_default_def accrual_is_empty_def split: if_splits)
  assume "accrual_canonical parent" "\<And>v spk. (v, spk) \<in> set payments \<Longrightarrow> v \<noteq> 0"
  then show "accrual_canonical slot"
    using accrue_fold_canonical [OF fo] eq by (auto simp: accrual_canonical_def split: if_splits)
qed

section \<open>Value of a mergeset\<close>

definition reward_value :: "rewards \<Rightarrow> hash \<Rightarrow> nat" where
  "reward_value r h = (case r h of None \<Rightarrow> 0 | Some d \<Rightarrow> unat (brd_subsidy d) + unat (brd_total_fees d))"

definition red_value :: "rewards \<Rightarrow> hash set \<Rightarrow> hash \<Rightarrow> nat" where
  "red_value r non_daa h =
     (case r h of None \<Rightarrow> 0
      | Some d \<Rightarrow> (if h \<in> non_daa then 0 else unat (brd_subsidy d)) + unat (brd_total_fees d))"

definition mergeset_value :: "rewards \<Rightarrow> hash set \<Rightarrow> ghostdag_data \<Rightarrow> nat" where
  "mergeset_value r non_daa gd =
     (\<Sum>h\<leftarrow>filter (\<lambda>h. h \<notin> non_daa) (gd_mergeset_blues gd). reward_value r h)
     + (\<Sum>h\<leftarrow>gd_mergeset_reds gd. red_value r non_daa h)"

definition total_out :: "tx_output list \<Rightarrow> nat" where
  "total_out outs = (\<Sum>out\<leftarrow>outs. unat (to_value out))"

lemma total_out_paid: "total_out outs = paid_to (\<lambda>_. True) outs"
  by (simp add: total_out_def paid_to_def)

lemma owed_append [simp]: "owed_to P (xs @ ys) = owed_to P xs + owed_to P ys"
  by (simp add: owed_to_def)

abbreviation owed :: "(u64 \<times> script_public_key) list \<Rightarrow> nat" where
  "owed \<equiv> owed_to (\<lambda>_. True)"

lemma blue_step_value:
  assumes "blue_reward_step fee_cut r h (acc, pays) = Ok (acc', pays')"
  shows "unat acc' + owed pays' = unat acc + owed pays + reward_value r h"
    and "\<forall>(v, spk)\<in>set pays. v \<noteq> 0 \<Longrightarrow> \<forall>(v, spk)\<in>set pays'. v \<noteq> 0"
  using assms
  by (auto simp: blue_reward_step_def bind_outcome_Ok_iff unwrap_Ok_iff checked_add_Some_iff checked_sub_Some_iff
      reward_value_def word_less_nat_alt split: if_splits)

lemma blue_fold_value:
  assumes "fold_outcome (blue_reward_step fee_cut r) hs (acc, pays) = Ok (acc', pays')"
  shows "unat acc' + owed pays' = unat acc + owed pays + (\<Sum>h\<leftarrow>hs. reward_value r h)"
  using assms
proof (induction hs arbitrary: acc pays)
  case (Cons h hs)
  then obtain acc1 pays1 where st: "blue_reward_step fee_cut r h (acc, pays) = Ok (acc1, pays1)"
    and "fold_outcome (blue_reward_step fee_cut r) hs (acc1, pays1) = Ok (acc', pays')"
    by (auto simp: bind_outcome_Ok_iff)
  with Cons.IH blue_step_value(1) [OF st] show ?case by simp
qed simp

lemma red_step_value:
  assumes "red_reward_step fee_cut r nd h (acc, red) = Ok (acc', red')"
  shows "unat acc' + unat red' = unat acc + unat red + red_value r nd h"
  using assms
  by (auto simp: red_reward_step_def bind_outcome_Ok_iff unwrap_Ok_iff checked_add_Some_iff checked_sub_Some_iff
      red_value_def split: if_splits)

lemma red_fold_value:
  assumes "fold_outcome (red_reward_step fee_cut r nd) hs (acc, red) = Ok (acc', red')"
  shows "unat acc' + unat red' = unat acc + unat red + (\<Sum>h\<leftarrow>hs. red_value r nd h)"
  using assms
proof (induction hs arbitrary: acc red)
  case (Cons h hs)
  then obtain acc1 red1 where st: "red_reward_step fee_cut r nd h (acc, red) = Ok (acc1, red1)"
    and "fold_outcome (red_reward_step fee_cut r nd) hs (acc1, red1) = Ok (acc', red')"
    by (auto simp: bind_outcome_Ok_iff)
  with Cons.IH red_step_value [OF st] show ?case by simp
qed simp

definition effective_cut :: "coinbase_manager \<Rightarrow> u64 \<Rightarrow> u64 \<Rightarrow> (coinbase_error, u64) outcome" where
  "effective_cut m daa_score = (\<lambda>subsidy. if is_active (mgr_dev_fee_end_activation m) daa_score then Ok 0 else dev_fee_cut m subsidy)"

lemma collect_paymentsE:
  assumes "collect_payments m daa_score md gd r nd = Ok (acc, red, pays)"
  obtains acc0 pays0 where
    "fold_outcome (blue_reward_step (effective_cut m daa_score) r) (filter (\<lambda>h. h \<notin> nd) (gd_mergeset_blues gd)) (0, []) = Ok (acc0, pays0)"
    "fold_outcome (red_reward_step (effective_cut m daa_score) r nd) (gd_mergeset_reds gd) (acc0, 0) = Ok (acc, red)"
    "pays = (if 0 < red then pays0 @ [(red, md_script_public_key md)] else pays0)"
  using assms unfolding collect_payments_def Let_def effective_cut_def [symmetric]
  by (auto simp: bind_outcome_Ok_iff split: prod.splits)

lemma collect_payments_value:
  assumes "collect_payments m daa_score md gd r nd = Ok (acc, red, pays)"
  shows "unat acc + owed pays = mergeset_value r nd gd"
proof -
  obtain acc0 pays0 where b: "fold_outcome (blue_reward_step (effective_cut m daa_score) r)
      (filter (\<lambda>h. h \<notin> nd) (gd_mergeset_blues gd)) (0, []) = Ok (acc0, pays0)"
    and r: "fold_outcome (red_reward_step (effective_cut m daa_score) r nd) (gd_mergeset_reds gd) (acc0, 0) = Ok (acc, red)"
    and p: "pays = (if 0 < red then pays0 @ [(red, md_script_public_key md)] else pays0)"
    using assms by (rule collect_paymentsE)
  have "owed pays = owed pays0 + unat red" using p by (auto simp: word_neq_0_conv [symmetric])
  then show ?thesis using blue_fold_value [OF b] red_fold_value [OF r] by (simp add: mergeset_value_def)
qed

lemma collect_payments_no_recipient:
  assumes "collect_payments m daa_score md gd r nd = Ok (acc, red, pays)" "mgr_dev_fee_recipient m = None"
  shows "acc = 0"
proof -
  have nocut: "effective_cut m daa_score = (\<lambda>_. Ok 0)" using assms(2) by (auto simp: effective_cut_def dev_fee_cut_def)
  obtain acc0 pays0 where "fold_outcome (blue_reward_step (effective_cut m daa_score) r)
      (filter (\<lambda>h. h \<notin> nd) (gd_mergeset_blues gd)) (0, []) = Ok (acc0, pays0)"
    and "fold_outcome (red_reward_step (effective_cut m daa_score) r nd) (gd_mergeset_reds gd) (acc0, 0) = Ok (acc, red)"
    using assms(1) by (rule collect_paymentsE)
  note b = this(1) [unfolded nocut] and rd = this(2) [unfolded nocut]
  have "fst (acc0, pays0) = 0" using b
    by (rule fold_outcome_invariant [where P = "\<lambda>x. fst x = 0"])
       (auto simp: blue_reward_step_def bind_outcome_Ok_iff unwrap_Ok_iff checked_add_Some_iff word_unat_eq_iff)
  with rd have "fst (acc, red) = 0"
    by (elim fold_outcome_invariant [where P = "\<lambda>x. fst x = 0"])
       (auto simp: red_reward_step_def bind_outcome_Ok_iff unwrap_Ok_iff checked_add_Some_iff word_unat_eq_iff split: if_splits)
  then show ?thesis by simp
qed

lemma collect_payments_positive:
  assumes "collect_payments m daa_score md gd r nd = Ok (acc, red, pays)"
  shows "\<forall>(v, spk)\<in>set pays. v \<noteq> 0"
proof -
  obtain acc0 pays0 where b: "fold_outcome (blue_reward_step (effective_cut m daa_score) r)
      (filter (\<lambda>h. h \<notin> nd) (gd_mergeset_blues gd)) (0, []) = Ok (acc0, pays0)"
    and p: "pays = (if 0 < red then pays0 @ [(red, md_script_public_key md)] else pays0)"
    using assms by (rule collect_paymentsE)
  have "\<forall>(v, spk)\<in>set (snd (acc0, pays0)). v \<noteq> 0" using b
  proof (rule fold_outcome_invariant [where P = "\<lambda>x. \<forall>(v, spk)\<in>set (snd x). v \<noteq> 0"])
    fix h x y
    assume "\<forall>(v, spk)\<in>set (snd x). v \<noteq> 0" "blue_reward_step (effective_cut m daa_score) r h x = Ok y"
    then show "\<forall>(v, spk)\<in>set (snd y). v \<noteq> 0"
      using blue_step_value(2) [of _ r h "fst x" "snd x" "fst y" "snd y"] by simp
  qed simp
  then show ?thesis using p by (auto simp: word_gt_0)
qed

lemma settle_miners_value:
  assumes "settle_miners m daa_score pd parent pays = Ok (outs, accrual)"
  shows "paid_to P outs + held_for P accrual =
    (if is_active (mgr_miner_accrual_activation m) daa_score then held_for P parent else 0) + owed_to P pays"
proof (cases "is_active (mgr_miner_accrual_activation m) daa_score")
  case True
  then obtain payout where "accrue_miner_rewards parent pays payout = Ok (outs, accrual)"
    using assms by (auto simp: settle_miners_def bind_outcome_Ok_iff)
  then show ?thesis using True by (simp add: accrue_rewards_conserves)
next
  case False
  have "paid_to P (map (\<lambda>(v, spk). tx_output_new v spk) pays) = owed_to P pays"
    by (induction pays) (auto simp: paid_to_def owed_to_def tx_output_new_def)
  then show ?thesis using False assms by (auto simp: settle_miners_def)
qed

lemma settle_miners_canonical:
  assumes "settle_miners m daa_score pd parent pays = Ok (outs, accrual)" "accrual_canonical parent"
    "\<forall>(v, spk)\<in>set pays. v \<noteq> 0"
  shows "accrual_canonical accrual"
proof (cases "is_active (mgr_miner_accrual_activation m) daa_score")
  case True
  then obtain payout where "accrue_miner_rewards parent pays payout = Ok (outs, accrual)"
    using assms by (auto simp: settle_miners_def bind_outcome_Ok_iff)
  then show ?thesis using assms(2) by (rule accrue_rewards_shape(3)) (use assms(3) in auto)
next
  case False
  then show ?thesis using assms(1) by (auto simp: settle_miners_def accrual_canonical_def)
qed

lemma settle_dev_fee_value:
  assumes "settle_dev_fee m daa_score pd dev_parent acc = Ok (paid, after)" "unat dev_parent + unat acc < 2 ^ 64"
  shows "unat paid + unat after =
    (if is_active (mgr_dev_fee_accrual_activation m) daa_score then unat dev_parent else 0) + unat acc"
proof -
  have "unat (saturating_add dev_parent acc) = unat dev_parent + unat acc"
    using assms(2) by (simp add: saturating_add_def unat_word_ariths)
  then show ?thesis using assms(1)
    by (auto simp: settle_dev_fee_def Let_def bind_outcome_Ok_iff split: if_splits)
qed

lemma dev_fee_output_value:
  "total_out (dev_fee_output m paid) = (if mgr_dev_fee_recipient m = None then 0 else unat paid)"
  by (auto simp: total_out_def dev_fee_output_def tx_output_new_def word_gt_0 split: option.splits)

lemma expected_coinbaseE:
  assumes "expected_coinbase_transaction H m daa_score md gd r nd c pd dev_parent parent = Ok t"
  obtains acc red pays outs accrual paid after subsidy payload where
    "collect_payments m daa_score md gd r nd = Ok (acc, red, pays)"
    "settle_miners m daa_score pd parent pays = Ok (outs, accrual)"
    "settle_dev_fee m daa_score pd dev_parent acc = (Ok (paid, after) :: (coinbase_error, _) outcome)"
    "calc_block_subsidy m daa_score = (Ok subsidy :: (coinbase_error, _) outcome)"
    "serialize_coinbase_payload m \<lparr>cd_blue_score = gd_blue_score gd, cd_subsidy = subsidy,
       cd_shielded_commitment = c, cd_miner_data = md\<rparr> = Ok payload"
    "tx_outputs (ct_tx t) = outs @ dev_fee_output m paid" "tx_inputs (ct_tx t) = []" "tx_payload (ct_tx t) = payload"
    "tx_subnetwork_id (ct_tx t) = SUBNETWORK_ID_COINBASE"
    "ct_dev_accrued t = after" "ct_miner_accrual t = accrual"
proof -
  note ex = assms [unfolded expected_coinbase_transaction_def]
  obtain acc red pays where 1: "collect_payments m daa_score md gd r nd = Ok (acc, red, pays)"
    using ex by (cases "collect_payments m daa_score md gd r nd") auto
  note ex = ex [unfolded 1, simplified]
  obtain outs accrual where 2: "settle_miners m daa_score pd parent pays = Ok (outs, accrual)"
    using ex by (cases "settle_miners m daa_score pd parent pays") auto
  note ex = ex [unfolded 2, simplified]
  obtain paid after where 3: "settle_dev_fee m daa_score pd dev_parent acc = (Ok (paid, after) :: (coinbase_error, _) outcome)"
    using ex by (cases "settle_dev_fee m daa_score pd dev_parent acc :: (coinbase_error, _) outcome") auto
  note ex = ex [unfolded 3, simplified]
  obtain subsidy where 4: "calc_block_subsidy m daa_score = (Ok subsidy :: (coinbase_error, _) outcome)"
    using ex by (cases "calc_block_subsidy m daa_score :: (coinbase_error, _) outcome") auto
  let ?d = "\<lparr>cd_blue_score = gd_blue_score gd, cd_subsidy = subsidy, cd_shielded_commitment = c, cd_miner_data = md\<rparr>"
  obtain payload where 5: "serialize_coinbase_payload m ?d = Ok payload"
    using ex 4 by (cases "serialize_coinbase_payload m ?d") auto
  show thesis
    using ex by (intro that [OF 1 2 3 4 5])
       (auto simp: 4 5 Let_def transaction_new_def finalize_def tx_new_non_finalized_def)
qed

lemma held_all: "held_for (\<lambda>_. True) a = unat (ma_amount a)"
  by (simp add: held_for_def)

lemma coinbase_value:
  assumes "expected_coinbase_transaction H m daa_score md gd r nd c pd dev_parent parent = Ok t"
    and "mgr_dev_fee_recipient m = None \<longrightarrow> dev_parent = 0"
    and "unat dev_parent + mergeset_value r nd gd < 2 ^ 64"
  shows "total_out (tx_outputs (ct_tx t)) + unat (ct_dev_accrued t) + unat (ma_amount (ct_miner_accrual t)) =
    mergeset_value r nd gd
    + (if is_active (mgr_dev_fee_accrual_activation m) daa_score then unat dev_parent else 0)
    + (if is_active (mgr_miner_accrual_activation m) daa_score then unat (ma_amount parent) else 0)"
  using assms(1)
proof (rule expected_coinbaseE)
  fix acc red pays outs accrual paid after
  assume c: "collect_payments m daa_score md gd r nd = Ok (acc, red, pays)"
    and sm: "settle_miners m daa_score pd parent pays = Ok (outs, accrual)"
    and sd: "settle_dev_fee m daa_score pd dev_parent acc = (Ok (paid, after) :: (coinbase_error, _) outcome)"
    and t: "tx_outputs (ct_tx t) = outs @ dev_fee_output m paid" "ct_dev_accrued t = after" "ct_miner_accrual t = accrual"
  have sum: "unat acc + owed pays = mergeset_value r nd gd" by (rule collect_payments_value [OF c])
  then have "unat dev_parent + unat acc < 2 ^ 64" using assms(3) by simp
  note dv = settle_dev_fee_value [OF sd this] and mn = settle_miners_value [OF sm, of "\<lambda>_. True"]
  have "unat paid = 0" if "mgr_dev_fee_recipient m = None"
    using that assms(2) collect_payments_no_recipient [OF c that] dv by (simp split: if_splits)
  then have "total_out (dev_fee_output m paid) = unat paid" by (simp add: dev_fee_output_value)
  then show ?thesis using sum dv mn by (simp add: t total_out_paid held_all split: if_splits)
qed

section \<open>The coinbase can always be built\<close>

lemma dev_fee_cut_ok:
  assumes "mgr_dev_fee_permille m \<le> 1000"
  shows "\<exists>x. dev_fee_cut m subsidy = (Ok x :: (coinbase_error, _) outcome) \<and> x \<le> subsidy"
proof -
  let ?n = "unat subsidy * unat (mgr_dev_fee_permille m)"
  have p: "unat (mgr_dev_fee_permille m) \<le> 1000" using assms by (simp add: word_le_nat_alt)
  have s: "unat subsidy < 2 ^ 64" using unat_less [of subsidy] by simp
  have n: "?n \<le> unat subsidy * 1000" using p by (rule mult_le_mono2)
  then have "?n < 2 ^ 128" by (rule le_less_trans) (use s in simp)
  then have nn: "unat (of_nat ?n :: u128) = ?n" by (intro unat_of_nat_less) simp
  have "unat (ucast subsidy :: u128) = unat subsidy" "unat (ucast (mgr_dev_fee_permille m) :: u128) = unat (mgr_dev_fee_permille m)"
    by (simp_all add: unat_up_ucast)
  then have mul: "checked_mul (ucast subsidy :: u128) (ucast (mgr_dev_fee_permille m)) = Some (of_nat ?n)"
    by (simp only: checked_mul_Some_iff nn)
  have "(of_nat ?n :: u128) div of_nat 1000 = of_nat (?n div 1000)"
    using \<open>?n < 2 ^ 128\<close> by (intro div_of_nat) simp_all
  moreover have "ucast (of_nat (?n div 1000) :: u128) = (of_nat (?n div 1000) :: u64)"
    using \<open>?n < 2 ^ 128\<close> by (intro ucast_of_nat_less) simp
  moreover have le: "?n div 1000 \<le> unat subsidy" using div_le_mono [OF n, of 1000] by simp
  moreover have "unat (of_nat (?n div 1000) :: u64) = ?n div 1000" using le s by (intro unat_of_nat_less) simp
  ultimately show ?thesis using mul by (simp add: dev_fee_cut_def word_le_nat_alt)
qed

lemma effective_cut_ok:
  "mgr_dev_fee_permille m \<le> 1000 \<Longrightarrow> \<exists>x. effective_cut m daa_score subsidy = Ok x \<and> x \<le> subsidy"
  using dev_fee_cut_ok [of m subsidy] by (simp add: effective_cut_def)

definition rewards_known :: "rewards \<Rightarrow> ghostdag_data \<Rightarrow> bool" where
  "rewards_known r gd \<longleftrightarrow> (\<forall>h\<in>set (gd_mergeset_blues gd) \<union> set (gd_mergeset_reds gd). r h \<noteq> None)"

lemma sub_add_ok:
  fixes s x f a :: u64
  assumes "x \<le> s" "unat a + (unat s + unat f) < 2 ^ 64"
  shows "checked_sub s x = Some (s - x)" "checked_add (s - x) f = Some (s - x + f)"
    "unat (s - x + f) = unat s - unat x + unat f" "checked_add a x = Some (a + x)" "unat (a + x) = unat a + unat x"
    "checked_add a (s - x + f) = Some (a + (s - x + f))"
  using assms by (simp_all add: checked_sub_def checked_add_def unat_sub word_le_nat_alt unat_word_ariths)

lemma blue_fold_ok:
  assumes "\<And>h. h \<in> set hs \<Longrightarrow> r h \<noteq> None" "unat acc + (\<Sum>h\<leftarrow>hs. reward_value r h) < 2 ^ 64"
    and cut_ok: "\<And>s. \<exists>x. fee_cut s = Ok x \<and> x \<le> s"
  shows "\<exists>y. fold_outcome (blue_reward_step fee_cut r) hs (acc, pays) = Ok y"
  using assms(1,2)
proof (induction hs arbitrary: acc pays)
  case (Cons h hs)
  obtain d where d: "r h = Some d" using Cons.prems(1) [of h] by auto
  obtain x where x: "fee_cut (brd_subsidy d) = Ok x" "x \<le> brd_subsidy d" using cut_ok by blast
  have le: "unat acc + (unat (brd_subsidy d) + unat (brd_total_fees d)) < 2 ^ 64"
    using Cons.prems(2) by (simp add: reward_value_def d)
  note ok = sub_add_ok [OF x(2) le]
  obtain pays1 where "blue_reward_step fee_cut r h (acc, pays) = Ok (acc + x, pays1)"
    using ok x(1) by (simp add: blue_reward_step_def d)
  moreover have "unat (acc + x) + (\<Sum>h\<leftarrow>hs. reward_value r h) < 2 ^ 64"
    using Cons.prems(2) ok x(2) by (simp add: reward_value_def d word_le_nat_alt)
  ultimately show ?case using Cons.IH [of "acc + x" pays1] Cons.prems(1) by simp
qed simp

lemma red_fold_ok:
  assumes "\<And>h. h \<in> set hs \<Longrightarrow> r h \<noteq> None" "unat acc + unat red + (\<Sum>h\<leftarrow>hs. red_value r nd h) < 2 ^ 64"
    and cut_ok: "\<And>s. \<exists>x. fee_cut s = Ok x \<and> x \<le> s"
  shows "\<exists>y. fold_outcome (red_reward_step fee_cut r nd) hs (acc, red) = Ok y"
  using assms(1,2)
proof (induction hs arbitrary: acc red)
  case (Cons h hs)
  obtain d where d: "r h = Some d" using Cons.prems(1) [of h] by auto
  obtain x where x: "fee_cut (brd_subsidy d) = Ok x" "x \<le> brd_subsidy d" using cut_ok by blast
  have "\<exists>acc1 red1. red_reward_step fee_cut r nd h (acc, red) = Ok (acc1, red1)"
  proof (cases "h \<in> nd")
    case True
    then show ?thesis using Cons.prems(2) by (simp add: red_reward_step_def d red_value_def checked_add_def)
  next
    case False
    then have le: "unat acc + (unat (brd_subsidy d) + unat (brd_total_fees d)) < 2 ^ 64"
      and le': "unat red + (unat (brd_subsidy d) + unat (brd_total_fees d)) < 2 ^ 64"
      using Cons.prems(2) by (simp_all add: red_value_def d)
    show ?thesis using False x(1) sub_add_ok [OF x(2) le] sub_add_ok [OF x(2) le'] by (simp add: red_reward_step_def d)
  qed
  then obtain acc1 red1 where st: "red_reward_step fee_cut r nd h (acc, red) = Ok (acc1, red1)" by blast
  have "unat acc1 + unat red1 + (\<Sum>h\<leftarrow>hs. red_value r nd h) < 2 ^ 64"
    using Cons.prems(2) red_step_value [OF st] by simp
  then show ?case using st Cons.IH [of acc1 red1] Cons.prems(1) by simp
qed simp

lemma collect_payments_ok:
  assumes "rewards_known r gd" "mergeset_value r nd gd < 2 ^ 64" "mgr_dev_fee_permille m \<le> 1000"
  shows "\<exists>acc red pays. collect_payments m daa_score md gd r nd = Ok (acc, red, pays)"
proof -
  note fee = effective_cut_ok [OF assms(3), of daa_score]
  obtain acc0 pays0 where b: "fold_outcome (blue_reward_step (effective_cut m daa_score) r)
      (filter (\<lambda>h. h \<notin> nd) (gd_mergeset_blues gd)) (0, []) = Ok (acc0, pays0)"
    using blue_fold_ok [where fee_cut = "effective_cut m daa_score" and r = r and acc = 0 and pays = "[]"
        and hs = "filter (\<lambda>h. h \<notin> nd) (gd_mergeset_blues gd)"] fee assms(1,2)
    by (auto simp: mergeset_value_def rewards_known_def)
  have "unat acc0 + unat (0 :: u64) + (\<Sum>h\<leftarrow>gd_mergeset_reds gd. red_value r nd h) < 2 ^ 64"
    using blue_fold_value [OF b] assms(2) by (simp add: mergeset_value_def)
  then obtain y where "fold_outcome (red_reward_step (effective_cut m daa_score) r nd) (gd_mergeset_reds gd) (acc0, 0) = Ok y"
    using red_fold_ok [where fee_cut = "effective_cut m daa_score" and r = r and acc = acc0 and red = 0
        and hs = "gd_mergeset_reds gd" and nd = nd] fee assms(1) by (auto simp: rewards_known_def)
  then show ?thesis using b unfolding collect_payments_def Let_def effective_cut_def [symmetric]
    by (cases y) auto
qed

lemma settle_miners_ok:
  assumes "mgr_miner_accrual_payout_interval m \<noteq> 0" "unat (ma_amount parent) + owed pays < 2 ^ 64"
  shows "\<exists>outs accrual. settle_miners m daa_score pd parent pays = Ok (outs, accrual)"
proof -
  have "(\<Sum>(v, spk)\<leftarrow>pays. unat v) = owed pays" by (simp add: owed_to_def)
  then obtain outs slot where "fold_outcome accrue_step pays ([], parent) = Ok (outs, slot)"
    using accrue_fold_total [of parent pays "[]"] assms(2) by auto
  then show ?thesis using assms(1) by (simp add: settle_miners_def accrue_miner_rewards_def)
qed

lemma settle_dev_fee_ok:
  assumes "mgr_dev_fee_payout_interval m \<noteq> 0"
  shows "\<exists>paid after. settle_dev_fee m daa_score pd dev_parent acc = (Ok (paid, after) :: (coinbase_error, _) outcome)"
  using assms by (simp add: settle_dev_fee_def is_dev_fee_payout_def Let_def)

lemma expected_coinbase_ok:
  assumes "schedule_ok m" "mgr_miner_accrual_payout_interval m \<noteq> 0" "mgr_dev_fee_payout_interval m \<noteq> 0"
    "mgr_dev_fee_permille m \<le> 1000" "rewards_known r gd"
    "unat (ma_amount parent) + mergeset_value r nd gd < 2 ^ 64"
    "length (spk_script (md_script_public_key md)) \<le> unat (mgr_script_public_key_max_len m)"
  shows "\<exists>t. expected_coinbase_transaction H m daa_score md gd r nd c pd dev_parent parent = Ok t"
proof -
  obtain acc red pays where c: "collect_payments m daa_score md gd r nd = Ok (acc, red, pays)"
    using collect_payments_ok [OF assms(5) _ assms(4), of nd daa_score md] assms(6) by auto
  obtain outs accrual where "settle_miners m daa_score pd parent pays = Ok (outs, accrual)"
    using settle_miners_ok [OF assms(2), of parent pays daa_score pd] collect_payments_value [OF c] assms(6) by auto
  moreover obtain paid after where "settle_dev_fee m daa_score pd dev_parent acc = (Ok (paid, after) :: (coinbase_error, _) outcome)"
    using settle_dev_fee_ok [OF assms(3)] by blast
  ultimately show ?thesis using c assms(7)
    by (simp add: expected_coinbase_transaction_def calc_block_subsidy_ok [OF assms(1)] serialize_coinbase_payload_def Let_def)
qed

section \<open>Properties\<close>

text \<open>C21. The coinbase payload codec is exact and total: parsing never panics, and it returns a record exactly
  for the byte string that serializing this record gives, when that fits the configured maximum. Two
  payloads with the same fields are the same bytes, and a serialized payload is read back unchanged.\<close>

theorem coinbase_payload_exact:
  "(deserialize_coinbase_payload m p = Ok d \<longleftrightarrow>
      serialize_coinbase_payload m d = Ok p \<and> length (cd_shielded_commitment d) = LENGTH_OF_SHIELDED_COMMITMENT
      \<and> length p \<le> mgr_max_coinbase_payload_len m)
   \<and> deserialize_coinbase_payload m p \<noteq> Panic"
  using deserialize_serialize serialize_deserialize deserialize_not_Panic unfolding LENGTH_OF_SHIELDED_COMMITMENT_def
  by blast

text \<open>Replacing the miner data of a serialized payload in place gives exactly the payload, or the error, of
  serializing the record with the new miner data: a template can be re-targeted without rebuilding it.\<close>

theorem modify_payload_reserializes:
  assumes "serialize_coinbase_payload m d = Ok p" "length (cd_shielded_commitment d) = LENGTH_OF_SHIELDED_COMMITMENT"
  shows "modify_coinbase_payload m p md = serialize_coinbase_payload m (d\<lparr>cd_miner_data := md\<rparr>)"
  using assms
  by (auto simp: serialize_coinbase_payload_def modify_coinbase_payload_def Let_def payload_lengths split: if_splits)

text \<open>C20. The accrual slot. When the parent's slot and the rewards fit 64 bits, the rewards are settled without
  an error; for every group of recipients what they are paid plus what the slot holds for them is what the
  parent held for them plus what they are owed, so no reward moves to another script; at most one output more
  than there are rewards is made; a payout empties the slot; and an empty slot is the canonical one.\<close>

theorem accrual_conserves:
  assumes "unat (ma_amount parent) + owed payments < 2 ^ 64"
  shows "\<exists>outs slot. accrue_miner_rewards parent payments payout = Ok (outs, slot)
    \<and> (\<forall>P. paid_to P outs + held_for P slot = held_for P parent + owed_to P payments)
    \<and> length outs \<le> length payments + 1 \<and> (payout \<longrightarrow> accrual_is_empty slot)
    \<and> (accrual_canonical parent \<and> (\<forall>(v, spk)\<in>set payments. v \<noteq> 0) \<longrightarrow> accrual_canonical slot)"
proof -
  have "(\<Sum>(v, spk)\<leftarrow>payments. unat v) = owed payments" by (simp add: owed_to_def)
  then obtain outs0 slot0 where "fold_outcome accrue_step payments ([], parent) = Ok (outs0, slot0)"
    using accrue_fold_total [of parent payments "[]"] assms by auto
  then obtain outs slot where ok: "accrue_miner_rewards parent payments payout = Ok (outs, slot)"
    by (cases "payout \<and> \<not> accrual_is_empty slot0") (auto simp: accrue_miner_rewards_def)
  have "accrual_canonical slot" if "accrual_canonical parent" "\<forall>(v, spk)\<in>set payments. v \<noteq> 0"
    by (rule accrue_rewards_shape(3) [OF ok that(1)]) (use that(2) in auto)
  then show ?thesis using ok accrue_rewards_conserves [OF ok] accrue_rewards_shape(1,2) [OF ok] by blast
qed

text \<open>C18. A coinbase conserves value: the outputs, the dev fee and the miner reward carried forward add up to the
  subsidies and fees of the rewarded mergeset plus what the selected parent carried (each carry only once
  its fork is active). The transaction has no input, and its payload is the serialized blue score, subsidy
  of the schedule, commitment and miner data. The two side conditions are that nothing was carried for a
  dev fund that does not exist and that the carried dev fee does not saturate.\<close>

theorem coinbase_conserves_value:
  assumes "expected_coinbase_transaction H m daa_score md gd r nd c pd dev_parent parent = Ok t"
    and "mgr_dev_fee_recipient m = None \<longrightarrow> dev_parent = 0"
    and "unat dev_parent + mergeset_value r nd gd < 2 ^ 64"
  shows "total_out (tx_outputs (ct_tx t)) + unat (ct_dev_accrued t) + unat (ma_amount (ct_miner_accrual t)) =
      mergeset_value r nd gd
      + (if is_active (mgr_dev_fee_accrual_activation m) daa_score then unat dev_parent else 0)
      + (if is_active (mgr_miner_accrual_activation m) daa_score then unat (ma_amount parent) else 0)
    \<and> is_coinbase (ct_tx t) \<and> tx_inputs (ct_tx t) = []
    \<and> (\<exists>subsidy. calc_block_subsidy m daa_score = (Ok subsidy :: (coinbase_error, _) outcome)
        \<and> serialize_coinbase_payload m \<lparr>cd_blue_score = gd_blue_score gd, cd_subsidy = subsidy,
            cd_shielded_commitment = c, cd_miner_data = md\<rparr> = Ok (tx_payload (ct_tx t)))"
  using coinbase_value [OF assms] expected_coinbaseE [OF assms(1)] unfolding is_coinbase_def by metis

text \<open>C19. The coinbase of a block can always be built: under a constructed manager with a dev fee of at most the
  whole subsidy, known rewards, a total that fits 64 bits and a miner script within the limit, no step
  panics or fails, whatever the scores, the activations and the carried dev fee are; and a canonical accrual
  slot stays canonical.\<close>

theorem coinbase_always_built:
  assumes "coinbase_manager_new spk_len a b c bps d permille e f g h i j = Ok m" "permille \<le> 1000"
    and "rewards_known r gd" "unat (ma_amount parent) + mergeset_value r nd gd < 2 ^ 64"
    and "length (spk_script (md_script_public_key md)) \<le> unat spk_len" "accrual_canonical parent"
  shows "\<exists>t. expected_coinbase_transaction H m daa_score md gd r nd cm pd dev_parent parent = Ok t
    \<and> accrual_canonical (ct_miner_accrual t)"
proof -
  have fields: "mgr_script_public_key_max_len m = spk_len" "mgr_dev_fee_permille m = permille"
    "mgr_miner_accrual_payout_interval m = max i 1" "mgr_dev_fee_payout_interval m = max g 1"
    using assms(1) by (auto simp: coinbase_manager_new_def bind_outcome_Ok_iff)
  have "max x (1 :: u64) \<noteq> 0" for x by (auto simp: max_def)
  then obtain t where t: "expected_coinbase_transaction H m daa_score md gd r nd cm pd dev_parent parent = Ok t"
    using expected_coinbase_ok [OF coinbase_manager_newE(1) [OF assms(1)], of r gd parent nd md H daa_score cm pd dev_parent] assms fields by auto
  then show ?thesis
  proof (rule expected_coinbaseE)
    fix acc red pays outs accrual
    assume c: "collect_payments m daa_score md gd r nd = Ok (acc, red, pays)"
      and sm: "settle_miners m daa_score pd parent pays = Ok (outs, accrual)" and ac: "ct_miner_accrual t = accrual"
    show ?thesis
      using t settle_miners_canonical [OF sm assms(6) collect_payments_positive [OF c]] ac by blast
  qed
qed

text \<open>The witnesses: one blue block with a subsidy of 100 and 5 in fees.\<close>

definition example_gd :: ghostdag_data where
  "example_gd = \<lparr>gd_blue_score = 7, gd_blue_work = 0, gd_selected_parent = [0], gd_mergeset_blues = [[1]],
     gd_mergeset_reds = [], gd_blues_anticone_sizes = Map.empty\<rparr>"

definition example_rewards :: rewards where
  "example_rewards = [[1] \<mapsto> \<lparr>brd_subsidy = 100, brd_total_fees = 5, brd_script_public_key = spk_default\<rparr>]"

definition example_miner :: miner_data where
  "example_miner = \<lparr>md_script_public_key = spk_default, md_extra_data = [9]\<rparr>"

definition example_data :: coinbase_data where
  "example_data = \<lparr>cd_blue_score = 1, cd_subsidy = 2, cd_shielded_commitment = replicate 32 0, cd_miner_data = example_miner\<rparr>"

lemma example_value: "mergeset_value example_rewards {} example_gd = 105"
  by (simp add: mergeset_value_def example_gd_def example_rewards_def reward_value_def)

theorem modify_payload_reserializes_witness:
  "\<exists>m p. serialize_coinbase_payload m example_data = Ok p
     \<and> modify_coinbase_payload m p example_miner = serialize_coinbase_payload m (example_data\<lparr>cd_miner_data := example_miner\<rparr>)"
proof -
  let ?m = "undefined :: coinbase_manager"
  obtain p where p: "serialize_coinbase_payload ?m example_data = Ok p"
    by (simp add: serialize_coinbase_payload_def example_data_def example_miner_def spk_default_def)
  have "length (cd_shielded_commitment example_data) = LENGTH_OF_SHIELDED_COMMITMENT"
    by (simp add: example_data_def payload_lengths)
  from modify_payload_reserializes [OF p this, of example_miner] p show ?thesis by blast
qed

theorem accrual_conserves_witness:
  "\<exists>outs slot. accrue_miner_rewards accrual_default [(3, spk_default), (4, spk_default)] True = Ok (outs, slot)
     \<and> paid_to (\<lambda>_. True) outs + held_for (\<lambda>_. True) slot = 7 \<and> accrual_is_empty slot"
proof -
  have "unat (ma_amount accrual_default) + owed [(3, spk_default), (4, spk_default)] < 2 ^ 64"
    by (simp add: accrual_default_def owed_to_def)
  from accrual_conserves [OF this, of True] show ?thesis
    by (elim exE conjE) (intro exI conjI, assumption, auto simp: owed_to_def)
qed

lemma example_manager_ok:
  obtains m where "coinbase_manager_new 150 204 500 0 example_rates fork_always 0 None fork_never 1 fork_never 1 fork_never
    = (Ok m :: (coinbase_error, _) outcome)" "mgr_dev_fee_recipient m = None"
  using coinbase_manager_new_ok [of example_rates] by (simp add: example_rates_simps coinbase_manager_new_def subsidy_table_ok)

lemma example_coinbase_exists:
  obtains m t where "mgr_dev_fee_recipient m = None"
    "expected_coinbase_transaction H m 2000 example_miner example_gd example_rewards {} (replicate 32 0) 1999 0 accrual_default = Ok t"
proof -
  obtain m where m: "coinbase_manager_new 150 204 500 0 example_rates fork_always 0 None fork_never 1 fork_never 1 fork_never
    = (Ok m :: (coinbase_error, _) outcome)" "mgr_dev_fee_recipient m = None" by (rule example_manager_ok)
  have "\<exists>t. expected_coinbase_transaction H m 2000 example_miner example_gd example_rewards {} (replicate 32 0) 1999 0 accrual_default = Ok t"
    using m(1) by (intro expected_coinbase_ok coinbase_manager_newE(1) [OF m(1)])
      (auto simp: coinbase_manager_new_def bind_outcome_Ok_iff rewards_known_def example_gd_def example_rewards_def
        example_miner_def spk_default_def accrual_default_def mergeset_value_def reward_value_def)
  then show thesis using that m(2) by blast
qed

theorem coinbase_conserves_value_witness:
  "\<exists>m t. expected_coinbase_transaction (\<lambda>_. []) m 2000 example_miner example_gd example_rewards {} (replicate 32 0) 1999 0 accrual_default = Ok t
     \<and> total_out (tx_outputs (ct_tx t)) + unat (ct_dev_accrued t) + unat (ma_amount (ct_miner_accrual t)) = 105"
proof -
  obtain m t where t: "mgr_dev_fee_recipient m = None"
    "expected_coinbase_transaction (\<lambda>_. []) m 2000 example_miner example_gd example_rewards {} (replicate 32 0) 1999 0 accrual_default = Ok t"
    by (rule example_coinbase_exists)
  from coinbase_conserves_value [OF t(2)] t show ?thesis
    by (auto simp: example_value accrual_default_def split: if_splits)
qed

theorem coinbase_always_built_witness:
  "\<exists>m t. coinbase_manager_new 150 204 500 0 example_rates fork_always 0 None fork_never 1 fork_never 1 fork_never
      = (Ok m :: (coinbase_error, _) outcome)
     \<and> expected_coinbase_transaction (\<lambda>_. []) m 2000 example_miner example_gd example_rewards {} (replicate 32 0) 1999 0 accrual_default = Ok t"
proof -
  obtain m where m: "coinbase_manager_new 150 204 500 0 example_rates fork_always 0 None fork_never 1 fork_never 1 fork_never
    = (Ok m :: (coinbase_error, _) outcome)" by (rule example_manager_ok)
  have known: "rewards_known example_rewards example_gd"
    by (simp add: rewards_known_def example_gd_def example_rewards_def)
  have fits: "unat (ma_amount accrual_default) + mergeset_value example_rewards {} example_gd < 2 ^ 64"
    by (simp add: example_value accrual_default_def)
  have len: "length (spk_script (md_script_public_key example_miner)) \<le> unat (150 :: u8)"
    by (simp add: example_miner_def spk_default_def)
  from coinbase_always_built [OF m _ known fits len, of "\<lambda>_. []" 2000 "replicate 32 0" 1999 0] m show ?thesis
    by (auto simp: accrual_canonical_def)
qed

end
