(* ===== verification/Utxo_Diff.thy ===== *)
theory Utxo_Diff
  imports Chain_Types "HOL-Library.AList"
begin

text \<open>
  The UTXO diff algebra (\<^verbatim>\<open>consensus/core/src/utxo/\<close>): collections, diffs, composed views, composition and
  difference of diffs, and the effect of a transaction. A hash map is an association list with distinct keys,
  iterated in list order; the theorems speak of lookups only, so they hold for every iteration order.
\<close>

section \<open>Collections\<close>

record utxo_entry =
  ue_amount :: u64
  ue_script_public_key :: script_public_key
  ue_block_daa_score :: u64
  ue_is_coinbase :: bool
  ue_covenant_id :: "hash option"

type_synonym utxo_collection = "(tx_outpoint \<times> utxo_entry) list"

definition contains_with_daa_score :: "utxo_collection \<Rightarrow> tx_outpoint \<Rightarrow> u64 \<Rightarrow> bool" where
  "contains_with_daa_score c p daa_score =
     (case map_of c p of Some entry \<Rightarrow> ue_block_daa_score entry = daa_score | None \<Rightarrow> False)"

definition add_collection :: "utxo_collection \<Rightarrow> utxo_collection \<Rightarrow> utxo_collection" where
  "add_collection self other = fold (\<lambda>(k, v) c. AList.update k v c) other self"

definition remove_collection :: "utxo_collection \<Rightarrow> utxo_collection \<Rightarrow> utxo_collection" where
  "remove_collection self other = fold AList.delete (map fst other) self"

definition intersects :: "utxo_collection \<Rightarrow> utxo_collection \<Rightarrow> bool" where
  "intersects self other =
     (let (keys, other) = (if length self \<le> length other then (map fst self, other) else (map fst other, self))
      in list_ex (\<lambda>k. map_of other k \<noteq> None) keys)"

definition intersects_with_rule ::
  "utxo_collection \<Rightarrow> utxo_collection \<Rightarrow> (tx_outpoint \<Rightarrow> utxo_entry \<Rightarrow> utxo_entry \<Rightarrow> bool) \<Rightarrow> tx_outpoint option"
where
  "intersects_with_rule self other rule =
     (if length self \<le> length other
      then map_option fst (find (\<lambda>(k, v1). case map_of other k of Some v2 \<Rightarrow> rule k v1 v2 | None \<Rightarrow> False) self)
      else map_option fst (find (\<lambda>(k, v2). case map_of self k of Some v1 \<Rightarrow> rule k v1 v2 | None \<Rightarrow> False) other))"

definition intersection_with_remainder_having_daa_score_in_place ::
  "utxo_collection \<Rightarrow> utxo_collection \<Rightarrow> utxo_collection \<Rightarrow> utxo_collection \<Rightarrow> utxo_collection \<times> utxo_collection"
where
  "intersection_with_remainder_having_daa_score_in_place this other result remainder =
     fold (\<lambda>(p, entry) (result, remainder).
       if contains_with_daa_score other p (ue_block_daa_score entry)
       then (AList.update p entry result, remainder) else (result, AList.update p entry remainder))
     this (result, remainder)"

definition subtraction_having_daa_score_in_place ::
  "utxo_collection \<Rightarrow> utxo_collection \<Rightarrow> utxo_collection \<Rightarrow> utxo_collection"
where
  "subtraction_having_daa_score_in_place this other result =
     fold (\<lambda>(p, entry) result.
       if \<not> contains_with_daa_score other p (ue_block_daa_score entry) then AList.update p entry result else result)
     this result"

definition subtraction_with_remainder_having_daa_score_in_place ::
  "utxo_collection \<Rightarrow> utxo_collection \<Rightarrow> utxo_collection \<Rightarrow> utxo_collection \<Rightarrow> utxo_collection \<times> utxo_collection"
where
  "subtraction_with_remainder_having_daa_score_in_place this other result remainder =
     fold (\<lambda>(p, entry) (result, remainder).
       if \<not> contains_with_daa_score other p (ue_block_daa_score entry)
       then (AList.update p entry result, remainder) else (result, AList.update p entry remainder))
     this (result, remainder)"

section \<open>Diffs\<close>

record utxo_diff =
  ud_add :: utxo_collection
  ud_remove :: utxo_collection

definition diff_default :: utxo_diff where
  "diff_default = \<lparr>ud_add = [], ud_remove = []\<rparr>"

definition to_reversed :: "utxo_diff \<Rightarrow> utxo_diff" where
  "to_reversed d = \<lparr>ud_add = ud_remove d, ud_remove = ud_add d\<rparr>"

datatype utxo_algebra_error =
    DuplicateRemovePoint tx_outpoint
  | DuplicateAddPoint tx_outpoint
  | DoubleRemoveCall tx_outpoint
  | DoubleAddCall tx_outpoint
  | DiffIntersectionPoint tx_outpoint string
  | General string

definition with_diff_in_place :: "utxo_diff \<Rightarrow> utxo_diff \<Rightarrow> (utxo_algebra_error, utxo_diff) outcome" where
  "with_diff_in_place self other =
     (case intersects_with_rule (ud_remove other) (ud_remove self)
             (\<lambda>p entry_to_add _. \<not> contains_with_daa_score (ud_add self) p (ue_block_daa_score entry_to_add)) of
        Some p \<Rightarrow> Err (DuplicateRemovePoint p)
      | None \<Rightarrow>
     (case intersects_with_rule (ud_add other) (ud_add self)
             (\<lambda>p _ existing_entry. \<not> contains_with_daa_score (ud_remove other) p (ue_block_daa_score existing_entry)) of
        Some p \<Rightarrow> Err (DuplicateAddPoint p)
      | None \<Rightarrow>
        (let (inter, remove1) = intersection_with_remainder_having_daa_score_in_place (ud_remove other) (ud_add self) [] (ud_remove self);
             add1 = remove_collection (ud_add self) inter;
             (inter, add2) = intersection_with_remainder_having_daa_score_in_place (ud_add other) remove1 [] add1;
             remove2 = remove_collection remove1 inter
         in Ok \<lparr>ud_add = add2, ud_remove = remove2\<rparr>)))"

definition with_diff :: "utxo_diff \<Rightarrow> utxo_diff \<Rightarrow> (utxo_algebra_error, utxo_diff) outcome" where
  "with_diff self other = bind_outcome (with_diff_in_place self other) (\<lambda>clone. Ok clone)"

definition rule_not_added_output_removed_with_daa_score ::
  "utxo_diff \<Rightarrow> utxo_diff \<Rightarrow> tx_outpoint \<Rightarrow> utxo_entry \<Rightarrow> utxo_entry \<Rightarrow> bool"
where
  "rule_not_added_output_removed_with_daa_score self other p this_entry other_entry \<longleftrightarrow>
     \<not> (ue_block_daa_score other_entry \<noteq> ue_block_daa_score this_entry
        \<and> (contains_with_daa_score (ud_add self) p (ue_block_daa_score other_entry)
           \<or> contains_with_daa_score (ud_remove other) p (ue_block_daa_score this_entry)))"

definition rule_not_removed_output_added_with_daa_score ::
  "utxo_diff \<Rightarrow> utxo_diff \<Rightarrow> tx_outpoint \<Rightarrow> utxo_entry \<Rightarrow> utxo_entry \<Rightarrow> bool"
where
  "rule_not_removed_output_added_with_daa_score self other p this_entry other_entry \<longleftrightarrow>
     \<not> (ue_block_daa_score other_entry \<noteq> ue_block_daa_score this_entry
        \<and> (contains_with_daa_score (ud_remove self) p (ue_block_daa_score other_entry)
           \<or> contains_with_daa_score (ud_add other) p (ue_block_daa_score this_entry)))"

definition diff_from :: "utxo_diff \<Rightarrow> utxo_diff \<Rightarrow> (utxo_algebra_error, utxo_diff) outcome" where
  "diff_from self other =
     (case intersects_with_rule (ud_remove self) (ud_add other) (rule_not_added_output_removed_with_daa_score self other) of
        Some p \<Rightarrow> Err (DiffIntersectionPoint p ''both in self.add and in other.remove'')
      | None \<Rightarrow>
     (case intersects_with_rule (ud_add self) (ud_remove other) (rule_not_removed_output_added_with_daa_score self other) of
        Some p \<Rightarrow> Err (DiffIntersectionPoint p ''both in self.remove and in other.add'')
      | None \<Rightarrow>
     (case intersects_with_rule (ud_remove self) (ud_remove other)
             (\<lambda>_ this_entry other_entry. ue_block_daa_score other_entry \<noteq> ue_block_daa_score this_entry) of
        Some p \<Rightarrow> Err (DiffIntersectionPoint p
          ''both in self.remove and other.remove with different DAA scores, with no corresponding entry in self.add'')
      | None \<Rightarrow>
        (let (remove1, in_both_to_add) = subtraction_with_remainder_having_daa_score_in_place (ud_add self) (ud_add other) [] []
         in if intersects in_both_to_add (ud_remove self) \<noteq> intersects in_both_to_add (ud_remove other)
            then Err (General ''diff_from: outpoint both in self.add, other.add, and only one of self.remove and other.remove'')
            else let remove2 = subtraction_having_daa_score_in_place (ud_remove other) (ud_remove self) remove1;
                     add1 = subtraction_having_daa_score_in_place (ud_remove self) (ud_remove other) [];
                     add2 = subtraction_having_daa_score_in_place (ud_add other) (ud_add self) add1
                 in Ok \<lparr>ud_add = add2, ud_remove = remove2\<rparr>))))"

definition remove_entry :: "tx_outpoint \<Rightarrow> utxo_entry \<Rightarrow> utxo_diff \<Rightarrow> (utxo_algebra_error, utxo_diff) outcome" where
  "remove_entry p entry d =
     (if contains_with_daa_score (ud_add d) p (ue_block_daa_score entry)
      then Ok (d\<lparr>ud_add := AList.delete p (ud_add d)\<rparr>)
      else if map_of (ud_remove d) p = None then Ok (d\<lparr>ud_remove := AList.update p entry (ud_remove d)\<rparr>)
      else Err (DoubleRemoveCall p))"

definition add_entry :: "tx_outpoint \<Rightarrow> utxo_entry \<Rightarrow> utxo_diff \<Rightarrow> (utxo_algebra_error, utxo_diff) outcome" where
  "add_entry p entry d =
     (if contains_with_daa_score (ud_remove d) p (ue_block_daa_score entry)
      then Ok (d\<lparr>ud_remove := AList.delete p (ud_remove d)\<rparr>)
      else if map_of (ud_add d) p = None then Ok (d\<lparr>ud_add := AList.update p entry (ud_add d)\<rparr>)
      else Err (DoubleAddCall p))"

text \<open>A verifiable transaction: the transaction with the entry each input spends.\<close>

record populated_transaction =
  pt_tx :: transaction
  pt_entries :: "utxo_entry list"

definition populated_transaction_new :: "transaction \<Rightarrow> utxo_entry list \<Rightarrow> ('e, populated_transaction) outcome" where
  "populated_transaction_new tx entries =
     (if length (tx_inputs tx) = length entries then Ok \<lparr>pt_tx = tx, pt_entries = entries\<rparr> else Panic)"

definition populated_input :: "populated_transaction \<Rightarrow> nat \<Rightarrow> ('e, tx_input \<times> utxo_entry) outcome" where
  "populated_input t index =
     bind_outcome (nth_p (tx_inputs (pt_tx t)) index) (\<lambda>inp.
     bind_outcome (nth_p (pt_entries t) index) (\<lambda>entry. Ok (inp, entry)))"

definition output_entry :: "u64 \<Rightarrow> bool \<Rightarrow> tx_output \<Rightarrow> utxo_entry" where
  "output_entry block_daa_score coinbase out =
     \<lparr>ue_amount = to_value out, ue_script_public_key = to_script_public_key out, ue_block_daa_score = block_daa_score,
      ue_is_coinbase = coinbase, ue_covenant_id = map_option cb_covenant_id (to_covenant out)\<rparr>"

definition output_entries :: "transaction \<Rightarrow> u64 \<Rightarrow> (tx_outpoint \<times> utxo_entry) list" where
  "output_entries tx block_daa_score =
     map (\<lambda>(i, out). (\<lparr>op_transaction_id = tx_id tx, op_index = of_nat i\<rparr>, output_entry block_daa_score (is_coinbase tx) out))
       (enumerate 0 (tx_outputs tx))"

definition add_transaction :: "populated_transaction \<Rightarrow> u64 \<Rightarrow> utxo_diff \<Rightarrow> (utxo_algebra_error, utxo_diff) outcome" where
  "add_transaction t block_daa_score d =
     bind_outcome
       (fold_outcome (\<lambda>i d. bind_outcome (populated_input t i)
           (\<lambda>(inp, entry). remove_entry (ti_previous_outpoint inp) entry d)) [0..<length (tx_inputs (pt_tx t))] d)
       (fold_outcome (\<lambda>(p, entry). add_entry p entry) (output_entries (pt_tx t) block_daa_score))"

section \<open>Views and the stored set\<close>

type_synonym utxo_view = "tx_outpoint \<Rightarrow> utxo_entry option"

definition compose :: "utxo_view \<Rightarrow> utxo_diff \<Rightarrow> utxo_view" where
  "compose base d p =
     (case map_of (ud_add d) p of
        Some entry \<Rightarrow> Some entry
      | None \<Rightarrow> if map_of (ud_remove d) p \<noteq> None then None else base p)"

definition write_diff :: "utxo_collection \<Rightarrow> utxo_diff \<Rightarrow> utxo_collection" where
  "write_diff access d = add_collection (remove_collection access (ud_remove d)) (ud_add d)"

section \<open>Lookups\<close>

abbreviation keys_distinct :: "utxo_collection \<Rightarrow> bool" where
  "keys_distinct c \<equiv> distinct (map fst c)"

lemma lookup_update: "map_of (AList.update k v c) p = (if p = k then Some v else map_of c p)"
  by (simp add: update_conv')

lemma lookup_delete: "map_of (AList.delete k c) p = (if p = k then None else map_of c p)"
  by (simp add: delete_conv')

lemma map_of_add_collection:
  "keys_distinct other \<Longrightarrow>
     map_of (add_collection self other) p = (case map_of other p of Some e \<Rightarrow> Some e | None \<Rightarrow> map_of self p)"
proof (induction other arbitrary: self)
  case (Cons x other)
  then have "map_of other (fst x) = None" by (auto simp: map_of_eq_None_iff)
  with Cons show ?case by (cases x) (auto simp: add_collection_def lookup_update split: option.split)
qed (simp add: add_collection_def)

lemma map_of_remove_collection:
  "map_of (remove_collection self other) p = (if map_of other p = None then map_of self p else None)"
  unfolding remove_collection_def by (induction other arbitrary: self) (auto simp: lookup_delete)

abbreviation same_score :: "utxo_collection \<Rightarrow> tx_outpoint \<Rightarrow> utxo_entry \<Rightarrow> bool" where
  "same_score c p e \<equiv> contains_with_daa_score c p (ue_block_daa_score e)"

lemma intersection_Cons:
  "intersection_with_remainder_having_daa_score_in_place ((k, e) # this) other result remainder =
     (if same_score other k e
      then intersection_with_remainder_having_daa_score_in_place this other (AList.update k e result) remainder
      else intersection_with_remainder_having_daa_score_in_place this other result (AList.update k e remainder))"
  by (simp add: intersection_with_remainder_having_daa_score_in_place_def)

lemma intersection_Nil:
  "intersection_with_remainder_having_daa_score_in_place [] other result remainder = (result, remainder)"
  by (simp add: intersection_with_remainder_having_daa_score_in_place_def)

lemma intersection_lookup:
  assumes "keys_distinct this"
  shows "map_of (fst (intersection_with_remainder_having_daa_score_in_place this other result remainder)) p =
      (case map_of this p of Some e \<Rightarrow> if same_score other p e then Some e else map_of result p | None \<Rightarrow> map_of result p)
    \<and> map_of (snd (intersection_with_remainder_having_daa_score_in_place this other result remainder)) p =
      (case map_of this p of Some e \<Rightarrow> if same_score other p e then map_of remainder p else Some e | None \<Rightarrow> map_of remainder p)"
  using assms
proof (induction this arbitrary: result remainder)
  case (Cons x this)
  obtain k e where x: "x = (k, e)" by (cases x)
  have "map_of this k = None" using Cons.prems x by (simp add: map_of_eq_None_iff)
  with Cons show ?case by (cases "p = k"; cases "same_score other k e") (simp_all add: x intersection_Cons lookup_update split: option.split)
qed (simp add: intersection_Nil)

lemma subtraction_lookup:
  assumes "keys_distinct this"
  shows "map_of (subtraction_having_daa_score_in_place this other result) p =
      (case map_of this p of Some e \<Rightarrow> if same_score other p e then map_of result p else Some e | None \<Rightarrow> map_of result p)"
  using assms
proof (induction this arbitrary: result)
  case (Cons x this)
  obtain k e where x: "x = (k, e)" by (cases x)
  have "map_of this k = None" using Cons.prems x by (simp add: map_of_eq_None_iff)
  with Cons show ?case
    by (cases "p = k"; cases "same_score other k e") (simp_all add: x lookup_update subtraction_having_daa_score_in_place_def split: option.split)
qed (simp add: subtraction_having_daa_score_in_place_def)

lemma subtraction_remainder_intersection:
  "subtraction_with_remainder_having_daa_score_in_place this other result remainder =
     prod.swap (intersection_with_remainder_having_daa_score_in_place this other remainder result)"
  unfolding subtraction_with_remainder_having_daa_score_in_place_def
  by (induction this arbitrary: result remainder) (auto simp: intersection_Nil intersection_Cons)

lemma keys_distinct_ops:
  "keys_distinct c \<Longrightarrow> keys_distinct (AList.update k v c)" "keys_distinct c \<Longrightarrow> keys_distinct (AList.delete k c)"
  by (simp_all add: distinct_update distinct_delete)

lemma keys_distinct_remove: "keys_distinct c \<Longrightarrow> keys_distinct (remove_collection c other)"
  unfolding remove_collection_def by (induction other arbitrary: c) (simp_all add: keys_distinct_ops)

lemma keys_distinct_intersection:
  "keys_distinct result \<Longrightarrow> keys_distinct remainder \<Longrightarrow>
     keys_distinct (fst (intersection_with_remainder_having_daa_score_in_place this other result remainder))
     \<and> keys_distinct (snd (intersection_with_remainder_having_daa_score_in_place this other result remainder))"
  by (induction this arbitrary: result remainder)
     (auto simp: intersection_Nil intersection_Cons keys_distinct_ops)

lemma keys_distinct_subtraction:
  "keys_distinct result \<Longrightarrow> keys_distinct (subtraction_having_daa_score_in_place this other result)"
  unfolding subtraction_having_daa_score_in_place_def
  by (induction this arbitrary: result) (auto simp: keys_distinct_ops)

lemma intersects_with_rule_None:
  assumes "keys_distinct self" "keys_distinct other"
  shows "intersects_with_rule self other rule = None \<longleftrightarrow>
    (\<forall>p e1 e2. map_of self p = Some e1 \<longrightarrow> map_of other p = Some e2 \<longrightarrow> \<not> rule p e1 e2)"
proof -
  have s: "(p, e) \<in> set self \<longleftrightarrow> map_of self p = Some e" and t: "(p, e) \<in> set other \<longleftrightarrow> map_of other p = Some e" for p e
    using assms by simp_all
  show ?thesis unfolding intersects_with_rule_def
    by (auto simp: find_None_iff s t split: option.splits)
qed

lemma intersects_iff: "intersects self other \<longleftrightarrow> (\<exists>p. map_of self p \<noteq> None \<and> map_of other p \<noteq> None)"
proof -
  have "k \<in> set (map fst c) \<longleftrightarrow> map_of c k \<noteq> None" for k and c :: utxo_collection
    by (simp add: map_of_eq_None_iff)
  then show ?thesis unfolding intersects_def by (auto simp: list_ex_iff simp del: set_map list.set_map)
qed

section \<open>Diffs over a base set\<close>

text \<open>
  A diff is valid over a base when it removes entries the base holds and adds entries at outpoints the base
  does not hold, or at outpoints it removes with another DAA score. The algebra compares entries by their DAA
  score, so it relies on the score determining the entry of an outpoint: \<open>entries_by_score f\<close> says that
  \<open>f\<close> gives the entry of an outpoint created at a score.
\<close>

definition diff_valid :: "utxo_view \<Rightarrow> utxo_diff \<Rightarrow> bool" where
  "diff_valid base d \<longleftrightarrow> keys_distinct (ud_add d) \<and> keys_distinct (ud_remove d)
     \<and> (\<forall>p e. map_of (ud_remove d) p = Some e \<longrightarrow> base p = Some e)
     \<and> (\<forall>p e e0. map_of (ud_add d) p = Some e \<longrightarrow> base p = Some e0 \<longrightarrow>
          map_of (ud_remove d) p = Some e0 \<and> ue_block_daa_score e0 \<noteq> ue_block_daa_score e)"

definition entries_by_score :: "(tx_outpoint \<Rightarrow> u64 \<Rightarrow> utxo_entry) \<Rightarrow> utxo_view \<Rightarrow> bool" where
  "entries_by_score f v \<longleftrightarrow> (\<forall>p e. v p = Some e \<longrightarrow> e = f p (ue_block_daa_score e))"

lemma same_score_iff: "same_score c p e \<longleftrightarrow> (\<exists>e'. map_of c p = Some e' \<and> ue_block_daa_score e' = ue_block_daa_score e)"
  by (auto simp: contains_with_daa_score_def split: option.splits)

lemma diff_validD:
  assumes "diff_valid base d"
  shows "keys_distinct (ud_add d)" "keys_distinct (ud_remove d)"
    and "map_of (ud_remove d) p = Some e \<Longrightarrow> base p = Some e"
    and "map_of (ud_add d) p = Some e \<Longrightarrow> base p = Some e0 \<Longrightarrow> map_of (ud_remove d) p = Some e0"
    and "map_of (ud_add d) p = Some e \<Longrightarrow> map_of (ud_remove d) p = Some e0 \<Longrightarrow> ue_block_daa_score e0 \<noteq> ue_block_daa_score e"
  using assms unfolding diff_valid_def by blast+

lemma diff_validI:
  assumes "keys_distinct (ud_add d)" "keys_distinct (ud_remove d)"
    and "\<And>p e. map_of (ud_remove d) p = Some e \<Longrightarrow> base p = Some e"
    and "\<And>p e e0. map_of (ud_add d) p = Some e \<Longrightarrow> base p = Some e0 \<Longrightarrow>
      map_of (ud_remove d) p = Some e0 \<and> ue_block_daa_score e0 \<noteq> ue_block_daa_score e"
  shows "diff_valid base d"
  using assms unfolding diff_valid_def by blast

text \<open>One entry changes: the diff stays valid when the changed outpoint does.\<close>

lemma diff_valid_change:
  assumes "diff_valid base d" "keys_distinct (ud_add d')" "keys_distinct (ud_remove d')"
    and "\<And>q. q \<noteq> p \<Longrightarrow> map_of (ud_add d') q = map_of (ud_add d) q \<and> map_of (ud_remove d') q = map_of (ud_remove d) q"
    and "\<And>e. map_of (ud_remove d') p = Some e \<Longrightarrow> base p = Some e"
    and "\<And>e e0. map_of (ud_add d') p = Some e \<Longrightarrow> base p = Some e0 \<Longrightarrow>
      map_of (ud_remove d') p = Some e0 \<and> ue_block_daa_score e0 \<noteq> ue_block_daa_score e"
  shows "diff_valid base d'"
proof (rule diff_validI [OF assms(2,3)])
  fix q e
  assume r: "map_of (ud_remove d') q = Some e"
  show "base q = Some e"
  proof (cases "q = p")
    case True
    then show ?thesis using r assms(5) by simp
  next
    case False
    then show ?thesis using r assms(4) by (intro diff_validD(3) [OF assms(1)]) simp
  qed
next
  fix q e e0
  assume r: "map_of (ud_add d') q = Some e" "base q = Some e0"
  show "map_of (ud_remove d') q = Some e0 \<and> ue_block_daa_score e0 \<noteq> ue_block_daa_score e"
  proof (cases "q = p")
    case True
    then show ?thesis using r assms(6) by simp
  next
    case False
    then have add: "map_of (ud_add d) q = Some e" using r(1) assms(4) by simp
    have rem: "map_of (ud_remove d) q = Some e0" by (rule diff_validD(4) [OF assms(1) add r(2)])
    show ?thesis using diff_validD(5) [OF assms(1) add rem] rem assms(4) [OF False] by simp
  qed
qed

text \<open>What a valid diff does at one outpoint: nothing, remove, add, or replace.\<close>

lemma diff_valid_cases:
  assumes "diff_valid base d"
  obtains (keep) "map_of (ud_add d) p = None" "map_of (ud_remove d) p = None" "compose base d p = base p"
    | (del) e where "map_of (ud_add d) p = None" "map_of (ud_remove d) p = Some e" "base p = Some e" "compose base d p = None"
    | (new) e where "map_of (ud_add d) p = Some e" "map_of (ud_remove d) p = None" "base p = None" "compose base d p = Some e"
    | (swap) e e0 where "map_of (ud_add d) p = Some e" "map_of (ud_remove d) p = Some e0" "base p = Some e0"
        "compose base d p = Some e" "ue_block_daa_score e0 \<noteq> ue_block_daa_score e"
proof -
  note dv = diff_validD [OF assms]
  show thesis
  proof (cases "map_of (ud_add d) p")
    case None
    note add = this
    show thesis
    proof (cases "map_of (ud_remove d) p")
      case None
      then show thesis using add by (intro keep) (simp_all add: compose_def)
    next
      case (Some e0)
      then show thesis using add by (intro del [of e0]) (simp_all add: compose_def dv(3))
    qed
  next
    case (Some e)
    note add = this
    show thesis
    proof (cases "map_of (ud_remove d) p")
      case None
      then have "base p = None" using dv(4) [OF add] by (cases "base p") auto
      then show thesis using add None by (intro new [of e]) (simp_all add: compose_def)
    next
      case (Some e0)
      then show thesis using add dv(5) [OF add Some] by (intro swap [of e e0]) (simp_all add: compose_def dv(3))
    qed
  qed
qed

text \<open>Composition of two diffs, pointwise.\<close>

lemma with_diff_checks:
  assumes "diff_valid base d1" "diff_valid (compose base d1) d2"
  shows "intersects_with_rule (ud_remove d2) (ud_remove d1) (\<lambda>p e _. \<not> same_score (ud_add d1) p e) = None"
    and "intersects_with_rule (ud_add d2) (ud_add d1) (\<lambda>p _ e. \<not> same_score (ud_remove d2) p e) = None"
proof -
  note v1 = diff_validD [OF assms(1)] and v2 = diff_validD [OF assms(2)]
  show "intersects_with_rule (ud_remove d2) (ud_remove d1) (\<lambda>p e _. \<not> same_score (ud_add d1) p e) = None"
    unfolding intersects_with_rule_None [OF v2(2) v1(2)]
  proof (intro allI impI notI)
    fix p e1 e2
    assume r: "map_of (ud_remove d2) p = Some e1" "map_of (ud_remove d1) p = Some e2" "\<not> same_score (ud_add d1) p e1"
    have "compose base d1 p = Some e1" by (rule v2(3) [OF r(1)])
    with assms(1) r(2,3) show False
      by (cases rule: diff_valid_cases [where p = p]) (simp_all add: same_score_iff)
  qed
  show "intersects_with_rule (ud_add d2) (ud_add d1) (\<lambda>p _ e. \<not> same_score (ud_remove d2) p e) = None"
    unfolding intersects_with_rule_None [OF v2(1) v1(1)]
  proof (intro allI impI notI)
    fix p e1 e2
    assume r: "map_of (ud_add d2) p = Some e1" "map_of (ud_add d1) p = Some e2" "\<not> same_score (ud_remove d2) p e2"
    then have "compose base d1 p = Some e2" by (simp add: compose_def)
    with v2(4) [OF r(1) this] r(3) show False by (simp add: same_score_iff)
  qed
qed

text \<open>The removals after the first intersection, and the additions that survive it.\<close>

definition removed_after :: "utxo_diff \<Rightarrow> utxo_diff \<Rightarrow> tx_outpoint \<Rightarrow> utxo_entry option" where
  "removed_after d1 d2 p =
     (case map_of (ud_remove d2) p of Some e \<Rightarrow> if same_score (ud_add d1) p e then map_of (ud_remove d1) p else Some e
      | None \<Rightarrow> map_of (ud_remove d1) p)"

definition added_after :: "utxo_diff \<Rightarrow> utxo_diff \<Rightarrow> tx_outpoint \<Rightarrow> utxo_entry option" where
  "added_after d1 d2 p =
     (case map_of (ud_remove d2) p of Some e \<Rightarrow> if same_score (ud_add d1) p e then None else map_of (ud_add d1) p
      | None \<Rightarrow> map_of (ud_add d1) p)"

definition score_matches :: "utxo_entry option \<Rightarrow> utxo_entry \<Rightarrow> bool" where
  "score_matches r e \<longleftrightarrow> (\<exists>e'. r = Some e' \<and> ue_block_daa_score e' = ue_block_daa_score e)"

lemma with_diff_ok:
  assumes "diff_valid base d1" "diff_valid (compose base d1) d2"
  obtains d where "with_diff d1 d2 = Ok d" "keys_distinct (ud_add d)" "keys_distinct (ud_remove d)"
    "\<And>p. map_of (ud_add d) p = (case map_of (ud_add d2) p of
        Some e \<Rightarrow> if score_matches (removed_after d1 d2 p) e then added_after d1 d2 p else Some e
      | None \<Rightarrow> added_after d1 d2 p)"
    "\<And>p. map_of (ud_remove d) p = (case map_of (ud_add d2) p of
        Some e \<Rightarrow> if score_matches (removed_after d1 d2 p) e then None else removed_after d1 d2 p
      | None \<Rightarrow> removed_after d1 d2 p)"
proof -
  note v1 = diff_validD [OF assms(1)] and v2 = diff_validD [OF assms(2)]
  obtain i1 r1 where 1: "intersection_with_remainder_having_daa_score_in_place (ud_remove d2) (ud_add d1) [] (ud_remove d1) = (i1, r1)"
    by fastforce
  obtain i2 a2 where 2: "intersection_with_remainder_having_daa_score_in_place (ud_add d2) r1 [] (remove_collection (ud_add d1) i1) = (i2, a2)"
    by fastforce
  note l1 = intersection_lookup [OF v2(2), of "ud_add d1" "[]" "ud_remove d1", unfolded 1 fst_conv snd_conv]
  note l2 = intersection_lookup [OF v2(1), of r1 "[]" "remove_collection (ud_add d1) i1", unfolded 2 fst_conv snd_conv]
  show thesis
  proof (rule that)
    show "with_diff d1 d2 = Ok \<lparr>ud_add = a2, ud_remove = remove_collection r1 i2\<rparr>"
      by (simp add: with_diff_def with_diff_in_place_def with_diff_checks [OF assms] 1 2)
    show "keys_distinct (ud_add \<lparr>ud_add = a2, ud_remove = remove_collection r1 i2\<rparr>)"
      "keys_distinct (ud_remove \<lparr>ud_add = a2, ud_remove = remove_collection r1 i2\<rparr>)"
      using keys_distinct_intersection [of "[]" "ud_remove d1" "ud_remove d2" "ud_add d1"] v1(1,2) v2(1,2)
        keys_distinct_intersection [of "[]" "remove_collection (ud_add d1) i1" "ud_add d2" r1]
      by (simp_all add: 1 2 keys_distinct_remove)
  next
    fix p
    have r1: "map_of r1 p = removed_after d1 d2 p" and i1: "map_of (remove_collection (ud_add d1) i1) p = added_after d1 d2 p"
      using l1 [of p] by (cases "map_of (ud_remove d2) p"; simp add: removed_after_def added_after_def map_of_remove_collection)+
    have "same_score r1 p e \<longleftrightarrow> score_matches (removed_after d1 d2 p) e" for e
      by (simp add: same_score_iff score_matches_def r1)
    note l2 = l2 [of p, unfolded this r1 i1]
    show "map_of (ud_add \<lparr>ud_add = a2, ud_remove = remove_collection r1 i2\<rparr>) p = (case map_of (ud_add d2) p of
        Some e \<Rightarrow> if score_matches (removed_after d1 d2 p) e then added_after d1 d2 p else Some e
      | None \<Rightarrow> added_after d1 d2 p)"
      using l2 by simp
    show "map_of (ud_remove \<lparr>ud_add = a2, ud_remove = remove_collection r1 i2\<rparr>) p = (case map_of (ud_add d2) p of
        Some e \<Rightarrow> if score_matches (removed_after d1 d2 p) e then None else removed_after d1 d2 p
      | None \<Rightarrow> removed_after d1 d2 p)"
      using l2 by (cases "map_of (ud_add d2) p") (simp_all add: map_of_remove_collection r1)
  qed
qed

lemma with_diff_pointwise:
  assumes v: "diff_valid base d1" "diff_valid (compose base d1) d2" and "with_diff d1 d2 = Ok d"
    and f: "entries_by_score f base" "entries_by_score f (compose base d1)" "entries_by_score f (compose (compose base d1) d2)"
  shows "diff_valid base d \<and> (\<forall>p. compose base d p = compose (compose base d1) d2 p)"
proof -
  from v obtain d' where d': "with_diff d1 d2 = Ok d'" "keys_distinct (ud_add d')" "keys_distinct (ud_remove d')"
    and add: "\<And>p. map_of (ud_add d') p = (case map_of (ud_add d2) p of
        Some e \<Rightarrow> if score_matches (removed_after d1 d2 p) e then added_after d1 d2 p else Some e
      | None \<Rightarrow> added_after d1 d2 p)"
    and rem: "\<And>p. map_of (ud_remove d') p = (case map_of (ud_add d2) p of
        Some e \<Rightarrow> if score_matches (removed_after d1 d2 p) e then None else removed_after d1 d2 p
      | None \<Rightarrow> removed_after d1 d2 p)"
    by (rule with_diff_ok) blast
  have eq: "d' = d" using d'(1) assms(3) by simp
  have det: "e = e'" if "base p = Some e" "compose (compose base d1) d2 p = Some e'" "ue_block_daa_score e = ue_block_daa_score e'" for p e e'
    using f(1,3) that unfolding entries_by_score_def by metis
  have pw: "compose base d p = compose (compose base d1) d2 p
    \<and> (\<forall>e. map_of (ud_remove d) p = Some e \<longrightarrow> base p = Some e)
    \<and> (\<forall>e e0. map_of (ud_add d) p = Some e \<longrightarrow> base p = Some e0 \<longrightarrow>
          map_of (ud_remove d) p = Some e0 \<and> ue_block_daa_score e0 \<noteq> ue_block_daa_score e)" for p
    using v(1)
  proof (cases rule: diff_valid_cases [where p = p])
    case keep
    note k1 = keep
    from v(2) show ?thesis
      by (cases rule: diff_valid_cases [where p = p])
         (use k1 det [of p] in \<open>simp_all add: add rem eq [symmetric] compose_def [of base] removed_after_def added_after_def
            score_matches_def same_score_iff\<close>)
  next
    case (del e)
    note k1 = del
    from v(2) show ?thesis
      by (cases rule: diff_valid_cases [where p = p])
         (use k1 det [of p] in \<open>auto simp: add rem eq [symmetric] compose_def [of base] removed_after_def added_after_def
            score_matches_def same_score_iff\<close>)
  next
    case (new e)
    note k1 = new
    from v(2) show ?thesis
      by (cases rule: diff_valid_cases [where p = p])
         (use k1 det [of p] in \<open>auto simp: add rem eq [symmetric] compose_def [of base] removed_after_def added_after_def
            score_matches_def same_score_iff\<close>)
  next
    case (swap e e0)
    note k1 = swap
    from v(2) show ?thesis
      by (cases rule: diff_valid_cases [where p = p])
         (use k1 det [of p] in \<open>auto simp: add rem eq [symmetric] compose_def [of base] removed_after_def added_after_def
            score_matches_def same_score_iff\<close>)
  qed
  then show ?thesis using d'(2,3) unfolding diff_valid_def eq by blast
qed

text \<open>The difference of two diffs over the same base, pointwise.\<close>

lemma diff_from_checks:
  assumes v1: "diff_valid base d1" and v2: "diff_valid base d2"
  shows "intersects_with_rule (ud_remove d1) (ud_add d2) (rule_not_added_output_removed_with_daa_score d1 d2) = None"
    and "intersects_with_rule (ud_add d1) (ud_remove d2) (rule_not_removed_output_added_with_daa_score d1 d2) = None"
    and "intersects_with_rule (ud_remove d1) (ud_remove d2)
           (\<lambda>_ e1 e2. ue_block_daa_score e2 \<noteq> ue_block_daa_score e1) = None"
proof -
  note dv1 = diff_validD [OF v1] and dv2 = diff_validD [OF v2]
  show "intersects_with_rule (ud_remove d1) (ud_add d2) (rule_not_added_output_removed_with_daa_score d1 d2) = None"
    unfolding intersects_with_rule_None [OF dv1(2) dv2(1)]
  proof (intro allI impI)
    fix p e1 e2
    assume r: "map_of (ud_remove d1) p = Some e1" "map_of (ud_add d2) p = Some e2"
    have "map_of (ud_remove d2) p = Some e1" by (rule dv2(4) [OF r(2) dv1(3) [OF r(1)]])
    with dv2(5) [OF r(2) this] show "\<not> rule_not_added_output_removed_with_daa_score d1 d2 p e1 e2"
      by (simp add: rule_not_added_output_removed_with_daa_score_def same_score_iff)
  qed
  show "intersects_with_rule (ud_add d1) (ud_remove d2) (rule_not_removed_output_added_with_daa_score d1 d2) = None"
    unfolding intersects_with_rule_None [OF dv1(1) dv2(2)]
  proof (intro allI impI)
    fix p e1 e2
    assume r: "map_of (ud_add d1) p = Some e1" "map_of (ud_remove d2) p = Some e2"
    have "map_of (ud_remove d1) p = Some e2" by (rule dv1(4) [OF r(1) dv2(3) [OF r(2)]])
    with dv1(5) [OF r(1) this] show "\<not> rule_not_removed_output_added_with_daa_score d1 d2 p e1 e2"
      by (simp add: rule_not_removed_output_added_with_daa_score_def same_score_iff)
  qed
  show "intersects_with_rule (ud_remove d1) (ud_remove d2) (\<lambda>_ e1 e2. ue_block_daa_score e2 \<noteq> ue_block_daa_score e1) = None"
    unfolding intersects_with_rule_None [OF dv1(2) dv2(2)]
  proof (intro allI impI)
    fix p e1 e2
    assume "map_of (ud_remove d1) p = Some e1" "map_of (ud_remove d2) p = Some e2"
    then show "\<not> ue_block_daa_score e2 \<noteq> ue_block_daa_score e1" using dv1(3) dv2(3) by fastforce
  qed
qed

lemma removed_iff_based:
  assumes "diff_valid base d" "map_of (ud_add d) p = Some e"
  shows "map_of (ud_remove d) p = base p"
  using assms by (cases rule: diff_valid_cases [where p = p]) simp_all

definition minus_scored :: "utxo_collection \<Rightarrow> utxo_collection \<Rightarrow> tx_outpoint \<Rightarrow> utxo_entry option" where
  "minus_scored a b p = (case map_of a p of Some e \<Rightarrow> if same_score b p e then None else Some e | None \<Rightarrow> None)"

definition or_else :: "'a option \<Rightarrow> 'a option \<Rightarrow> 'a option" where
  "or_else a b = (case a of Some x \<Rightarrow> Some x | None \<Rightarrow> b)"

lemma diff_from_ok:
  assumes v1: "diff_valid base d1" and v2: "diff_valid base d2"
  obtains d where "diff_from d1 d2 = Ok d" "keys_distinct (ud_add d)" "keys_distinct (ud_remove d)"
    "\<And>p. map_of (ud_add d) p = or_else (minus_scored (ud_add d2) (ud_add d1) p) (minus_scored (ud_remove d1) (ud_remove d2) p)"
    "\<And>p. map_of (ud_remove d) p = or_else (minus_scored (ud_remove d2) (ud_remove d1) p) (minus_scored (ud_add d1) (ud_add d2) p)"
proof -
  note dv1 = diff_validD [OF v1] and dv2 = diff_validD [OF v2]
  obtain both r1 where 1: "intersection_with_remainder_having_daa_score_in_place (ud_add d1) (ud_add d2) [] [] = (both, r1)"
    by fastforce
  note l1 = intersection_lookup [OF dv1(1), of "ud_add d2" "[]" "[]", unfolded 1 fst_conv snd_conv]
  have both: "map_of (ud_remove d1) p = map_of (ud_remove d2) p" if "map_of both p \<noteq> None" for p
    using that l1 [of p] removed_iff_based [OF v1, of p] removed_iff_based [OF v2, of p]
    by (auto simp: same_score_iff split: option.splits if_splits)
  have inter: "intersects both (ud_remove d1) = intersects both (ud_remove d2)"
    unfolding intersects_iff using both by metis
  have sub: "subtraction_with_remainder_having_daa_score_in_place (ud_add d1) (ud_add d2) [] [] = (r1, both)"
    by (simp add: subtraction_remainder_intersection 1)
  let ?a1 = "subtraction_having_daa_score_in_place (ud_remove d1) (ud_remove d2) []"
  let ?d = "\<lparr>ud_add = subtraction_having_daa_score_in_place (ud_add d2) (ud_add d1) ?a1,
    ud_remove = subtraction_having_daa_score_in_place (ud_remove d2) (ud_remove d1) r1\<rparr>"
  show thesis
  proof (rule that)
    show "diff_from d1 d2 = Ok ?d"
      by (simp add: diff_from_def diff_from_checks [OF v1 v2] sub inter)
    show "keys_distinct (ud_add ?d)" "keys_distinct (ud_remove ?d)"
      using keys_distinct_intersection [of "[]" "[]" "ud_add d1" "ud_add d2"] by (simp_all add: 1 keys_distinct_subtraction)
    fix p
    show "map_of (ud_add ?d) p = or_else (minus_scored (ud_add d2) (ud_add d1) p) (minus_scored (ud_remove d1) (ud_remove d2) p)"
      by (cases "map_of (ud_add d2) p"; cases "map_of (ud_remove d1) p")
         (simp_all add: subtraction_lookup dv1(1,2) dv2(1,2) or_else_def minus_scored_def)
    show "map_of (ud_remove ?d) p = or_else (minus_scored (ud_remove d2) (ud_remove d1) p) (minus_scored (ud_add d1) (ud_add d2) p)"
      using l1 [of p] by (cases "map_of (ud_remove d2) p"; cases "map_of (ud_add d1) p")
         (simp_all add: subtraction_lookup dv1(1,2) dv2(1,2) or_else_def minus_scored_def)
  qed
qed

lemma diff_from_pointwise:
  assumes v1: "diff_valid base d1" and v2: "diff_valid base d2" and "diff_from d1 d2 = Ok d"
    and f: "entries_by_score f (compose base d1)" "entries_by_score f (compose base d2)"
  shows "diff_valid (compose base d1) d \<and> (\<forall>p. compose (compose base d1) d p = compose base d2 p)"
proof -
  from v1 v2 obtain d' where d': "diff_from d1 d2 = Ok d'" "keys_distinct (ud_add d')" "keys_distinct (ud_remove d')"
    and add: "\<And>p. map_of (ud_add d') p = or_else (minus_scored (ud_add d2) (ud_add d1) p) (minus_scored (ud_remove d1) (ud_remove d2) p)"
    and rem: "\<And>p. map_of (ud_remove d') p = or_else (minus_scored (ud_remove d2) (ud_remove d1) p) (minus_scored (ud_add d1) (ud_add d2) p)"
    by (rule diff_from_ok) blast
  have eq: "d' = d" using d'(1) assms(3) by simp
  have det: "e = e'" if "compose base d1 p = Some e" "compose base d2 p = Some e'" "ue_block_daa_score e = ue_block_daa_score e'" for p e e'
    using f that unfolding entries_by_score_def by metis
  have pw: "compose (compose base d1) d p = compose base d2 p
    \<and> (\<forall>e. map_of (ud_remove d) p = Some e \<longrightarrow> compose base d1 p = Some e)
    \<and> (\<forall>e e0. map_of (ud_add d) p = Some e \<longrightarrow> compose base d1 p = Some e0 \<longrightarrow>
          map_of (ud_remove d) p = Some e0 \<and> ue_block_daa_score e0 \<noteq> ue_block_daa_score e)" for p
    using v1
  proof (cases rule: diff_valid_cases [where p = p])
    case keep
    note k1 = keep
    from v2 show ?thesis
      by (cases rule: diff_valid_cases [where p = p])
         (use k1 det [of p] in \<open>auto simp: add rem eq [symmetric] compose_def [of "compose base d1"] minus_scored_def or_else_def same_score_iff\<close>)
  next
    case (del e)
    note k1 = del
    from v2 show ?thesis
      by (cases rule: diff_valid_cases [where p = p])
         (use k1 det [of p] in \<open>auto simp: add rem eq [symmetric] compose_def [of "compose base d1"] minus_scored_def or_else_def same_score_iff\<close>)
  next
    case (new e)
    note k1 = new
    from v2 show ?thesis
      by (cases rule: diff_valid_cases [where p = p])
         (use k1 det [of p] in \<open>auto simp: add rem eq [symmetric] compose_def [of "compose base d1"] minus_scored_def or_else_def same_score_iff\<close>)
  next
    case (swap e e0)
    note k1 = swap
    from v2 show ?thesis
      by (cases rule: diff_valid_cases [where p = p])
         (use k1 det [of p] in \<open>auto simp: add rem eq [symmetric] compose_def [of "compose base d1"] minus_scored_def or_else_def same_score_iff\<close>)
  qed
  then show ?thesis using d'(2,3) unfolding diff_valid_def eq by blast
qed

text \<open>Writing a diff to the stored set gives the set read through the diff.\<close>

lemma write_diff_view:
  assumes "keys_distinct (ud_add d)"
  shows "map_of (write_diff access d) = compose (map_of access) d"
  using assms by (auto simp: fun_eq_iff write_diff_def compose_def map_of_add_collection map_of_remove_collection split: option.split)

section \<open>The effect of a transaction\<close>

lemma remove_entry_ok:
  assumes "diff_valid base d" "compose base d p = Some e"
  shows "\<exists>d'. remove_entry p e d = Ok d' \<and> diff_valid base d' \<and> compose base d' = (compose base d)(p := None)"
proof -
  have del: "compose base (d\<lparr>ud_add := AList.delete p (ud_add d)\<rparr>) = (compose base d)(p := None)"
    if "map_of (ud_remove d) p \<noteq> None \<or> base p = None"
    using that by (auto simp: compose_def lookup_delete fun_eq_iff)
  have ins: "compose base (d\<lparr>ud_remove := AList.update p e (ud_remove d)\<rparr>) = (compose base d)(p := None)"
    if "map_of (ud_add d) p = None"
    using that by (auto simp: compose_def lookup_update fun_eq_iff split: option.splits)
  note dv = diff_validD [OF assms(1)]
  have vdel: "diff_valid base (d\<lparr>ud_add := AList.delete p (ud_add d)\<rparr>)"
    by (rule diff_valid_change [OF assms(1), of _ p]) (simp_all add: lookup_delete keys_distinct_ops dv(1,2,3))
  have vins: "diff_valid base (d\<lparr>ud_remove := AList.update p e (ud_remove d)\<rparr>)"
    if "map_of (ud_add d) p = None" "base p = Some e"
    by (rule diff_valid_change [OF assms(1), of _ p]) (simp_all add: lookup_update keys_distinct_ops dv(1,2) that)
  from assms(1) show ?thesis
  proof (cases rule: diff_valid_cases [where p = p])
    case keep
    then show ?thesis using assms(2) ins vins by (simp add: remove_entry_def same_score_iff)
  next
    case (new e')
    then show ?thesis using assms(2) del vdel by (simp add: remove_entry_def same_score_iff)
  next
    case (swap e' e0)
    then show ?thesis using assms(2) del vdel by (simp add: remove_entry_def same_score_iff)
  qed (use assms(2) in simp)
qed

lemma add_entry_ok:
  assumes "diff_valid base d" "compose base d p = None"
    and same: "\<And>e0. base p = Some e0 \<Longrightarrow> ue_block_daa_score e0 = ue_block_daa_score e \<Longrightarrow> e0 = e"
  shows "\<exists>d'. add_entry p e d = Ok d' \<and> diff_valid base d' \<and> compose base d' = (compose base d)(p \<mapsto> e)"
  using assms(1)
proof (cases rule: diff_valid_cases [where p = p])
  case keep
  have "diff_valid base (d\<lparr>ud_add := AList.update p e (ud_add d)\<rparr>)"
    by (rule diff_valid_change [OF assms(1), of _ p])
       (use keep assms(2) in \<open>simp_all add: lookup_update keys_distinct_ops diff_validD(1,2) [OF assms(1)]\<close>)
  moreover have "compose base (d\<lparr>ud_add := AList.update p e (ud_add d)\<rparr>) = (compose base d)(p \<mapsto> e)"
    by (auto simp: compose_def lookup_update fun_eq_iff)
  ultimately show ?thesis using keep by (simp add: add_entry_def same_score_iff)
next
  case (del e0)
  show ?thesis
  proof (cases "ue_block_daa_score e0 = ue_block_daa_score e")
    case True
    have "diff_valid base (d\<lparr>ud_remove := AList.delete p (ud_remove d)\<rparr>)"
      by (rule diff_valid_change [OF assms(1), of _ p])
         (use del in \<open>simp_all add: lookup_delete keys_distinct_ops diff_validD(1,2) [OF assms(1)]\<close>)
    moreover have "compose base (d\<lparr>ud_remove := AList.delete p (ud_remove d)\<rparr>) = (compose base d)(p \<mapsto> e)"
      using del same [OF del(3) True] by (auto simp: compose_def lookup_delete fun_eq_iff split: option.splits)
    ultimately show ?thesis using True del by (simp add: add_entry_def same_score_iff)
  next
    case False
    have "diff_valid base (d\<lparr>ud_add := AList.update p e (ud_add d)\<rparr>)"
      by (rule diff_valid_change [OF assms(1), of _ p])
         (use del False in \<open>simp_all add: lookup_update keys_distinct_ops diff_validD(1,2) [OF assms(1)]\<close>)
    moreover have "compose base (d\<lparr>ud_add := AList.update p e (ud_add d)\<rparr>) = (compose base d)(p \<mapsto> e)"
      by (auto simp: compose_def lookup_update fun_eq_iff)
    ultimately show ?thesis using False del by (simp add: add_entry_def same_score_iff)
  qed
qed (use assms(2) in simp_all)

text \<open>The specification: spend the inputs, then create the outputs.\<close>

definition spend_all :: "tx_outpoint list \<Rightarrow> utxo_view \<Rightarrow> utxo_view" where
  "spend_all ps v = (\<lambda>p. if p \<in> set ps then None else v p)"

lemma remove_fold_ok:
  assumes "length (pt_entries t) = length (tx_inputs (pt_tx t))" "n \<le> length (tx_inputs (pt_tx t))"
    and "distinct (map ti_previous_outpoint (tx_inputs (pt_tx t)))" "diff_valid base d"
    and "\<And>i. i < length (tx_inputs (pt_tx t)) \<Longrightarrow>
      compose base d (ti_previous_outpoint (tx_inputs (pt_tx t) ! i)) = Some (pt_entries t ! i)"
  shows "\<exists>d'. fold_outcome (\<lambda>i d. bind_outcome (populated_input t i)
      (\<lambda>(inp, entry). remove_entry (ti_previous_outpoint inp) entry d)) [0..<n] d = Ok d' \<and> diff_valid base d'
    \<and> compose base d' = spend_all (map ti_previous_outpoint (take n (tx_inputs (pt_tx t)))) (compose base d)"
  using assms(2)
proof (induction n)
  case 0
  then show ?case using assms(4) by (simp add: spend_all_def)
next
  case (Suc n)
  let ?ops = "map ti_previous_outpoint (tx_inputs (pt_tx t))"
  let ?f = "\<lambda>i d. bind_outcome (populated_input t i) (\<lambda>(inp, entry). remove_entry (ti_previous_outpoint inp) entry d)"
  obtain d1 where d1: "fold_outcome ?f [0..<n] d = Ok d1" "diff_valid base d1"
    "compose base d1 = spend_all (take n ?ops) (compose base d)"
    using Suc by (auto simp: take_map)
  have n: "n < length (tx_inputs (pt_tx t))" using Suc.prems by simp
  then have fresh: "?ops ! n \<notin> set (take n ?ops)"
    using assms(3) by (auto simp: in_set_conv_nth nth_eq_iff_index_eq simp del: nth_map)
  then have "compose base d1 (?ops ! n) = Some (pt_entries t ! n)"
    using d1(3) assms(5) [OF n] n by (simp add: spend_all_def)
  from remove_entry_ok [OF d1(2) this] obtain d2 where d2: "remove_entry (?ops ! n) (pt_entries t ! n) d1 = Ok d2"
    "diff_valid base d2" "compose base d2 = (compose base d1)(?ops ! n := None)" by blast
  have "compose base d2 = spend_all (take (Suc n) ?ops) (compose base d)"
    using d1(3) d2(3) n by (auto simp: spend_all_def take_Suc_conv_app_nth fun_eq_iff)
  then show ?case using d1 d2 n assms(1)
    by (simp add: fold_outcome_append populated_input_def take_map)
qed

lemma add_fold_ok:
  assumes "distinct (map fst outs)" "diff_valid base d"
    and "\<And>p e. (p, e) \<in> set outs \<Longrightarrow> compose base d p = None"
    and "\<And>p e e0. (p, e) \<in> set outs \<Longrightarrow> base p = Some e0 \<Longrightarrow> ue_block_daa_score e0 = ue_block_daa_score e \<Longrightarrow> e0 = e"
  shows "\<exists>d'. fold_outcome (\<lambda>(p, entry). add_entry p entry) outs d = Ok d' \<and> diff_valid base d'
    \<and> compose base d' = compose base d ++ map_of outs"
  using assms
proof (induction outs arbitrary: d)
  case (Cons x outs)
  obtain p e where x: "x = (p, e)" by (cases x)
  obtain d1 where d1: "add_entry p e d = Ok d1" "diff_valid base d1" "compose base d1 = (compose base d)(p \<mapsto> e)"
    using add_entry_ok [OF Cons.prems(2), of p e] Cons.prems(3,4) [of p e] unfolding x by (metis list.set_intros(1))
  have p: "p \<notin> fst ` set outs" using Cons.prems(1) by (simp add: x)
  have "\<exists>d'. fold_outcome (\<lambda>(p, entry). add_entry p entry) outs d1 = Ok d' \<and> diff_valid base d'
    \<and> compose base d' = compose base d1 ++ map_of outs"
  proof (rule Cons.IH [OF _ d1(2)])
    show "distinct (map fst outs)" using Cons.prems(1) by simp
    fix q e1 e0
    assume q: "(q, e1) \<in> set outs"
    then have "q \<noteq> p" using p by force
    then show "compose base d1 q = None" using Cons.prems(3) [of q e1] q by (simp add: d1(3))
    assume "base q = Some e0" "ue_block_daa_score e0 = ue_block_daa_score e1"
    then show "e0 = e1" using Cons.prems(4) [of q e1 e0] q by simp
  qed
  then obtain d' where d': "fold_outcome (\<lambda>(p, entry). add_entry p entry) outs d1 = Ok d'" "diff_valid base d'"
    "compose base d' = compose base d1 ++ map_of outs" by blast
  have "(compose base d1 ++ map_of outs) q = (compose base d ++ map_of (x # outs)) q" for q
  proof (cases "q = p")
    case True
    then have "map_of outs q = None" using p by (simp add: map_of_eq_None_iff)
    then show ?thesis using True by (simp add: d1(3) x map_add_def)
  next
    case False
    then show ?thesis by (simp add: d1(3) x map_add_def split: option.split)
  qed
  then have "compose base d' = compose base d ++ map_of (x # outs)" using d'(3) by (simp only: fun_eq_iff) simp
  moreover have "fold_outcome (\<lambda>(p, entry). add_entry p entry) (x # outs) d = Ok d'" using d1(1) d'(1) by (simp add: x)
  ultimately show ?case using d'(2) by blast
qed simp

lemma distinct_output_entries:
  assumes "length (tx_outputs tx) \<le> 2 ^ 32"
  shows "distinct (map fst (output_entries tx daa))"
proof -
  have "inj_on (\<lambda>i. of_nat i :: u32) {0..<length (tx_outputs tx)}"
    by (rule inj_onI) (use assms in \<open>simp add: word_unat_eq_iff unat_of_nat\<close>)
  then show ?thesis
    by (auto simp: output_entries_def distinct_conv_nth nth_enumerate_eq inj_on_def)
qed

lemma output_entries_id: "(p, e) \<in> set (output_entries tx daa) \<Longrightarrow> op_transaction_id p = tx_id tx \<and> ue_block_daa_score e = daa"
  by (auto simp: output_entries_def output_entry_def)

section \<open>Properties\<close>

text \<open>C25. Composing two diffs is applying them in turn. Over a base set that the first diff fits and whose result the
  second one fits, \<^const>\<open>with_diff\<close> reports no error, its result fits the base, and reading through it is
  reading through both. The algebra tells entries of an outpoint apart by their DAA score alone, so this
  needs that the score determines the entry.\<close>

theorem with_diff_composes:
  assumes "diff_valid base d1" "diff_valid (compose base d1) d2"
    and "entries_by_score f base" "entries_by_score f (compose base d1)" "entries_by_score f (compose (compose base d1) d2)"
  shows "\<exists>d. with_diff d1 d2 = Ok d \<and> diff_valid base d \<and> compose base d = compose (compose base d1) d2"
proof -
  obtain d where d: "with_diff d1 d2 = Ok d" using assms(1,2) by (rule with_diff_ok)
  from with_diff_pointwise [OF assms(1,2) d assms(3,4,5)] d show ?thesis by (auto simp: fun_eq_iff)
qed

text \<open>C26. The difference of two diffs over one base leads from the set of the first to the set of the second: it
  reports no error, fits the first set, and reading through it gives the second set.\<close>

theorem diff_from_connects:
  assumes "diff_valid base d1" "diff_valid base d2"
    and "entries_by_score f (compose base d1)" "entries_by_score f (compose base d2)"
  shows "\<exists>d. diff_from d1 d2 = Ok d \<and> diff_valid (compose base d1) d
    \<and> compose (compose base d1) d = compose base d2"
proof -
  obtain d where d: "diff_from d1 d2 = Ok d" using assms(1,2) by (rule diff_from_ok)
  from diff_from_pointwise [OF assms(1,2) d assms(3,4)] d show ?thesis by (auto simp: fun_eq_iff)
qed

text \<open>C27. Adding a transaction to a diff spends its inputs and creates its outputs in the set read through the
  diff, and nothing else: for a transaction whose inputs are distinct and spend the entries it was populated
  with, whose id is new to the set, and at most \<open>2 ^ 32\<close> outputs (the index is cast to 32 bits).\<close>

theorem add_transaction_effect:
  assumes "populated_transaction_new tx entries = Ok t" "diff_valid base d"
    and "distinct (map ti_previous_outpoint (tx_inputs tx))" "length (tx_outputs tx) \<le> 2 ^ 32"
    and "\<forall>i<length (tx_inputs tx). compose base d (ti_previous_outpoint (tx_inputs tx ! i)) = Some (entries ! i)"
    and "\<forall>i. compose base d \<lparr>op_transaction_id = tx_id tx, op_index = i\<rparr> = None"
    and "\<forall>(p, e)\<in>set (output_entries tx daa_score). \<forall>e0. base p = Some e0 \<and> ue_block_daa_score e0 = daa_score \<longrightarrow> e0 = e"
  shows "\<exists>d'. add_transaction t daa_score d = Ok d' \<and> diff_valid base d'
    \<and> compose base d' = spend_all (map ti_previous_outpoint (tx_inputs tx)) (compose base d) ++ map_of (output_entries tx daa_score)"
proof -
  have t: "pt_tx t = tx" "pt_entries t = entries" "length entries = length (tx_inputs tx)"
    using assms(1) by (auto simp: populated_transaction_new_def split: if_splits)
  obtain d1 where d1: "fold_outcome (\<lambda>i d. bind_outcome (populated_input t i)
      (\<lambda>(inp, entry). remove_entry (ti_previous_outpoint inp) entry d)) [0..<length (tx_inputs (pt_tx t))] d = Ok d1"
    "diff_valid base d1" "compose base d1 = spend_all (map ti_previous_outpoint (tx_inputs tx)) (compose base d)"
    using remove_fold_ok [of t "length (tx_inputs tx)" base d] assms(2,3,5) t by auto
  have new: "compose base d p = None" if "(p, e) \<in> set (output_entries tx daa_score)" for p e
    using assms(6) output_entries_id [OF that] by (metis tx_outpoint.surjective old.unit.exhaust)
  have same: "e0 = e" if "(p, e) \<in> set (output_entries tx daa_score)" "base p = Some e0"
      "ue_block_daa_score e0 = ue_block_daa_score e" for p e e0
    using assms(7) output_entries_id [OF that(1)] that by fastforce
  have "\<exists>d'. fold_outcome (\<lambda>(p, entry). add_entry p entry) (output_entries tx daa_score) d1 = Ok d' \<and> diff_valid base d'
    \<and> compose base d' = compose base d1 ++ map_of (output_entries tx daa_score)"
  proof (rule add_fold_ok [OF distinct_output_entries [OF assms(4)] d1(2)])
    show "compose base d1 p = None" if "(p, e) \<in> set (output_entries tx daa_score)" for p e
      using new [OF that] by (simp add: d1(3) spend_all_def)
  qed (rule same)
  then show ?thesis using d1 by (simp add: add_transaction_def t)
qed

text \<open>The witnesses: an entry created at score 5 at an outpoint of an empty set, and a transaction that spends it.\<close>

definition example_entry :: "u64 \<Rightarrow> utxo_entry" where
  "example_entry score = \<lparr>ue_amount = 3, ue_script_public_key = spk_default, ue_block_daa_score = score,
     ue_is_coinbase = False, ue_covenant_id = None\<rparr>"

definition example_outpoint :: tx_outpoint where
  "example_outpoint = \<lparr>op_transaction_id = [1], op_index = 0\<rparr>"

definition example_add :: utxo_diff where
  "example_add = \<lparr>ud_add = [(example_outpoint, example_entry 5)], ud_remove = []\<rparr>"

definition example_spend :: utxo_diff where
  "example_spend = \<lparr>ud_add = [], ud_remove = [(example_outpoint, example_entry 5)]\<rparr>"

definition example_tx :: transaction where
  "example_tx = \<lparr>tx_version = 0,
     tx_inputs = [\<lparr>ti_previous_outpoint = example_outpoint, ti_signature_script = [], ti_sequence = 0, ti_compute_commit = SigopCount 0\<rparr>],
     tx_outputs = [tx_output_new 2 spk_default], tx_lock_time = 0, tx_subnetwork_id = SUBNETWORK_ID_NATIVE, tx_gas = 0,
     tx_payload = [], tx_storage_mass = 0, tx_id = [2]\<rparr>"

lemma example_valid:
  "diff_valid (\<lambda>_. None) example_add" "diff_valid (compose (\<lambda>_. None) example_add) example_spend"
  "diff_valid (\<lambda>_. None) diff_default"
  by (auto simp: diff_valid_def example_add_def example_spend_def compose_def diff_default_def split: if_splits)

lemma example_scores:
  "entries_by_score (\<lambda>_. example_entry) (\<lambda>_. None)" "entries_by_score (\<lambda>_. example_entry) (compose (\<lambda>_. None) example_add)"
  "entries_by_score (\<lambda>_. example_entry) (compose (compose (\<lambda>_. None) example_add) example_spend)"
  "entries_by_score (\<lambda>_. example_entry) (compose (\<lambda>_. None) diff_default)"
  by (auto simp: entries_by_score_def compose_def example_add_def example_spend_def example_entry_def diff_default_def split: if_splits)

theorem with_diff_composes_witness:
  "\<exists>d. with_diff example_add example_spend = Ok d
     \<and> compose (\<lambda>_. None) d = compose (compose (\<lambda>_. None) example_add) example_spend"
  using with_diff_composes [OF example_valid(1,2) example_scores(1,2,3)] by blast

theorem diff_from_connects_witness:
  "\<exists>d. diff_from example_add diff_default = Ok d
     \<and> compose (compose (\<lambda>_. None) example_add) d = compose (\<lambda>_. None) diff_default"
  using diff_from_connects [OF example_valid(1,3) example_scores(2,4)] by blast

theorem add_transaction_effect_witness:
  "\<exists>t d. populated_transaction_new example_tx [example_entry 5] = (Ok t :: (unit, _) outcome)
     \<and> add_transaction t 9 example_add = Ok d \<and> diff_valid (\<lambda>_. None) d
     \<and> compose (\<lambda>_. None) d = spend_all [example_outpoint] (compose (\<lambda>_. None) example_add) ++ map_of (output_entries example_tx 9)"
proof -
  obtain t where t: "populated_transaction_new example_tx [example_entry 5] = (Ok t :: (unit, _) outcome)"
    by (simp add: populated_transaction_new_def example_tx_def)
  from add_transaction_effect [OF t example_valid(1), of 9] t show ?thesis
    by (auto simp: example_tx_def example_add_def example_outpoint_def compose_def)
qed

end
