(* ===== verification/Sig_Hash.thy ===== *)
theory Sig_Hash
  imports Tx_Hashing Utxo_Diff
begin

text \<open>
  Signature hashes (\<^verbatim>\<open>consensus/core/src/hashing/sighash.rs\<close> and \<^verbatim>\<open>sighash_type.rs\<close>) with the cache of
  values shared by the inputs of a transaction. The cache is threaded as a record of optional hashes; the keyed
  hash is the parameter \<open>H\<close> of \<^verbatim>\<open>Tx_Hashing\<close> and SHA-256 the parameter \<open>sha256\<close>. The properties: the cache
  never changes a signature hash, and a hash of type "all" commits to the whole spending transaction.
\<close>

unbundle bit_operations_syntax

section \<open>Signature hash types\<close>

type_synonym sig_hash_type = u8

definition SIG_HASH_ALL :: sig_hash_type where "SIG_HASH_ALL = 1"
definition SIG_HASH_NONE :: sig_hash_type where "SIG_HASH_NONE = 2"
definition SIG_HASH_SINGLE :: sig_hash_type where "SIG_HASH_SINGLE = 4"
definition SIG_HASH_ANY_ONE_CAN_PAY :: sig_hash_type where "SIG_HASH_ANY_ONE_CAN_PAY = 0x80"
definition SIG_HASH_MASK :: u8 where "SIG_HASH_MASK = 7"

definition ALLOWED_SIG_HASH_TYPES_VALUES :: "u8 list" where
  "ALLOWED_SIG_HASH_TYPES_VALUES =
     [SIG_HASH_ALL, SIG_HASH_NONE, SIG_HASH_SINGLE,
      SIG_HASH_ALL OR SIG_HASH_ANY_ONE_CAN_PAY, SIG_HASH_NONE OR SIG_HASH_ANY_ONE_CAN_PAY,
      SIG_HASH_SINGLE OR SIG_HASH_ANY_ONE_CAN_PAY]"

definition is_sighash_all :: "sig_hash_type \<Rightarrow> bool" where
  "is_sighash_all ty \<longleftrightarrow> ty AND SIG_HASH_MASK = SIG_HASH_ALL"

definition is_sighash_none :: "sig_hash_type \<Rightarrow> bool" where
  "is_sighash_none ty \<longleftrightarrow> ty AND SIG_HASH_MASK = SIG_HASH_NONE"

definition is_sighash_single :: "sig_hash_type \<Rightarrow> bool" where
  "is_sighash_single ty \<longleftrightarrow> ty AND SIG_HASH_MASK = SIG_HASH_SINGLE"

definition is_sighash_anyone_can_pay :: "sig_hash_type \<Rightarrow> bool" where
  "is_sighash_anyone_can_pay ty \<longleftrightarrow> ty AND SIG_HASH_ANY_ONE_CAN_PAY = SIG_HASH_ANY_ONE_CAN_PAY"

definition sig_hash_type_from_u8 :: "u8 \<Rightarrow> sig_hash_type option" where
  "sig_hash_type_from_u8 val = (if val \<in> set ALLOWED_SIG_HASH_TYPES_VALUES then Some val else None)"

section \<open>Reused values\<close>

record sighash_reused =
  sr_previous_outputs_hash :: "hash option"
  sr_sequences_hash :: "hash option"
  sr_sig_op_counts_hash :: "hash option"
  sr_outputs_hash :: "hash option"
  sr_payload_hash :: "hash option"

definition reused_new :: sighash_reused where
  "reused_new = \<lparr>sr_previous_outputs_hash = None, sr_sequences_hash = None, sr_sig_op_counts_hash = None,
     sr_outputs_hash = None, sr_payload_hash = None\<rparr>"

definition reuse_previous_outputs_hash :: "hash \<Rightarrow> sighash_reused \<Rightarrow> hash \<times> sighash_reused" where
  "reuse_previous_outputs_hash h r =
     (case sr_previous_outputs_hash r of Some v \<Rightarrow> (v, r) | None \<Rightarrow> (h, r\<lparr>sr_previous_outputs_hash := Some h\<rparr>))"

definition reuse_sequences_hash :: "hash \<Rightarrow> sighash_reused \<Rightarrow> hash \<times> sighash_reused" where
  "reuse_sequences_hash h r =
     (case sr_sequences_hash r of Some v \<Rightarrow> (v, r) | None \<Rightarrow> (h, r\<lparr>sr_sequences_hash := Some h\<rparr>))"

definition reuse_sig_op_counts_hash :: "hash \<Rightarrow> sighash_reused \<Rightarrow> hash \<times> sighash_reused" where
  "reuse_sig_op_counts_hash h r =
     (case sr_sig_op_counts_hash r of Some v \<Rightarrow> (v, r) | None \<Rightarrow> (h, r\<lparr>sr_sig_op_counts_hash := Some h\<rparr>))"

definition reuse_outputs_hash :: "hash \<Rightarrow> sighash_reused \<Rightarrow> hash \<times> sighash_reused" where
  "reuse_outputs_hash h r =
     (case sr_outputs_hash r of Some v \<Rightarrow> (v, r) | None \<Rightarrow> (h, r\<lparr>sr_outputs_hash := Some h\<rparr>))"

definition reuse_payload_hash :: "hash \<Rightarrow> sighash_reused \<Rightarrow> hash \<times> sighash_reused" where
  "reuse_payload_hash h r =
     (case sr_payload_hash r of Some v \<Rightarrow> (v, r) | None \<Rightarrow> (h, r\<lparr>sr_payload_hash := Some h\<rparr>))"

section \<open>Field hashes\<close>

definition ZERO_HASH :: hash where "ZERO_HASH = replicate 32 0"

definition signing_query :: "bytes \<Rightarrow> hash_query" where
  "signing_query msg = blake2b_query ''TransactionSigningHash'' msg"

definition hash_outpoint :: "tx_outpoint \<Rightarrow> bytes" where
  "hash_outpoint outpoint = op_transaction_id outpoint @ to_le_bytes (op_index outpoint)"

definition hash_script_public_key :: "script_public_key \<Rightarrow> bytes" where
  "hash_script_public_key spk = to_le_bytes (spk_version spk) @ write_var_bytes (spk_script spk)"

definition hash_output :: "u16 \<Rightarrow> tx_output \<Rightarrow> bytes" where
  "hash_output version output =
     to_le_bytes (to_value output) @ hash_script_public_key (to_script_public_key output)
     @ (if 1 \<le> version
        then write_bool (to_covenant output \<noteq> None)
          @ (case to_covenant output of
               Some covenant \<Rightarrow> to_le_bytes (cb_authorizing_input covenant) @ cb_covenant_id covenant
             | None \<Rightarrow> [])
        else [])"

definition input_sig_op_count :: "tx_input \<Rightarrow> u8" where
  "input_sig_op_count inp = (case sig_op_count (ti_compute_commit inp) of Some n \<Rightarrow> n | None \<Rightarrow> 0)"

definition previous_outputs_hash :: "(hash_query \<Rightarrow> hash) \<Rightarrow> transaction \<Rightarrow> sig_hash_type \<Rightarrow> sighash_reused \<Rightarrow> hash \<times> sighash_reused" where
  "previous_outputs_hash H tx ty reused =
     (if is_sighash_anyone_can_pay ty then (ZERO_HASH, reused)
      else reuse_previous_outputs_hash
        (H (signing_query (concat (map (\<lambda>inp. op_transaction_id (ti_previous_outpoint inp)
              @ to_le_bytes (op_index (ti_previous_outpoint inp))) (tx_inputs tx))))) reused)"

definition sequences_hash :: "(hash_query \<Rightarrow> hash) \<Rightarrow> transaction \<Rightarrow> sig_hash_type \<Rightarrow> sighash_reused \<Rightarrow> hash \<times> sighash_reused" where
  "sequences_hash H tx ty reused =
     (if is_sighash_single ty \<or> is_sighash_anyone_can_pay ty \<or> is_sighash_none ty then (ZERO_HASH, reused)
      else reuse_sequences_hash
        (H (signing_query (concat (map (\<lambda>inp. to_le_bytes (ti_sequence inp)) (tx_inputs tx))))) reused)"

definition sig_op_counts_hash :: "(hash_query \<Rightarrow> hash) \<Rightarrow> transaction \<Rightarrow> sig_hash_type \<Rightarrow> sighash_reused \<Rightarrow> hash \<times> sighash_reused" where
  "sig_op_counts_hash H tx ty reused =
     (if is_sighash_anyone_can_pay ty then (ZERO_HASH, reused)
      else reuse_sig_op_counts_hash (H (signing_query (map input_sig_op_count (tx_inputs tx)))) reused)"

definition payload_hash :: "(hash_query \<Rightarrow> hash) \<Rightarrow> transaction \<Rightarrow> sighash_reused \<Rightarrow> hash \<times> sighash_reused" where
  "payload_hash H tx reused =
     (if subnetwork_is_native (tx_subnetwork_id tx) \<and> tx_payload tx = [] then (ZERO_HASH, reused)
      else reuse_payload_hash (H (signing_query (write_var_bytes (tx_payload tx)))) reused)"

definition outputs_hash :: "(hash_query \<Rightarrow> hash) \<Rightarrow> transaction \<Rightarrow> sig_hash_type \<Rightarrow> nat \<Rightarrow> sighash_reused \<Rightarrow> hash \<times> sighash_reused" where
  "outputs_hash H tx ty input_index reused =
     (if is_sighash_none ty then (ZERO_HASH, reused)
      else if is_sighash_single ty then
        (if length (tx_outputs tx) \<le> input_index then (ZERO_HASH, reused)
         else (H (signing_query (hash_output (tx_version tx) (tx_outputs tx ! input_index))), reused))
      else reuse_outputs_hash (H (signing_query (concat (map (hash_output (tx_version tx)) (tx_outputs tx))))) reused)"

section \<open>Signature hashes\<close>

definition calc_schnorr_signature_hash ::
  "(hash_query \<Rightarrow> hash) \<Rightarrow> populated_transaction \<Rightarrow> nat \<Rightarrow> sig_hash_type \<Rightarrow> sighash_reused \<Rightarrow> ('e, hash \<times> sighash_reused) outcome"
where
  "calc_schnorr_signature_hash H verifiable_tx input_index ty reused =
     bind_outcome (populated_input verifiable_tx input_index) (\<lambda>(inp, entry).
       let tx = pt_tx verifiable_tx;
           (previous, reused) = previous_outputs_hash H tx ty reused;
           (sequences, reused) = sequences_hash H tx ty reused;
           (counts, reused) = (if tx_version tx < 1 then sig_op_counts_hash H tx ty reused else ([], reused));
           (outputs, reused) = outputs_hash H tx ty input_index reused;
           (payload, reused) = payload_hash H tx reused
       in Ok (H (signing_query
              (to_le_bytes (tx_version tx) @ previous @ sequences @ counts
               @ hash_outpoint (ti_previous_outpoint inp) @ hash_script_public_key (ue_script_public_key entry)
               @ to_le_bytes (ue_amount entry) @ to_le_bytes (ti_sequence inp)
               @ (if tx_version tx < 1 then [input_sig_op_count inp] else [])
               @ outputs @ to_le_bytes (tx_lock_time tx) @ tx_subnetwork_id tx @ to_le_bytes (tx_gas tx)
               @ payload @ [ty])), reused))"

definition calc_ecdsa_signature_hash ::
  "(hash_query \<Rightarrow> hash) \<Rightarrow> (bytes \<Rightarrow> hash) \<Rightarrow> populated_transaction \<Rightarrow> nat \<Rightarrow> sig_hash_type \<Rightarrow> sighash_reused \<Rightarrow> ('e, hash \<times> sighash_reused) outcome"
where
  "calc_ecdsa_signature_hash H sha256 tx input_index ty reused =
     bind_outcome (calc_schnorr_signature_hash H tx input_index ty reused) (\<lambda>(h, reused).
       Ok (sha256 (sha256 (ascii_bytes ''TransactionSigningHashECDSA'') @ h), reused))"

section \<open>The cache\<close>

text \<open>A cache is faithful to a transaction when each value it holds is the one the transaction gives.\<close>

definition outpoints_query :: "transaction \<Rightarrow> hash_query" where
  "outpoints_query tx = signing_query (concat (map (\<lambda>inp. op_transaction_id (ti_previous_outpoint inp)
     @ to_le_bytes (op_index (ti_previous_outpoint inp))) (tx_inputs tx)))"

definition sequences_query :: "transaction \<Rightarrow> hash_query" where
  "sequences_query tx = signing_query (concat (map (\<lambda>inp. to_le_bytes (ti_sequence inp)) (tx_inputs tx)))"

definition counts_query :: "transaction \<Rightarrow> hash_query" where
  "counts_query tx = signing_query (map input_sig_op_count (tx_inputs tx))"

definition outputs_query :: "transaction \<Rightarrow> hash_query" where
  "outputs_query tx = signing_query (concat (map (hash_output (tx_version tx)) (tx_outputs tx)))"

definition payload_query :: "transaction \<Rightarrow> hash_query" where
  "payload_query tx = signing_query (write_var_bytes (tx_payload tx))"

definition cell_ok :: "hash \<Rightarrow> hash option \<Rightarrow> bool" where
  "cell_ok h c \<longleftrightarrow> c = None \<or> c = Some h"

definition reused_ok :: "(hash_query \<Rightarrow> hash) \<Rightarrow> transaction \<Rightarrow> sighash_reused \<Rightarrow> bool" where
  "reused_ok H tx r \<longleftrightarrow>
     cell_ok (H (outpoints_query tx)) (sr_previous_outputs_hash r) \<and>
     cell_ok (H (sequences_query tx)) (sr_sequences_hash r) \<and>
     cell_ok (H (counts_query tx)) (sr_sig_op_counts_hash r) \<and>
     cell_ok (H (outputs_query tx)) (sr_outputs_hash r) \<and>
     cell_ok (H (payload_query tx)) (sr_payload_hash r)"

lemma reused_ok_new: "reused_ok H tx reused_new"
  by (simp add: reused_ok_def reused_new_def cell_ok_def)

lemma cell_ok_Some [simp]: "cell_ok h (Some v) \<longleftrightarrow> v = h" "cell_ok h None"
  by (auto simp: cell_ok_def)

lemma reuse_ok:
  assumes "reused_ok H tx r"
  shows "fst (reuse_previous_outputs_hash (H (outpoints_query tx)) r) = H (outpoints_query tx)"
    "reused_ok H tx (snd (reuse_previous_outputs_hash (H (outpoints_query tx)) r))"
    "fst (reuse_sequences_hash (H (sequences_query tx)) r) = H (sequences_query tx)"
    "reused_ok H tx (snd (reuse_sequences_hash (H (sequences_query tx)) r))"
    "fst (reuse_sig_op_counts_hash (H (counts_query tx)) r) = H (counts_query tx)"
    "reused_ok H tx (snd (reuse_sig_op_counts_hash (H (counts_query tx)) r))"
    "fst (reuse_outputs_hash (H (outputs_query tx)) r) = H (outputs_query tx)"
    "reused_ok H tx (snd (reuse_outputs_hash (H (outputs_query tx)) r))"
    "fst (reuse_payload_hash (H (payload_query tx)) r) = H (payload_query tx)"
    "reused_ok H tx (snd (reuse_payload_hash (H (payload_query tx)) r))"
  using assms
  by (auto simp: reused_ok_def reuse_previous_outputs_hash_def reuse_sequences_hash_def
      reuse_sig_op_counts_hash_def reuse_outputs_hash_def reuse_payload_hash_def split: option.split)

lemmas field_hash_defs = previous_outputs_hash_def sequences_hash_def sig_op_counts_hash_def
  outputs_hash_def payload_hash_def outpoints_query_def [symmetric] sequences_query_def [symmetric]
  counts_query_def [symmetric] outputs_query_def [symmetric] payload_query_def [symmetric]

lemma field_hashes_reused:
  assumes "reused_ok H tx r"
  shows "fst (previous_outputs_hash H tx ty r) = fst (previous_outputs_hash H tx ty reused_new)"
    "reused_ok H tx (snd (previous_outputs_hash H tx ty r))"
    "fst (sequences_hash H tx ty r) = fst (sequences_hash H tx ty reused_new)"
    "reused_ok H tx (snd (sequences_hash H tx ty r))"
    "fst (sig_op_counts_hash H tx ty r) = fst (sig_op_counts_hash H tx ty reused_new)"
    "reused_ok H tx (snd (sig_op_counts_hash H tx ty r))"
    "fst (outputs_hash H tx ty i r) = fst (outputs_hash H tx ty i reused_new)"
    "reused_ok H tx (snd (outputs_hash H tx ty i r))"
    "fst (payload_hash H tx r) = fst (payload_hash H tx reused_new)"
    "reused_ok H tx (snd (payload_hash H tx r))"
  by (simp_all add: field_hash_defs reuse_ok [OF assms] reuse_ok [OF reused_ok_new] assms)

text \<open>The message hashed for an input, with fresh field hashes.\<close>

definition sighash_message :: "(hash_query \<Rightarrow> hash) \<Rightarrow> transaction \<Rightarrow> nat \<Rightarrow> tx_input \<Rightarrow> utxo_entry \<Rightarrow> sig_hash_type \<Rightarrow> bytes" where
  "sighash_message H tx i inp entry ty =
     to_le_bytes (tx_version tx) @ fst (previous_outputs_hash H tx ty reused_new) @ fst (sequences_hash H tx ty reused_new)
     @ (if tx_version tx < 1 then fst (sig_op_counts_hash H tx ty reused_new) else [])
     @ hash_outpoint (ti_previous_outpoint inp) @ hash_script_public_key (ue_script_public_key entry)
     @ to_le_bytes (ue_amount entry) @ to_le_bytes (ti_sequence inp)
     @ (if tx_version tx < 1 then [input_sig_op_count inp] else [])
     @ fst (outputs_hash H tx ty i reused_new) @ to_le_bytes (tx_lock_time tx) @ tx_subnetwork_id tx @ to_le_bytes (tx_gas tx)
     @ fst (payload_hash H tx reused_new) @ [ty]"

lemma calc_reused:
  assumes "reused_ok H (pt_tx t) r"
  obtains "calc_schnorr_signature_hash H t i ty r = (Panic :: ('e, hash \<times> sighash_reused) outcome)" "populated_input t i = (Panic :: ('e, tx_input \<times> utxo_entry) outcome)"
  | inp entry r' where "populated_input t i = (Ok (inp, entry) :: ('e, tx_input \<times> utxo_entry) outcome)" "reused_ok H (pt_tx t) r'"
    "calc_schnorr_signature_hash H t i ty r = (Ok (H (signing_query (sighash_message H (pt_tx t) i inp entry ty)), r') :: ('e, hash \<times> sighash_reused) outcome)"
proof (cases "populated_input t i :: ('e, tx_input \<times> utxo_entry) outcome")
  case (Ok p)
  obtain inp entry where p: "p = (inp, entry)" by (cases p)
  let ?tx = "pt_tx t"
  define r1 where "r1 = snd (previous_outputs_hash H ?tx ty r)"
  define r2 where "r2 = snd (sequences_hash H ?tx ty r1)"
  define c where "c = (if tx_version ?tx < 1 then sig_op_counts_hash H ?tx ty r2 else ([], r2))"
  define r4 where "r4 = snd (outputs_hash H ?tx ty i (snd c))"
  define r5 where "r5 = snd (payload_hash H ?tx r4)"
  have ok1: "reused_ok H ?tx r1" using assms by (simp add: r1_def field_hashes_reused)
  have ok2: "reused_ok H ?tx r2" using ok1 by (simp add: r2_def field_hashes_reused)
  have ok3: "reused_ok H ?tx (snd c)" using ok2 by (simp add: c_def field_hashes_reused)
  have ok4: "reused_ok H ?tx r4" using ok3 by (simp add: r4_def field_hashes_reused)
  have ok5: "reused_ok H ?tx r5" using ok4 by (simp add: r5_def field_hashes_reused)
  have c: "fst c = (if tx_version ?tx < 1 then fst (sig_op_counts_hash H ?tx ty reused_new) else [])"
    using field_hashes_reused(5) [OF ok2] by (simp add: c_def)
  have "calc_schnorr_signature_hash H t i ty r = (Ok (H (signing_query
      (to_le_bytes (tx_version ?tx) @ fst (previous_outputs_hash H ?tx ty r) @ fst (sequences_hash H ?tx ty r1) @ fst c
       @ hash_outpoint (ti_previous_outpoint inp) @ hash_script_public_key (ue_script_public_key entry)
       @ to_le_bytes (ue_amount entry) @ to_le_bytes (ti_sequence inp)
       @ (if tx_version ?tx < 1 then [input_sig_op_count inp] else [])
       @ fst (outputs_hash H ?tx ty i (snd c)) @ to_le_bytes (tx_lock_time ?tx) @ tx_subnetwork_id ?tx @ to_le_bytes (tx_gas ?tx)
       @ fst (payload_hash H ?tx r4) @ [ty])), r5) :: ('e, hash \<times> sighash_reused) outcome)"
    unfolding calc_schnorr_signature_hash_def Ok p Let_def split_beta r5_def r4_def c_def r2_def r1_def by simp
  then have "calc_schnorr_signature_hash H t i ty r = (Ok (H (signing_query (sighash_message H ?tx i inp entry ty)), r5) :: ('e, hash \<times> sighash_reused) outcome)"
    unfolding sighash_message_def c field_hashes_reused(1) [OF assms] field_hashes_reused(3) [OF ok1]
      field_hashes_reused(7) [OF ok3] field_hashes_reused(9) [OF ok4] .
  then show ?thesis using that(2) Ok p ok5 by blast
qed (use that in \<open>auto simp: calc_schnorr_signature_hash_def populated_input_def nth_p_def split: if_splits\<close>)

primrec sighashes :: "(hash_query \<Rightarrow> hash) \<Rightarrow> populated_transaction \<Rightarrow> (nat \<times> sig_hash_type) list \<Rightarrow> sighash_reused \<Rightarrow> ('e, hash list) outcome" where
  "sighashes H t [] r = Ok []"
| "sighashes H t (q # qs) r =
     bind_outcome (calc_schnorr_signature_hash H t (fst q) (snd q) r) (\<lambda>(h, r).
     bind_outcome (sighashes H t qs r) (\<lambda>hs. Ok (h # hs)))"

lemma sighashes_reused:
  "reused_ok H (pt_tx t) r \<Longrightarrow> sighashes H t qs r =
     map_outcome (\<lambda>(i, ty). bind_outcome (calc_schnorr_signature_hash H t i ty reused_new) (\<lambda>(h, _). Ok h)) qs"
proof (induction qs arbitrary: r)
  case (Cons q qs)
  obtain i ty where q: "q = (i, ty)" by (cases q)
  show ?case
  proof (rule calc_reused [OF Cons.prems, of i ty, where 'e = 'a])
    assume "calc_schnorr_signature_hash H t i ty r = (Panic :: ('a, _) outcome)" "populated_input t i = (Panic :: ('a, _) outcome)"
    then show ?thesis by (simp add: q calc_schnorr_signature_hash_def)
  next
    fix inp entry r'
    assume p: "populated_input t i = (Ok (inp, entry) :: ('a, _) outcome)" and r': "reused_ok H (pt_tx t) r'"
      and c: "calc_schnorr_signature_hash H t i ty r = (Ok (H (signing_query (sighash_message H (pt_tx t) i inp entry ty)), r') :: ('a, _) outcome)"
    obtain r'' where "calc_schnorr_signature_hash H t i ty reused_new = (Ok (H (signing_query (sighash_message H (pt_tx t) i inp entry ty)), r'') :: ('a, _) outcome)"
      by (rule calc_reused [OF reused_ok_new, of H t i ty, where 'e = 'a]) (auto simp: p)
    then show ?thesis using Cons.IH [OF r'] c by (simp add: q)
  qed
qed simp

section \<open>What a signature hash commits to\<close>

lemma concat_decodable:
  assumes p: "decodable P p" and ne: "\<And>x. P x \<Longrightarrow> p x \<noteq> []"
    and "list_all P xs" "list_all P ys" "concat (map p xs) = concat (map p ys)"
  shows "xs = ys"
  using assms(3-)
proof (induction xs arbitrary: ys)
  case Nil
  then show ?case using ne by (cases ys) auto
next
  case (Cons x xs)
  then obtain y ys' where ys: "ys = y # ys'" using ne by (cases ys) auto
  have "x = y \<and> concat (map p xs) = concat (map p ys')"
    using Cons.prems ys by (intro decodableD [OF p]) auto
  then show ?case using Cons ys by auto
qed

lemma decodable_outpoint: "decodable (\<lambda>p. length (op_transaction_id p) = 32) hash_outpoint"
proof (rule decodableI)
  fix p q r s
  assume "length (op_transaction_id p) = 32" "length (op_transaction_id q) = 32" "hash_outpoint p @ r = hash_outpoint q @ s"
  then show "p = q \<and> r = s" using write_outpoint_cancel [of p q r s] by (simp add: hash_outpoint_def write_outpoint_def)
qed

lemma hash_output_write: "hash_output v = write_output v"
  by (rule ext) (simp add: hash_output_def write_output_def hash_script_public_key_def)

lemma to_le_bytes_u64_not_Nil [simp]: "to_le_bytes (x :: u64) \<noteq> []"
  using length_to_le_bytes [of x] by (auto simp del: length_to_le_bytes)

lemma outputs_committed:
  assumes "list_all output_widths xs" "list_all output_widths ys"
    "concat (map (hash_output v) xs) = concat (map (hash_output v) ys)"
  shows "map (view_output v) xs = map (view_output v) ys"
proof (rule concat_decodable [OF decodable_output [of v]])
  show "write_output v x \<noteq> []" for x
    by (simp add: write_output_def)
  show "list_all (\<lambda>o'. output_widths o' \<and> view_output v o' = o') (map (view_output v) xs)"
    "list_all (\<lambda>o'. output_widths o' \<and> view_output v o' = o') (map (view_output v) ys)"
    using assms(1,2) by (simp_all add: list_all_iff output_widths_view view_output_idem)
  show "concat (map (write_output v) (map (view_output v) xs)) = concat (map (write_output v) (map (view_output v) ys))"
    using assms(3) by (simp add: comp_def write_output_view hash_output_write)
qed

lemma signing_query_inject [simp]: "signing_query a = signing_query b \<longleftrightarrow> a = b"
  by (simp add: signing_query_def blake2b_query_def)

lemma outpoints_committed:
  assumes "list_all input_widths xs" "list_all input_widths ys"
    "concat (map (\<lambda>inp. op_transaction_id (ti_previous_outpoint inp) @ to_le_bytes (op_index (ti_previous_outpoint inp))) xs)
     = concat (map (\<lambda>inp. op_transaction_id (ti_previous_outpoint inp) @ to_le_bytes (op_index (ti_previous_outpoint inp))) ys)"
  shows "map ti_previous_outpoint xs = map ti_previous_outpoint ys"
proof (rule concat_decodable [OF decodable_outpoint])
  show "length (op_transaction_id x) = 32 \<Longrightarrow> hash_outpoint x \<noteq> []" for x by (auto simp: hash_outpoint_def)
  show "concat (map hash_outpoint (map ti_previous_outpoint xs)) = concat (map hash_outpoint (map ti_previous_outpoint ys))"
    using assms(3) by (simp add: comp_def hash_outpoint_def)
qed (use assms in \<open>auto simp: list_all_iff input_widths_def\<close>)

lemma sequences_committed:
  assumes "concat (map (\<lambda>inp. to_le_bytes (ti_sequence inp)) xs) = concat (map (\<lambda>inp. to_le_bytes (ti_sequence inp)) ys)"
  shows "map ti_sequence xs = map ti_sequence ys"
proof (rule concat_decodable)
  show "decodable (\<lambda>_. True) (to_le_bytes :: u64 \<Rightarrow> bytes)" by (rule decodable_le) simp
  show "to_le_bytes x \<noteq> []" for x :: u64 by simp
  show "concat (map to_le_bytes (map ti_sequence xs)) = concat (map to_le_bytes (map ti_sequence ys))"
    using assms by (simp add: comp_def)
qed (simp_all add: list_all_iff)

text \<open>The fields a signature of type "all" on input \<open>i\<close> commits to. Signature-operation counts are among them below
  version 1 only; of the spent entry they are the amount and the script.\<close>

definition committed_inputs :: "transaction \<Rightarrow> (tx_outpoint \<times> u64) list \<times> u8 list" where
  "committed_inputs tx = (map (\<lambda>inp. (ti_previous_outpoint inp, ti_sequence inp)) (tx_inputs tx),
     if tx_version tx < 1 then map input_sig_op_count (tx_inputs tx) else [])"

definition committed_fields :: "transaction \<Rightarrow> u16 \<times> tx_output list \<times> u64 \<times> bytes \<times> u64 \<times> bytes" where
  "committed_fields tx = (tx_version tx, map (view_output (tx_version tx)) (tx_outputs tx), tx_lock_time tx,
     tx_subnetwork_id tx, tx_gas tx, tx_payload tx)"

definition committed_spend :: "populated_transaction \<Rightarrow> nat \<Rightarrow> tx_outpoint \<times> u64 \<times> u8 list \<times> u64 \<times> script_public_key" where
  "committed_spend t i = (let inp = tx_inputs (pt_tx t) ! i; entry = pt_entries t ! i in
     (ti_previous_outpoint inp, ti_sequence inp, if tx_version (pt_tx t) < 1 then [input_sig_op_count inp] else [],
      ue_amount entry, ue_script_public_key entry))"

definition sighash_queries :: "(hash_query \<Rightarrow> hash) \<Rightarrow> populated_transaction \<Rightarrow> nat \<Rightarrow> sig_hash_type \<Rightarrow> hash_query set" where
  "sighash_queries H t i ty =
     {outpoints_query (pt_tx t), sequences_query (pt_tx t), counts_query (pt_tx t), outputs_query (pt_tx t),
      payload_query (pt_tx t), signing_query (sighash_message H (pt_tx t) i (tx_inputs (pt_tx t) ! i) (pt_entries t ! i) ty)}"

lemma field_hash_lengths:
  assumes "\<And>q. length (H q) = 32"
  shows "length (fst (previous_outputs_hash H tx ty reused_new)) = 32" "length (fst (sequences_hash H tx ty reused_new)) = 32"
    "length (fst (sig_op_counts_hash H tx ty reused_new)) = 32" "length (fst (outputs_hash H tx ty i reused_new)) = 32"
    "length (fst (payload_hash H tx reused_new)) = 32"
  by (simp_all add: field_hash_defs reuse_ok [OF reused_ok_new] assms ZERO_HASH_def)

lemma sighash_message_inject:
  assumes H: "\<And>q. length (H q) = 32" and w: "tx_widths tx" "tx_widths tx'"
    and inp: "inp \<in> set (tx_inputs tx)" "inp' \<in> set (tx_inputs tx')"
    and spk: "length (spk_script (ue_script_public_key e)) < 2 ^ 64" "length (spk_script (ue_script_public_key e')) < 2 ^ 64"
    and eq: "sighash_message H tx i inp e ty = sighash_message H tx' i' inp' e' ty'"
  shows "tx_version tx = tx_version tx' \<and> fst (previous_outputs_hash H tx ty reused_new) = fst (previous_outputs_hash H tx' ty' reused_new) \<and>
    fst (sequences_hash H tx ty reused_new) = fst (sequences_hash H tx' ty' reused_new) \<and>
    (tx_version tx < 1 \<longrightarrow> fst (sig_op_counts_hash H tx ty reused_new) = fst (sig_op_counts_hash H tx' ty' reused_new)) \<and>
    ti_previous_outpoint inp = ti_previous_outpoint inp' \<and> ue_script_public_key e = ue_script_public_key e' \<and>
    ue_amount e = ue_amount e' \<and> ti_sequence inp = ti_sequence inp' \<and>
    (tx_version tx < 1 \<longrightarrow> input_sig_op_count inp = input_sig_op_count inp') \<and>
    fst (outputs_hash H tx ty i reused_new) = fst (outputs_hash H tx' ty' i' reused_new) \<and> tx_lock_time tx = tx_lock_time tx' \<and>
    tx_subnetwork_id tx = tx_subnetwork_id tx' \<and> tx_gas tx = tx_gas tx' \<and>
    fst (payload_hash H tx reused_new) = fst (payload_hash H tx' reused_new) \<and> ty = ty'"
proof -
  note len = field_hash_lengths [OF H]
  have op: "length (op_transaction_id (ti_previous_outpoint inp)) = 32" "length (op_transaction_id (ti_previous_outpoint inp')) = 32"
    using w inp by (auto simp: tx_widths_def list_all_iff input_widths_def)
  have sub: "length (tx_subnetwork_id tx) = length (tx_subnetwork_id tx')" using w by (simp add: tx_widths_def)
  have v: "tx_version tx = tx_version tx'" using eq by (simp add: sighash_message_def)
  have outp: "hash_outpoint (ti_previous_outpoint inp) @ r = hash_outpoint (ti_previous_outpoint inp') @ s \<longleftrightarrow>
      ti_previous_outpoint inp = ti_previous_outpoint inp' \<and> r = s" for r s
    using decodableD [OF decodable_outpoint op, where r = r and s = s] by auto
  have spkc: "hash_script_public_key (ue_script_public_key e) @ r = hash_script_public_key (ue_script_public_key e') @ s \<longleftrightarrow>
      ue_script_public_key e = ue_script_public_key e' \<and> r = s" for r s
    using write_var_cancel [OF spk] by (auto simp: hash_script_public_key_def intro: script_public_key.equality)
  have lens: "length (fst (previous_outputs_hash H tx ty reused_new)) = length (fst (previous_outputs_hash H tx' ty' reused_new))"
    "length (fst (sequences_hash H tx ty reused_new)) = length (fst (sequences_hash H tx' ty' reused_new))"
    "length (fst (sig_op_counts_hash H tx ty reused_new)) = length (fst (sig_op_counts_hash H tx' ty' reused_new))"
    "length (fst (outputs_hash H tx ty i reused_new)) = length (fst (outputs_hash H tx' ty' i' reused_new))"
    "length (fst (payload_hash H tx reused_new)) = length (fst (payload_hash H tx' reused_new))"
    by (simp_all add: len)
  show ?thesis
  proof (cases "tx_version tx' < 1")
    case True
    then show ?thesis
      using eq v by (auto simp: sighash_message_def outp spkc lens sub append_eq_append_conv)
  next
    case False
    then show ?thesis
      using eq v by (auto simp: sighash_message_def outp spkc lens sub append_eq_append_conv)
  qed
qed

section \<open>Properties\<close>

text \<open>
  C29. The cache of shared field hashes is transparent: computing any sequence of signature hashes of one
  transaction, for whatever inputs and hash types, while threading one cache gives the same hashes as
  computing each with a cache of its own.
\<close>

theorem reused_values_transparent:
  "sighashes H t qs reused_new =
     map_outcome (\<lambda>(i, ty). bind_outcome (calc_schnorr_signature_hash H t i ty reused_new) (\<lambda>(h, _). Ok h)) qs"
  by (rule sighashes_reused [OF reused_ok_new])

lemma field_hashes_all:
  "fst (previous_outputs_hash H tx SIG_HASH_ALL reused_new) = H (outpoints_query tx)"
  "fst (sequences_hash H tx SIG_HASH_ALL reused_new) = H (sequences_query tx)"
  "fst (sig_op_counts_hash H tx SIG_HASH_ALL reused_new) = H (counts_query tx)"
  "fst (outputs_hash H tx SIG_HASH_ALL i reused_new) = H (outputs_query tx)"
  by (simp_all add: field_hash_defs reuse_ok [OF reused_ok_new] is_sighash_anyone_can_pay_def is_sighash_single_def
      is_sighash_none_def SIG_HASH_ALL_def SIG_HASH_ANY_ONE_CAN_PAY_def SIG_HASH_MASK_def SIG_HASH_SINGLE_def SIG_HASH_NONE_def)

lemma payload_committed:
  assumes "tx_widths tx" "tx_widths tx'" "tx_subnetwork_id tx = tx_subnetwork_id tx'"
    "fst (payload_hash H tx reused_new) = fst (payload_hash H tx' reused_new)"
  shows "tx_payload tx = tx_payload tx' \<or> H (payload_query tx) = ZERO_HASH \<or> H (payload_query tx') = ZERO_HASH \<or>
    (payload_query tx \<noteq> payload_query tx' \<and> H (payload_query tx) = H (payload_query tx'))"
proof -
  have "payload_query tx = payload_query tx' \<Longrightarrow> tx_payload tx = tx_payload tx'"
    using assms(1,2) decodable_inj [OF decodable_var, of "tx_payload tx" "tx_payload tx'"]
    by (simp add: payload_query_def tx_widths_def)
  then show ?thesis using assms(3,4) by (auto simp: field_hash_defs reuse_ok [OF reused_ok_new] split: if_splits)
qed

lemma list_pairs: "map f xs = map f ys \<Longrightarrow> map g xs = map g ys \<Longrightarrow> map (\<lambda>x. (f x, g x)) xs = map (\<lambda>x. (f x, g x)) ys"
proof -
  have "map (\<lambda>x. (f x, g x)) zs = zip (map f zs) (map g zs)" for zs by (induction zs) auto
  then show "map f xs = map f ys \<Longrightarrow> map g xs = map g ys \<Longrightarrow> ?thesis" by simp
qed

lemma all_fields_committed:
  assumes w: "tx_widths tx" "tx_widths tx'" and v: "tx_version tx = tx_version tx'"
    and q: "outpoints_query tx = outpoints_query tx'" "sequences_query tx = sequences_query tx'"
      "tx_version tx < 1 \<longrightarrow> counts_query tx = counts_query tx'" "outputs_query tx = outputs_query tx'"
  shows "committed_inputs tx = committed_inputs tx' \<and>
    map (view_output (tx_version tx)) (tx_outputs tx) = map (view_output (tx_version tx')) (tx_outputs tx')"
proof -
  have ws: "list_all input_widths (tx_inputs tx)" "list_all input_widths (tx_inputs tx')"
    "list_all output_widths (tx_outputs tx)" "list_all output_widths (tx_outputs tx')" using w by (simp_all add: tx_widths_def)
  have "map ti_previous_outpoint (tx_inputs tx) = map ti_previous_outpoint (tx_inputs tx')"
    using q(1) by (intro outpoints_committed [OF ws(1,2)]) (simp add: outpoints_query_def)
  moreover have "map ti_sequence (tx_inputs tx) = map ti_sequence (tx_inputs tx')"
    using q(2) by (intro sequences_committed) (simp add: sequences_query_def)
  ultimately have "map (\<lambda>inp. (ti_previous_outpoint inp, ti_sequence inp)) (tx_inputs tx) =
      map (\<lambda>inp. (ti_previous_outpoint inp, ti_sequence inp)) (tx_inputs tx')" by (rule list_pairs)
  moreover have "map (view_output (tx_version tx)) (tx_outputs tx) = map (view_output (tx_version tx)) (tx_outputs tx')"
    using q(4) v by (intro outputs_committed [OF ws(3,4)]) (simp add: outputs_query_def)
  ultimately show ?thesis using q(3) v by (simp add: committed_inputs_def counts_query_def)
qed

lemma populated_input_Ok:
  "populated_input t i = Ok (inp, entry) \<Longrightarrow>
   i < length (tx_inputs (pt_tx t)) \<and> inp = tx_inputs (pt_tx t) ! i \<and> entry = pt_entries t ! i"
  by (auto simp: populated_input_def bind_outcome_Ok_iff nth_p_Ok_iff)

lemma calc_fresh:
  assumes "calc_schnorr_signature_hash H t i ty reused_new = (Ok (h, r) :: ('e, hash \<times> sighash_reused) outcome)"
  shows "i < length (tx_inputs (pt_tx t)) \<and>
    h = H (signing_query (sighash_message H (pt_tx t) i (tx_inputs (pt_tx t) ! i) (pt_entries t ! i) ty))"
  by (rule calc_reused [OF reused_ok_new, of H t i ty, where 'e = 'e]) (use assms in \<open>auto dest!: populated_input_Ok\<close>)

text \<open>The other direction: the message is a function of the committed fields.\<close>

lemma committed_queries:
  assumes "committed_inputs tx = committed_inputs tx'" "committed_fields tx = committed_fields tx'"
  shows "outpoints_query tx = outpoints_query tx'" "sequences_query tx = sequences_query tx'"
    "tx_version tx < 1 \<Longrightarrow> counts_query tx = counts_query tx'" "outputs_query tx = outputs_query tx'"
    "fst (payload_hash H tx reused_new) = fst (payload_hash H tx' reused_new)"
proof -
  have v: "tx_version tx = tx_version tx'" using assms(2) by (simp add: committed_fields_def)
  have "outpoints_query t = signing_query (concat (map (\<lambda>(p, _). op_transaction_id p @ to_le_bytes (op_index p)) (fst (committed_inputs t))))"
    "sequences_query t = signing_query (concat (map (\<lambda>(_, s). to_le_bytes s) (fst (committed_inputs t))))" for t
    by (simp_all add: outpoints_query_def sequences_query_def committed_inputs_def comp_def)
  then show "outpoints_query tx = outpoints_query tx'" "sequences_query tx = sequences_query tx'" by (simp_all add: assms(1))
  show "tx_version tx < 1 \<Longrightarrow> counts_query tx = counts_query tx'"
    using assms(1) v by (simp add: committed_inputs_def counts_query_def)
  have "outputs_query t = signing_query (concat (map (hash_output (fst (committed_fields t))) (fst (snd (committed_fields t)))))" for t
    by (simp add: outputs_query_def committed_fields_def hash_output_write write_output_view comp_def)
  then show "outputs_query tx = outputs_query tx'" by (simp add: assms(2))
  show "fst (payload_hash H tx reused_new) = fst (payload_hash H tx' reused_new)"
    using assms(2) by (simp add: committed_fields_def payload_hash_def reuse_payload_hash_def reused_new_def)
qed

lemma committed_message:
  assumes "committed_inputs (pt_tx t) = committed_inputs (pt_tx t')" "committed_fields (pt_tx t) = committed_fields (pt_tx t')"
    "committed_spend t i = committed_spend t' i'"
  shows "sighash_message H (pt_tx t) i (tx_inputs (pt_tx t) ! i) (pt_entries t ! i) SIG_HASH_ALL =
    sighash_message H (pt_tx t') i' (tx_inputs (pt_tx t') ! i') (pt_entries t' ! i') SIG_HASH_ALL"
proof -
  note q = committed_queries [OF assms(1,2)]
  have f: "tx_version (pt_tx t) = tx_version (pt_tx t')" "tx_lock_time (pt_tx t) = tx_lock_time (pt_tx t')"
    "tx_subnetwork_id (pt_tx t) = tx_subnetwork_id (pt_tx t')" "tx_gas (pt_tx t) = tx_gas (pt_tx t')"
    using assms(2) by (simp_all add: committed_fields_def)
  show ?thesis
    using assms(3) q f unfolding sighash_message_def field_hashes_all by (auto simp: committed_spend_def Let_def split: if_splits)
qed

text \<open>
  C28. What a signature hash of type "all" covers, exactly: it equals a signature hash of any type on any input of
  another transaction if and only if that type is "all" too and the two agree on the version, the outpoint and
  sequence of every input, the outputs as the version reads them, the lock time, subnetwork, gas and payload, and for
  the signed input on its outpoint, its sequence and the amount and script of the entry it spends. The
  signature-operation counts are covered for version 0 and not from version 1 on. The exceptions are a collision
  between the hashed strings of the two and a string that hashes to the zero hash. The hypotheses are the width of a
  hash, the array widths and script lengths below \<open>2^64\<close>.
\<close>

theorem sighash_all_binding:
  assumes "calc_schnorr_signature_hash H t i SIG_HASH_ALL reused_new = (Ok (h, r) :: ('e, hash \<times> sighash_reused) outcome)"
    "calc_schnorr_signature_hash H t' i' ty reused_new = (Ok (h', r') :: ('e, hash \<times> sighash_reused) outcome)"
    and len: "\<And>q. length (H q) = 32" and w: "tx_widths (pt_tx t)" "tx_widths (pt_tx t')"
    and spk: "length (spk_script (ue_script_public_key (pt_entries t ! i))) < 2 ^ 64"
      "length (spk_script (ue_script_public_key (pt_entries t' ! i'))) < 2 ^ 64"
  shows "(h = h' \<longleftrightarrow>
      ty = SIG_HASH_ALL \<and> committed_inputs (pt_tx t) = committed_inputs (pt_tx t') \<and>
      committed_fields (pt_tx t) = committed_fields (pt_tx t') \<and> committed_spend t i = committed_spend t' i') \<or>
    collision H (sighash_queries H t i SIG_HASH_ALL) (sighash_queries H t' i' ty) \<or>
    (\<exists>q \<in> sighash_queries H t i SIG_HASH_ALL \<union> sighash_queries H t' i' ty. H q = ZERO_HASH)" (is "(_ \<longleftrightarrow> ?E) \<or> ?C \<or> ?Z")
proof -
  let ?tx = "pt_tx t" and ?tx' = "pt_tx t'"
  note c = calc_fresh [OF assms(1)] calc_fresh [OF assms(2)]
  have "h = h'" if ?E using that c committed_message [of t t' i i' H] by simp
  moreover have "?E" if eq: "h = h'" and neg: "\<not> ?C" "\<not> ?Z"
  proof -
    have inj: "q = q'" if "H q = H q'" "q \<in> sighash_queries H t i SIG_HASH_ALL" "q' \<in> sighash_queries H t' i' ty" for q q'
      using that neg(1) by (auto simp: collision_def)
    have "signing_query (sighash_message H ?tx i (tx_inputs ?tx ! i) (pt_entries t ! i) SIG_HASH_ALL) =
        signing_query (sighash_message H ?tx' i' (tx_inputs ?tx' ! i') (pt_entries t' ! i') ty)"
      by (rule inj) (use c eq in \<open>simp_all add: sighash_queries_def\<close>)
    then have "sighash_message H ?tx i (tx_inputs ?tx ! i) (pt_entries t ! i) SIG_HASH_ALL =
        sighash_message H ?tx' i' (tx_inputs ?tx' ! i') (pt_entries t' ! i') ty" by simp
    note m = sighash_message_inject [OF len w _ _ spk this]
    have mem: "tx_inputs ?tx ! i \<in> set (tx_inputs ?tx)" "tx_inputs ?tx' ! i' \<in> set (tx_inputs ?tx')" using c by simp_all
    note m = m [OF mem]
    then have ty: "ty = SIG_HASH_ALL" by simp
    have "outpoints_query ?tx = outpoints_query ?tx'" "sequences_query ?tx = sequences_query ?tx'"
      "tx_version ?tx < 1 \<longrightarrow> counts_query ?tx = counts_query ?tx'" "outputs_query ?tx = outputs_query ?tx'"
      using m [unfolded ty field_hashes_all] by (auto simp: sighash_queries_def intro!: inj)
    note cf = all_fields_committed [OF w conjunct1 [OF m] this]
    have "tx_payload ?tx = tx_payload ?tx'"
      using payload_committed [OF w, of H] m neg(2) inj [of "payload_query ?tx" "payload_query ?tx'"] by (auto simp: sighash_queries_def)
    then show ?E using m cf by (auto simp: committed_fields_def committed_spend_def Let_def)
  qed
  ultimately show ?thesis by blast
qed

definition sample_populated :: "bytes \<Rightarrow> populated_transaction" where
  "sample_populated sig = \<lparr>pt_tx = sample_transaction sig, pt_entries = [\<lparr>ue_amount = 2000,
     ue_script_public_key = \<lparr>spk_version = 0, spk_script = [4, 5]\<rparr>, ue_block_daa_score = 9, ue_is_coinbase = False, ue_covenant_id = None\<rparr>]\<rparr>"

lemma sample_populated_input:
  "populated_input (sample_populated sig) 0 = Ok (tx_inputs (sample_transaction sig) ! 0, pt_entries (sample_populated sig) ! 0)"
  by (simp add: populated_input_def sample_populated_def sample_transaction_def tx_new_non_finalized_def)

lemma sample_sighash:
  "\<exists>r. calc_schnorr_signature_hash H (sample_populated sig) 0 ty reused_new =
     (Ok (H (signing_query (sighash_message H (sample_transaction sig) 0 (tx_inputs (sample_transaction sig) ! 0)
       (pt_entries (sample_populated sig) ! 0) ty)), r) :: ('e, hash \<times> sighash_reused) outcome)"
  by (rule calc_reused [OF reused_ok_new, of H "sample_populated sig" 0 ty, where 'e = 'e])
     (simp_all add: sample_populated_input, simp add: sample_populated_def)

lemma sample_message:
  "sighash_message H (sample_transaction sig) 0 (tx_inputs (sample_transaction sig) ! 0) (pt_entries (sample_populated sig) ! 0) ty =
   sighash_message H (sample_transaction []) 0 (tx_inputs (sample_transaction []) ! 0) (pt_entries (sample_populated []) ! 0) ty"
  by (simp add: sighash_message_def sample_transaction_def sample_populated_def tx_new_non_finalized_def field_hash_defs
      outpoints_query_def sequences_query_def counts_query_def outputs_query_def payload_query_def
      reuse_previous_outputs_hash_def reuse_sequences_hash_def reuse_sig_op_counts_hash_def reuse_outputs_hash_def
      reuse_payload_hash_def reused_new_def input_sig_op_count_def)

theorem sighash_all_binding_witness:
  "\<exists>h r r'. calc_schnorr_signature_hash sample_digest (sample_populated [1]) 0 SIG_HASH_ALL reused_new = (Ok (h, r) :: (unit, _) outcome) \<and>
     calc_schnorr_signature_hash sample_digest (sample_populated [2]) 0 SIG_HASH_ALL reused_new = (Ok (h, r') :: (unit, _) outcome) \<and>
     (collision sample_digest (sighash_queries sample_digest (sample_populated [1]) 0 SIG_HASH_ALL)
        (sighash_queries sample_digest (sample_populated [2]) 0 SIG_HASH_ALL) \<or>
      (\<exists>q \<in> sighash_queries sample_digest (sample_populated [1]) 0 SIG_HASH_ALL
         \<union> sighash_queries sample_digest (sample_populated [2]) 0 SIG_HASH_ALL. sample_digest q = ZERO_HASH) \<or>
      committed_inputs (pt_tx (sample_populated [1])) = committed_inputs (pt_tx (sample_populated [2])) \<and>
      committed_fields (pt_tx (sample_populated [1])) = committed_fields (pt_tx (sample_populated [2])) \<and>
      committed_spend (sample_populated [1]) 0 = committed_spend (sample_populated [2]) 0)"
proof -
  obtain h r r' where c:
    "calc_schnorr_signature_hash sample_digest (sample_populated [1]) 0 SIG_HASH_ALL reused_new = (Ok (h, r) :: (unit, _) outcome)"
    "calc_schnorr_signature_hash sample_digest (sample_populated [2]) 0 SIG_HASH_ALL reused_new = (Ok (h, r') :: (unit, _) outcome)"
    using sample_sighash [of sample_digest "[1]" SIG_HASH_ALL, where 'e = unit]
      sample_sighash [of sample_digest "[2]" SIG_HASH_ALL, where 'e = unit]
    unfolding sample_message [of sample_digest "[1]"] sample_message [of sample_digest "[2]"] by blast
  have len: "length (sample_digest q) = 32" for q
    by (cases q) (simp add: sample_digest_def ZERO_PAYLOAD_DIGEST_def)
  have w: "tx_widths (pt_tx (sample_populated [1]))" "tx_widths (pt_tx (sample_populated [2]))"
    by (simp_all add: sample_populated_def sample_transaction_widths)
  have spk: "length (spk_script (ue_script_public_key (pt_entries (sample_populated [1]) ! 0))) < 2 ^ 64"
    "length (spk_script (ue_script_public_key (pt_entries (sample_populated [2]) ! 0))) < 2 ^ 64"
    by (simp_all add: sample_populated_def)
  show ?thesis using c sighash_all_binding [where H = sample_digest, OF c len w spk] by blast
qed

end
