(* ===== verification/Script_Num.thy ===== *)
theory Script_Num
  imports Chain_Types
begin

text \<open>
  Script errors (\<^verbatim>\<open>crypto/txscript/errors/src/lib.rs\<close>) and the number, boolean and hash encodings of stack
  entries (\<^verbatim>\<open>crypto/txscript/src/data_stack.rs\<close>). An \<^verbatim>\<open>i64\<close> is an integer between \<open>- 2 ^ 63\<close> and
  \<open>2 ^ 63 - 1\<close>; the diagnostic text of an error is left out, its constructor and numbers are kept. The
  properties: the number codec is exact and minimal, and decoding stays within the signed 64-bit range.
\<close>

unbundle bit_operations_syntax

section \<open>Errors\<close>

datatype serialization_error = NumberTooLong int nat | ArkSerialization

datatype covenants_error =
    WrongGenesisCovenantId nat hash
  | AuthInputOutOfBounds nat u16
  | InvalidCovInIndex hash nat
  | InvalidCovOutIndex hash nat
  | InvalidAuthCovOutIndex nat nat nat

datatype tx_script_error =
    MalformedPushSize bytes
  | MalformedPush nat nat
  | InvalidInputIndex int nat
  | InvalidCovInputIndex int
  | StackSizeExceeded nat nat
  | InvalidOpcode
  | OpcodeReserved
  | OpcodeDisabled
  | EmptyStack
  | CleanStack nat
  | EvalFalse
  | EarlyReturn
  | VerifyError
  | InvalidState
  | InvalidPubkey
  | InvalidSignature
  | SigcacheSignatureInvalid
  | TooManyOperations int
  | NotATransactionInput
  | ElementTooBig nat nat
  | NotMinimalData
  | InvalidSource
  | UnsatisfiedLockTime
  | NumberTooBig
  | NullFail
  | InvalidSignatureCount
  | InvalidPubKeyCount
  | InvalidSigHashType u8
  | PubKeyFormat
  | NoScripts
  | SignatureScriptNotPushOnly
  | ErrUnbalancedConditional
  | InvalidStackOperation nat nat
  | ScriptSize nat nat
  | InvalidOutputIndex int nat
  | Serialization serialization_error
  | ExceededSigOpLimit u16
  | ExceededCommittedScriptUnits u64 u64
  | ZkIntegrity
  | OutOfBoundsSubstring nat nat nat
  | InvalidIndex int
  | InvalidRange nat nat
  | InvalidLengthOfBlockHash nat
  | BlockNotSelected
  | BlockAlreadyPruned
  | BlockIsTooDeep
  | CovenantsError covenants_error

section \<open>Numbers\<close>

definition i64_range :: "int \<Rightarrow> bool" where
  "i64_range n \<longleftrightarrow> - (2 ^ 63) \<le> n \<and> n < 2 ^ 63"

definition i32_range :: "int \<Rightarrow> bool" where
  "i32_range n \<longleftrightarrow> - (2 ^ 31) \<le> n \<and> n < 2 ^ 31"

definition check_minimal_data_encoding :: "bytes \<Rightarrow> (tx_script_error, unit) outcome" where
  "check_minimal_data_encoding v =
     (if v = [] then Ok ()
      else if last v AND 0x7f = 0 \<and> (length v = 1 \<or> v ! (length v - 2) AND 0x80 = 0) then Err NotMinimalData
      else Ok ())"

fun magnitude_bytes :: "nat \<Rightarrow> bool \<Rightarrow> bytes" where
  "magnitude_bytes positive last_saturated =
     (if positive = 0 then (if last_saturated then [0] else [])
      else of_nat (positive mod 256) # magnitude_bytes (positive div 256) (128 \<le> positive mod 256))"

declare magnitude_bytes.simps [simp del]

definition resize_bytes :: "nat \<Rightarrow> bytes \<Rightarrow> bytes" where
  "resize_bytes n bs = take n bs @ replicate (n - length bs) 0"

text \<open>An encoding of at most eight bytes keeps every intermediate value of the two codecs below \<open>2 ^ 63\<close> in
  magnitude, so integers stand for the checked 64-bit arithmetic of the code.\<close>

definition serialize_i64 :: "int \<Rightarrow> nat option \<Rightarrow> (serialization_error, bytes) outcome" where
  "serialize_i64 from width =
     (let number_vec = magnitude_bytes (nat \<bar>from\<bar>) False;
          signed = (\<lambda>number_vec. if from < 0
            then (if number_vec = [] then Panic else Ok (butlast number_vec @ [last number_vec OR 0x80]))
            else Ok number_vec)
      in case width of
           None \<Rightarrow> signed number_vec
         | Some width \<Rightarrow>
             if width < length number_vec then Err (NumberTooLong from width) else signed (resize_bytes width number_vec))"

definition deserialize_i64 :: "bytes \<Rightarrow> bool \<Rightarrow> (tx_script_error, int) outcome" where
  "deserialize_i64 v enforce_minimal =
     (if 8 < length v then Err NotMinimalData
      else if v = [] then Ok 0
      else bind_outcome (if enforce_minimal then check_minimal_data_encoding v else Ok ()) (\<lambda>_.
        let msb = last v; sign = 1 - 2 * int (unat (drop_bit 7 msb)); first_byte = int (unat (msb AND 0x7f))
        in Ok (foldl (\<lambda>accum item. accum * 256 + item) first_byte (map (\<lambda>b. int (unat b)) (rev (butlast v))) * sign)))"

definition deserialize_sized :: "nat \<Rightarrow> bytes \<Rightarrow> bool \<Rightarrow> (tx_script_error, int) outcome" where
  "deserialize_sized len entry enforce_minimal =
     (if len < length entry then Err NumberTooBig else deserialize_i64 entry enforce_minimal)"

definition serialize_sized :: "nat \<Rightarrow> int \<Rightarrow> (serialization_error, bytes) outcome" where
  "serialize_sized len from =
     bind_outcome (serialize_i64 from None) (\<lambda>bytes. if len < length bytes then Err (NumberTooLong from len) else Ok bytes)"

definition entry_to_i64 :: "bytes \<Rightarrow> bool \<Rightarrow> (tx_script_error, int) outcome" where
  "entry_to_i64 entry enforce_minimal = deserialize_sized 8 entry enforce_minimal"

definition i64_to_entry :: "int \<Rightarrow> (serialization_error, bytes) outcome" where
  "i64_to_entry n = serialize_sized 8 n"

definition entry_to_i32 :: "bytes \<Rightarrow> bool \<Rightarrow> (tx_script_error, int) outcome" where
  "entry_to_i32 entry enforce_minimal =
     (if enforce_minimal
      then bind_outcome (deserialize_sized 4 entry True) (\<lambda>v. if i32_range v then Ok v else Panic)
      else bind_outcome (deserialize_sized 8 entry False) (\<lambda>v. if i32_range v then Ok v else Err NumberTooBig))"

definition entry_to_bool :: "bytes \<Rightarrow> bool" where
  "entry_to_bool entry \<longleftrightarrow>
     entry \<noteq> [] \<and> (last entry AND 0x7f \<noteq> 0 \<or> list_ex (\<lambda>b. b \<noteq> 0) (butlast entry))"

definition bool_to_entry :: "bool \<Rightarrow> bytes" where
  "bool_to_entry b = (if b then [1] else [])"

definition entry_to_hash :: "bytes \<Rightarrow> (tx_script_error, hash) outcome" where
  "entry_to_hash entry = (if length entry = 32 then Ok entry else Err (InvalidLengthOfBlockHash (length entry)))"

section \<open>Bytes and their sign bit\<close>

lemma unat_and_7f: "unat (b AND 0x7f) = unat (b :: u8) mod 128"
proof -
  have "b AND 0x7f = take_bit 7 b" by (simp add: take_bit_eq_mask mask_eq_exp_minus_1)
  then show ?thesis by (simp add: take_bit_eq_mod unat_mod)
qed

lemma unat_drop_bit_7: "unat (drop_bit 7 (b :: u8)) = unat b div 128"
  by (simp add: drop_bit_eq_div unat_div)

lemma bit_7_iff: "bit (b :: u8) 7 \<longleftrightarrow> 128 \<le> unat b"
proof -
  have "unat b < 256" using unat_less [of b] by simp
  then have "unat b div 128 = 1" if "128 \<le> unat b" using that by (intro div_nat_eqI) simp_all
  then have "odd (unat b div 128) \<longleftrightarrow> 128 \<le> unat b" by (cases "128 \<le> unat b") auto
  moreover have "bit b 7 \<longleftrightarrow> bit (unat b) 7" by (simp add: bit_unsigned_iff)
  ultimately show ?thesis by (simp add: bit_iff_odd)
qed

lemma and_80_eq_0: "b AND 0x80 = 0 \<longleftrightarrow> unat (b :: u8) < 128"
  using and_exp_eq_0_iff_not_bit [of b 7] by (simp add: bit_7_iff not_le)

lemma unat_or_80:
  assumes "unat (b :: u8) < 128"
  shows "unat (b OR 0x80) = unat b + 128"
proof -
  have "b AND 0x80 = 0" using assms by (simp add: and_80_eq_0)
  then have "b OR 0x80 = b + 0x80" by (simp add: disjunctive_add_eq_or)
  then show ?thesis using assms by (simp add: unat_word_ariths)
qed

section \<open>The number codec\<close>

text \<open>A magnitude in minimal form: its last byte leaves room for the sign bit and is needed.\<close>

definition magnitude_ok :: "bytes \<Rightarrow> bool" where
  "magnitude_ok w \<longleftrightarrow> w \<noteq> [] \<and> unat (last w) < 128
     \<and> (last w \<noteq> 0 \<or> (1 < length w \<and> 128 \<le> unat (w ! (length w - 2))))"

lemma magnitude_bytes_0: "magnitude_bytes 0 s = (if s then [0] else [])"
  by (simp add: magnitude_bytes.simps)

lemma magnitude_bytes_pos: "0 < n \<Longrightarrow> magnitude_bytes n s = of_nat (n mod 256) # magnitude_bytes (n div 256) (128 \<le> n mod 256)"
  by (simp add: magnitude_bytes.simps)

lemma le_nat_magnitude_bytes: "le_nat (magnitude_bytes n s) = n"
proof (induction n s rule: magnitude_bytes.induct)
  case (1 n s)
  then show ?case by (cases "n = 0") (simp_all add: magnitude_bytes_0 magnitude_bytes_pos)
qed

lemma magnitude_ok_Cons:
  "magnitude_ok (b # w) \<longleftrightarrow> (if w = [] then b \<noteq> 0 \<and> unat b < 128 else if w = [0] then 128 \<le> unat b else magnitude_ok w)"
proof (cases w)
  case Nil
  then show ?thesis by (auto simp: magnitude_ok_def)
next
  case (Cons c v)
  then show ?thesis
    by (cases v) (auto simp: magnitude_ok_def nth_Cons')
qed

lemma magnitude_ok_magnitude_bytes: "0 < n \<Longrightarrow> magnitude_ok (magnitude_bytes n s)"
proof (induction n s rule: magnitude_bytes.induct)
  case (1 n s)
  have m: "unat (of_nat (n mod 256) :: u8) = n mod 256" by simp
  show ?case
  proof (cases "n div 256 = 0")
    case True
    then have "n < 256" by simp
    then show ?thesis using 1(2) True m
      by (auto simp: magnitude_bytes_pos magnitude_bytes_0 magnitude_ok_Cons magnitude_ok_def word_unat_eq_iff simp del: unat_byte_of_nat)
  next
    case False
    then have "magnitude_ok (magnitude_bytes (n div 256) (128 \<le> n mod 256))" using 1 by simp
    moreover from this have "magnitude_bytes (n div 256) (128 \<le> n mod 256) \<noteq> []" "magnitude_bytes (n div 256) (128 \<le> n mod 256) \<noteq> [0]"
      by (auto simp: magnitude_ok_def)
    ultimately show ?thesis using 1(2) by (simp add: magnitude_bytes_pos magnitude_ok_Cons)
  qed
qed

lemma magnitude_ok_pos: "magnitude_ok w \<Longrightarrow> 0 < le_nat w"
proof (induction w)
  case (Cons b w)
  then show ?case by (auto simp: magnitude_ok_Cons unat_gt_0 split: if_splits)
qed (simp add: magnitude_ok_def)

lemma magnitude_bytes_le_nat: "magnitude_ok w \<Longrightarrow> magnitude_bytes (le_nat w) s = w"
proof (induction w arbitrary: s)
  case Nil
  then show ?case by (simp add: magnitude_ok_def)
next
  case (Cons b w)
  have b: "unat b < 256" using unat_less [of b] by simp
  then have md: "le_nat (b # w) mod 256 = unat b" "le_nat (b # w) div 256 = le_nat w" by simp_all
  have "magnitude_bytes (le_nat (b # w)) s = b # magnitude_bytes (le_nat w) (128 \<le> unat b)"
    using magnitude_bytes_pos [OF magnitude_ok_pos [OF Cons.prems], of s] unfolding md by simp
  moreover have "magnitude_bytes (le_nat w) (128 \<le> unat b) = w"
    using Cons by (auto simp: magnitude_ok_Cons magnitude_bytes_0 split: if_splits)
  ultimately show ?case by simp
qed

definition magnitude_of :: "bytes \<Rightarrow> bytes" where
  "magnitude_of v = butlast v @ [last v AND 0x7f]"

definition is_negative :: "bytes \<Rightarrow> bool" where
  "is_negative v \<longleftrightarrow> 128 \<le> unat (last v)"

lemma unat_byte_less: "unat (b :: u8) < 256"
  using unat_less [of b] by simp

lemma sign_clear [simp]: "unat (b :: u8) < 128 \<Longrightarrow> b AND 0x7f = b"
  by (simp add: word_unat_eq_iff unat_and_7f)

lemma sign_set: "128 \<le> unat (b :: u8) \<Longrightarrow> (b AND 0x7f) OR 0x80 = b"
proof -
  assume b: "128 \<le> unat b"
  have m: "unat b mod 128 = unat b - 128"
    using b unat_byte_less [of b] by (simp add: le_mod_geq)
  have "unat b - 128 < 128" using b unat_byte_less [of b] by linarith
  then show ?thesis using b m unat_or_80 [of "b AND 0x7f"] by (simp add: word_unat_eq_iff unat_and_7f)
qed

lemma sign_roundtrip: "unat (b :: u8) < 128 \<Longrightarrow> (b OR 0x80) AND 0x7f = b"
  by (simp add: word_unat_eq_iff unat_and_7f unat_or_80)

lemma foldl_big_endian:
  "foldl (\<lambda>accum item. accum * 256 + item) f (map (\<lambda>b. int (unat b)) (rev xs)) = f * 256 ^ length xs + int (le_nat xs)"
  by (induction xs arbitrary: f) (simp_all add: algebra_simps)

lemma le_nat_append: "le_nat (xs @ ys) = le_nat xs + 256 ^ length xs * le_nat ys"
  by (induction xs) (simp_all add: algebra_simps)

lemma check_minimal_iff: "v \<noteq> [] \<Longrightarrow> check_minimal_data_encoding v = (if magnitude_ok (magnitude_of v) then Ok () else Err NotMinimalData)"
proof -
  assume v: "v \<noteq> []"
  have "unat (last v AND 0x7f) < 128" by (simp add: unat_and_7f)
  moreover have "length v - 2 < length v - 1" if "length v \<noteq> 1" using v that by (cases v) auto
  ultimately show ?thesis using v
    by (auto simp: check_minimal_data_encoding_def magnitude_ok_def magnitude_of_def nth_append nth_butlast and_80_eq_0 neq_Nil_conv)
qed

lemma deserialize_i64_value:
  assumes "v \<noteq> []" "length v \<le> 8"
  shows "deserialize_i64 v minimal =
    (if minimal \<and> \<not> magnitude_ok (magnitude_of v) then Err NotMinimalData
     else Ok (if is_negative v then - int (le_nat (magnitude_of v)) else int (le_nat (magnitude_of v))))"
proof -
  have "unat (last v) div 128 = (if is_negative v then 1 else 0)"
    using unat_byte_less [of "last v"] by (auto simp: is_negative_def intro!: div_nat_eqI)
  moreover have "int (unat (last v AND 0x7f)) * 256 ^ (length v - 1) + int (le_nat (butlast v)) = int (le_nat (magnitude_of v))"
    by (simp add: magnitude_of_def le_nat_append)
  ultimately show ?thesis using assms
    by (simp add: deserialize_i64_def Let_def check_minimal_iff foldl_big_endian unat_drop_bit_7)
qed

lemma le_nat_magnitude_of: "v \<noteq> [] \<Longrightarrow> 2 * le_nat (magnitude_of v) < 256 ^ length v"
proof -
  assume "v \<noteq> []"
  then obtain k where k: "length v = Suc k" by (cases v) auto
  have "le_nat (butlast v) < 256 ^ k" using le_nat_less [of "butlast v"] k by simp
  moreover have "unat (last v AND 0x7f) \<le> 127" using mod_less_divisor [of 128 "unat (last v)"] by (simp add: unat_and_7f)
  then have "256 ^ k * unat (last v AND 0x7f) \<le> 256 ^ k * 127" by (rule mult_le_mono2)
  moreover have "2 * (a + x) < 256 * p" if "a < p" "x \<le> p * 127" for a x p :: nat using that by simp
  ultimately have "2 * (le_nat (butlast v) + 256 ^ k * unat (last v AND 0x7f)) < 256 * 256 ^ k" by blast
  then show ?thesis using k by (simp add: magnitude_of_def le_nat_append)
qed

lemma serialize_i64_None:
  "serialize_i64 n None = Ok (if n < 0 then butlast (magnitude_bytes (nat \<bar>n\<bar>) False) @ [last (magnitude_bytes (nat \<bar>n\<bar>) False) OR 0x80]
     else magnitude_bytes (nat n) False)"
  using magnitude_ok_magnitude_bytes [of "nat \<bar>n\<bar>" False]
  by (auto simp: serialize_i64_def Let_def magnitude_ok_def)

lemma magnitude_of_serialized:
  assumes "n \<noteq> 0" "serialize_i64 n None = Ok v"
  shows "v \<noteq> []" "magnitude_of v = magnitude_bytes (nat \<bar>n\<bar>) False" "is_negative v \<longleftrightarrow> n < 0"
proof -
  let ?m = "magnitude_bytes (nat \<bar>n\<bar>) False"
  have "magnitude_ok ?m" using assms(1) by (intro magnitude_ok_magnitude_bytes) simp
  then have m: "?m \<noteq> []" "unat (last ?m) < 128" by (auto simp: magnitude_ok_def)
  have v: "v = (if n < 0 then butlast ?m @ [last ?m OR 0x80] else ?m)"
    using assms(2) by (auto simp: serialize_i64_None)
  show "v \<noteq> []" "is_negative v \<longleftrightarrow> n < 0" using v m by (auto simp: is_negative_def unat_or_80)
  show "magnitude_of v = ?m" using v m by (auto simp: magnitude_of_def sign_roundtrip)
qed

lemma serialized_of_magnitude:
  assumes "v \<noteq> []" "magnitude_ok (magnitude_of v)"
    and n: "n = (if is_negative v then - int (le_nat (magnitude_of v)) else int (le_nat (magnitude_of v)))"
  shows "serialize_i64 n None = Ok v"
proof -
  have pos: "0 < le_nat (magnitude_of v)" by (rule magnitude_ok_pos [OF assms(2)])
  then have m: "magnitude_bytes (nat \<bar>n\<bar>) False = magnitude_of v"
    using n by (simp add: magnitude_bytes_le_nat [OF assms(2)])
  show ?thesis
  proof (cases "is_negative v")
    case True
    then have "butlast (magnitude_of v) @ [last (magnitude_of v) OR 0x80] = v"
      using assms(1) by (simp add: magnitude_of_def is_negative_def sign_set)
    then show ?thesis using True m n pos by (simp add: serialize_i64_None)
  next
    case False
    then have "magnitude_of v = v" using assms(1) by (simp add: magnitude_of_def is_negative_def)
    then show ?thesis using False m n by (simp add: serialize_i64_None)
  qed
qed

lemma deserialize_i64_iff:
  "deserialize_i64 v True = Ok n \<longleftrightarrow> serialize_i64 n None = Ok v \<and> length v \<le> 8"
proof
  assume d: "deserialize_i64 v True = Ok n"
  have len: "length v \<le> 8" using d by (simp add: deserialize_i64_def split: if_splits)
  show "serialize_i64 n None = Ok v \<and> length v \<le> 8"
  proof (cases "v = []")
    case True
    then show ?thesis using d by (simp add: deserialize_i64_def serialize_i64_None magnitude_bytes_0)
  next
    case False
    then have "magnitude_ok (magnitude_of v)"
      "n = (if is_negative v then - int (le_nat (magnitude_of v)) else int (le_nat (magnitude_of v)))"
      using d deserialize_i64_value [OF False len, of True] by (simp_all split: if_splits)
    then show ?thesis using serialized_of_magnitude [OF False] len by simp
  qed
next
  assume s: "serialize_i64 n None = Ok v \<and> length v \<le> 8"
  show "deserialize_i64 v True = Ok n"
  proof (cases "n = 0")
    case True
    then show ?thesis using s by (simp add: deserialize_i64_def serialize_i64_None magnitude_bytes_0)
  next
    case False
    note ms = magnitude_of_serialized [OF False conjunct1 [OF s]]
    have "magnitude_ok (magnitude_of v)" using False ms(2) by (simp add: magnitude_ok_magnitude_bytes)
    then show ?thesis using s ms deserialize_i64_value [OF ms(1), of True] by (simp add: le_nat_magnitude_bytes)
  qed
qed

lemma deserialize_i64_bound: "deserialize_i64 v minimal = Ok n \<Longrightarrow> \<bar>n\<bar> < 2 ^ 63"
proof (cases "v = []")
  case False
  assume d: "deserialize_i64 v minimal = Ok n"
  then have len: "length v \<le> 8" by (simp add: deserialize_i64_def split: if_splits)
  have "\<bar>n\<bar> = int (le_nat (magnitude_of v))"
    using d deserialize_i64_value [OF False len, of minimal] by (auto split: if_splits)
  moreover have "2 * le_nat (magnitude_of v) < 256 ^ 8"
    by (rule less_le_trans [OF le_nat_magnitude_of [OF False] power_increasing]) (use len in simp_all)
  ultimately show ?thesis by simp
qed (simp add: deserialize_i64_def)

lemma deserialize_i64_not_Panic: "deserialize_i64 v minimal \<noteq> Panic"
proof (cases "v = [] \<or> 8 < length v")
  case True
  then show ?thesis by (auto simp: deserialize_i64_def)
next
  case False
  then show ?thesis by (simp add: deserialize_i64_value)
qed

lemma deserialize_i64_safe: "safe (deserialize_i64 v minimal) (\<lambda>n. \<bar>n\<bar> < 2 ^ 63)"
  using deserialize_i64_bound [of v minimal] deserialize_i64_not_Panic [of v minimal] by (simp add: safe_iff)

lemma deserialize_i64_short: "deserialize_i64 v minimal = Ok n \<Longrightarrow> length v \<le> 4 \<Longrightarrow> \<bar>n\<bar> < 2 ^ 31"
proof (cases "v = []")
  case False
  assume d: "deserialize_i64 v minimal = Ok n" and len: "length v \<le> 4"
  have "\<bar>n\<bar> = int (le_nat (magnitude_of v))"
    using d deserialize_i64_value [OF False, of minimal] len by (auto split: if_splits)
  moreover have "2 * le_nat (magnitude_of v) < 256 ^ 4"
    by (rule less_le_trans [OF le_nat_magnitude_of [OF False] power_increasing]) (use len in simp_all)
  ultimately show ?thesis by simp
qed (simp add: deserialize_i64_def)

lemma entry_to_i64_rule: "safe (entry_to_i64 v m) (\<lambda>n. \<bar>n\<bar> < 2 ^ 63)"
  using deserialize_i64_safe [of v m] by (simp add: entry_to_i64_def deserialize_sized_def)

lemma entry_to_i32_rule: "safe (entry_to_i32 v m) i32_range"
proof (cases m)
  case True
  have "i32_range n" if "length v \<le> 4" "deserialize_i64 v True = Ok n" for n
    using deserialize_i64_short [OF that(2,1)] by (auto simp: i32_range_def)
  then have "safe (deserialize_sized 4 v True) i32_range"
    using safe_not_Panic [OF deserialize_i64_safe [of v True]] by (auto simp: deserialize_sized_def safe_iff)
  then show ?thesis using True by (auto simp: entry_to_i32_def elim!: safe_mono)
next
  case False
  then show ?thesis using deserialize_i64_safe [of v False]
    by (auto simp: entry_to_i32_def deserialize_sized_def elim!: safe_mono)
qed

lemma entry_to_hash_rule: "safe (entry_to_hash v) (\<lambda>h. length h = 32)"
  by (simp add: entry_to_hash_def)

lemma i64_to_entry_rule: "safe (i64_to_entry n) (\<lambda>v. length v \<le> 8)"
  by (simp add: i64_to_entry_def serialize_sized_def serialize_i64_None)

lemma le_nat_replicate_0 [simp]: "le_nat (replicate k 0) = 0"
  by (induction k) simp_all

lemma resize_magnitude:
  assumes "length m \<le> k" "m = [] \<or> magnitude_ok m" "0 < k"
  shows "resize_bytes k m \<noteq> []" "unat (last (resize_bytes k m)) < 128" "le_nat (resize_bytes k m) = le_nat m"
    "length (resize_bytes k m) = k"
  using assms by (auto simp: resize_bytes_def le_nat_append magnitude_ok_def last_append)

lemma signed_magnitude:
  assumes "r \<noteq> []" "unat (last r) < 128"
  shows "magnitude_of r = r" "\<not> is_negative r"
    "magnitude_of (butlast r @ [last r OR 0x80]) = r" "is_negative (butlast r @ [last r OR 0x80])"
  using assms by (simp_all add: magnitude_of_def is_negative_def sign_roundtrip unat_or_80)

lemma sized_roundtrip:
  assumes "serialize_i64 n (Some k) = Ok v" "k \<le> 8"
  shows "length v = k" "deserialize_i64 v False = Ok n"
proof -
  define m r where md: "m = magnitude_bytes (nat \<bar>n\<bar>) False" and rd: "r = resize_bytes k m"
  have len: "length m \<le> k"
    using assms(1) by (auto simp: serialize_i64_def Let_def md [symmetric] split: if_splits)
  have m: "m = [] \<or> magnitude_ok m"
    using magnitude_ok_magnitude_bytes [of "nat \<bar>n\<bar>" False] by (cases "n = 0") (auto simp: magnitude_bytes_0 md)
  have v: "(if n < 0 then (if r = [] then Panic else Ok (butlast r @ [last r OR 0x80])) else Ok r) = (Ok v :: (serialization_error, bytes) outcome)"
    using assms(1) len by (auto simp: serialize_i64_def Let_def md [symmetric] rd split: if_splits)
  have "length v = k \<and> deserialize_i64 v False = Ok n"
  proof (cases "k = 0")
    case True
    then have "m = []" using len by simp
    then have "nat \<bar>n\<bar> = 0" using le_nat_magnitude_bytes [of "nat \<bar>n\<bar>" False] md by simp
    then show ?thesis using True v by (auto simp: resize_bytes_def deserialize_i64_def rd)
  next
    case False
    have "0 < k" using False by simp
    note r = resize_magnitude [OF len m this, folded rd]
    note sm = signed_magnitude [OF r(1,2)]
    have vr: "v = (if n < 0 then butlast r @ [last r OR 0x80] else r)" using v r(1) by (simp split: if_splits)
    then have "length v = k" using r(1,4) False by simp
    moreover have "v \<noteq> []" "magnitude_of v = r" "is_negative v \<longleftrightarrow> n < 0"
      using vr sm r(1) by simp_all
    moreover have "le_nat r = nat \<bar>n\<bar>" using r(3) by (simp add: le_nat_magnitude_bytes md)
    ultimately show ?thesis using assms(2) deserialize_i64_value [of v False] by auto
  qed
  then show "length v = k" "deserialize_i64 v False = Ok n" by simp_all
qed

section \<open>Properties\<close>

text \<open>
  C31. The strict number decoder of the script engine accepts a byte string with value \<open>n\<close> exactly when the
  string is the encoder's output for \<open>n\<close> and at most eight bytes long: every accepted encoding is minimal,
  every number has one encoding, and decoding inverts encoding.
\<close>

theorem script_num_exact:
  "deserialize_i64 v True = Ok n \<longleftrightarrow> serialize_i64 n None = Ok v \<and> length v \<le> 8"
  by (rule deserialize_i64_iff)

text \<open>
  C32. The sized encoding behind \<open>OpNum2Bin\<close>, for a width of at most eight bytes, yields exactly that many bytes,
  and the lenient decoder behind \<open>OpBin2Num\<close> reads the number back.
\<close>

theorem num2bin_roundtrip:
  assumes "serialize_i64 n (Some k) = Ok v" "k \<le> 8"
  shows "length v = k \<and> deserialize_i64 v False = Ok n"
  using sized_roundtrip [OF assms] by simp

theorem num2bin_roundtrip_witness:
  "serialize_i64 (- 300) (Some 4) = Ok [44, 1, 0, 128] \<and> deserialize_i64 [44, 1, 0, 128] False = Ok (- 300)"
proof -
  have "serialize_i64 (- 300) (Some 4) = Ok [44, 1, 0, 128]" by code_simp
  then show ?thesis using num2bin_roundtrip [of "- 300" 4 "[44, 1, 0, 128]"] by simp
qed

end
