(* ===== verification/Script_Stack.thy ===== *)
theory Script_Stack
  imports Script_Num
begin

text \<open>
  The data stack of the script engine (\<^verbatim>\<open>crypto/txscript/src/data_stack.rs\<close>), the mass units
  (\<^verbatim>\<open>consensus/core/src/mass/units.rs\<close>) and the runtime resource meter
  (\<^verbatim>\<open>crypto/txscript/src/runtime_resource_meter.rs\<close>). The top of the stack is the end of the list, as in the
  vector of the code. Lengths of byte strings are natural numbers; the counter of pushed bytes keeps its
  64 bits. The lemmas state the contract of every operation as a \<open>safe\<close> rule: what it asks for, and what it
  keeps of the element bound. The properties: the compute budget is the least one covering the work, and the
  meter never lets more units through than the limit.
\<close>

unbundle bit_operations_syntax

section \<open>Units\<close>

type_synonym script_units = u64

definition GRAMS_PER_COMPUTE_BUDGET_UNIT :: u64 where "GRAMS_PER_COMPUTE_BUDGET_UNIT = 100"
definition GRAMS_PER_SIGOP_COUNT_UNIT :: u64 where "GRAMS_PER_SIGOP_COUNT_UNIT = 1000"
definition SCRIPT_UNITS_PER_GRAM :: u64 where "SCRIPT_UNITS_PER_GRAM = 100"
definition SCRIPT_UNITS_PER_COMPUTE_BUDGET_UNIT :: u64 where
  "SCRIPT_UNITS_PER_COMPUTE_BUDGET_UNIT = GRAMS_PER_COMPUTE_BUDGET_UNIT * SCRIPT_UNITS_PER_GRAM"
definition SCRIPT_UNITS_PER_SIGOP_COUNT_UNIT :: u64 where
  "SCRIPT_UNITS_PER_SIGOP_COUNT_UNIT = GRAMS_PER_SIGOP_COUNT_UNIT * SCRIPT_UNITS_PER_GRAM"

definition free_script_units_per_input :: script_units where
  "free_script_units_per_input = saturating_sub SCRIPT_UNITS_PER_COMPUTE_BUDGET_UNIT 1"

definition gram_to_script_units :: "u64 \<Rightarrow> ('e, script_units) outcome" where
  "gram_to_script_units value = mul_p value SCRIPT_UNITS_PER_GRAM"

definition sigop_count_to_script_units :: "u8 \<Rightarrow> ('e, script_units) outcome" where
  "sigop_count_to_script_units value = mul_p (ucast value) SCRIPT_UNITS_PER_SIGOP_COUNT_UNIT"

definition compute_budget_to_script_units :: "u16 \<Rightarrow> ('e, script_units) outcome" where
  "compute_budget_to_script_units value = mul_p (ucast value) SCRIPT_UNITS_PER_COMPUTE_BUDGET_UNIT"

definition to_grams :: "u16 \<Rightarrow> ('e, u64) outcome" where
  "to_grams value = mul_p (ucast value) GRAMS_PER_COMPUTE_BUDGET_UNIT"

definition compute_budget_try_from :: "script_units \<Rightarrow> ('e, u16 option) outcome" where
  "compute_budget_try_from units =
     bind_outcome (div_ceil_p units SCRIPT_UNITS_PER_COMPUTE_BUDGET_UNIT) (\<lambda>scaled.
       Ok (if unat scaled < 2 ^ 16 then Some (ucast scaled) else None))"

definition checked_covering_script_units :: "script_units \<Rightarrow> ('e, u16 option) outcome" where
  "checked_covering_script_units required_script_units =
     compute_budget_try_from (saturating_sub required_script_units free_script_units_per_input)"

definition commit_to_script_units :: "compute_commit \<Rightarrow> ('e, script_units) outcome" where
  "commit_to_script_units value =
     (case value of SigopCount count \<Rightarrow> sigop_count_to_script_units count
      | ComputeBudget budget \<Rightarrow> compute_budget_to_script_units budget)"

definition allowed_script_units :: "compute_commit \<Rightarrow> ('e, script_units) outcome" where
  "allowed_script_units c =
     bind_outcome (commit_to_script_units c) (\<lambda>script_units. Ok (saturating_add script_units free_script_units_per_input))"

section \<open>The stack\<close>

definition MAX_SCRIPT_ELEMENT_SIZE_POST_TOCCATA :: nat where
  "MAX_SCRIPT_ELEMENT_SIZE_POST_TOCCATA = 1000000"

type_synonym stack_entry = bytes

record stack =
  st_inner :: "stack_entry list"
  st_covenants_enabled :: bool
  st_pushed_bytes :: u64

definition total_bytes :: "stack_entry list \<Rightarrow> nat" where
  "total_bytes items = sum_list (map length items)"

definition stack_new :: "stack_entry list \<Rightarrow> bool \<Rightarrow> stack" where
  "stack_new inner covenants_enabled =
     \<lparr>st_inner = inner, st_covenants_enabled = covenants_enabled, st_pushed_bytes = 0\<rparr>"

definition stack_len :: "stack \<Rightarrow> nat" where
  "stack_len s = length (st_inner s)"

definition add_pushed_bytes :: "nat \<Rightarrow> stack \<Rightarrow> ('e, stack) outcome" where
  "add_pushed_bytes n s =
     bind_outcome (add_p (st_pushed_bytes s) (of_nat n)) (\<lambda>pushed. Ok (s\<lparr>st_pushed_bytes := pushed\<rparr>))"

definition pop_pushed_bytes :: "stack \<Rightarrow> u64 \<times> stack" where
  "pop_pushed_bytes s = (st_pushed_bytes s, s\<lparr>st_pushed_bytes := 0\<rparr>)"

definition max_element_size :: "stack \<Rightarrow> nat" where
  "max_element_size s = (if st_covenants_enabled s then MAX_SCRIPT_ELEMENT_SIZE_POST_TOCCATA else 2 ^ 64 - 1)"

definition stack_insert :: "nat \<Rightarrow> stack_entry \<Rightarrow> stack \<Rightarrow> (tx_script_error, stack) outcome" where
  "stack_insert index element s =
     (if max_element_size s < length element then Err (ElementTooBig (length element) (max_element_size s))
      else bind_outcome (add_pushed_bytes (length element) s) (\<lambda>s.
        if stack_len s < index then Panic
        else Ok (s\<lparr>st_inner := take index (st_inner s) @ element # drop index (st_inner s)\<rparr>)))"

definition pop_raw :: "nat \<Rightarrow> stack \<Rightarrow> (tx_script_error, stack_entry list \<times> stack) outcome" where
  "pop_raw SIZE s =
     (if stack_len s < SIZE then Err (InvalidStackOperation SIZE (stack_len s))
      else Ok (drop (stack_len s - SIZE) (st_inner s), s\<lparr>st_inner := take (stack_len s - SIZE) (st_inner s)\<rparr>))"

definition pop_items ::
  "nat \<Rightarrow> (stack_entry \<Rightarrow> bool \<Rightarrow> (tx_script_error, 'a) outcome) \<Rightarrow> stack \<Rightarrow> (tx_script_error, 'a list \<times> stack) outcome"
where
  "pop_items SIZE deserialize s =
     (if stack_len s < SIZE then Err (InvalidStackOperation SIZE (stack_len s))
      else bind_outcome (map_outcome (\<lambda>v. deserialize v (\<not> st_covenants_enabled s)) (drop (stack_len s - SIZE) (st_inner s)))
        (\<lambda>xs. Ok (xs, s\<lparr>st_inner := take (stack_len s - SIZE) (st_inner s)\<rparr>)))"

definition peek_raw :: "nat \<Rightarrow> stack \<Rightarrow> (tx_script_error, stack_entry list) outcome" where
  "peek_raw SIZE s =
     (if stack_len s < SIZE then Err (InvalidStackOperation SIZE (stack_len s))
      else Ok (drop (stack_len s - SIZE) (st_inner s)))"

definition push_item :: "(serialization_error, stack_entry) outcome \<Rightarrow> stack \<Rightarrow> (tx_script_error, stack) outcome" where
  "push_item serialized s =
     bind_outcome (map_err Serialization serialized) (\<lambda>v.
     bind_outcome (add_pushed_bytes (length v) s) (\<lambda>s. Ok (s\<lparr>st_inner := st_inner s @ [v]\<rparr>)))"

definition push_item_unmetered :: "(serialization_error, stack_entry) outcome \<Rightarrow> stack \<Rightarrow> (tx_script_error, stack) outcome" where
  "push_item_unmetered serialized s =
     bind_outcome (map_err Serialization serialized) (\<lambda>v. Ok (s\<lparr>st_inner := st_inner s @ [v]\<rparr>))"

definition drop_items :: "nat \<Rightarrow> stack \<Rightarrow> (tx_script_error, stack) outcome" where
  "drop_items SIZE s =
     (if SIZE \<le> stack_len s then Ok (s\<lparr>st_inner := take (stack_len s - SIZE) (st_inner s)\<rparr>)
      else Err (InvalidStackOperation SIZE (stack_len s)))"

definition dup_items :: "nat \<Rightarrow> stack \<Rightarrow> (tx_script_error, stack) outcome" where
  "dup_items SIZE s =
     (if SIZE \<le> stack_len s
      then let added = drop (stack_len s - SIZE) (st_inner s)
           in bind_outcome (add_pushed_bytes (total_bytes added) s) (\<lambda>s. Ok (s\<lparr>st_inner := st_inner s @ added\<rparr>))
      else Err (InvalidStackOperation SIZE (stack_len s)))"

definition over_items :: "nat \<Rightarrow> stack \<Rightarrow> (tx_script_error, stack) outcome" where
  "over_items SIZE s =
     (if 2 * SIZE \<le> stack_len s
      then let added = take SIZE (drop (stack_len s - 2 * SIZE) (st_inner s))
           in bind_outcome (add_pushed_bytes (total_bytes added) s) (\<lambda>s. Ok (s\<lparr>st_inner := st_inner s @ added\<rparr>))
      else Err (InvalidStackOperation (2 * SIZE) (stack_len s)))"

definition rotate_tail :: "nat \<Rightarrow> nat \<Rightarrow> stack \<Rightarrow> stack" where
  "rotate_tail from mid s = s\<lparr>st_inner := take from (st_inner s) @ rotate mid (drop from (st_inner s))\<rparr>"

definition rot_items :: "nat \<Rightarrow> stack \<Rightarrow> (tx_script_error, stack) outcome" where
  "rot_items SIZE s =
     (if 3 * SIZE \<le> stack_len s then Ok (rotate_tail (stack_len s - 3 * SIZE) SIZE s)
      else Err (InvalidStackOperation (3 * SIZE) (stack_len s)))"

definition swap_items :: "nat \<Rightarrow> stack \<Rightarrow> (tx_script_error, stack) outcome" where
  "swap_items SIZE s =
     (if 2 * SIZE \<le> stack_len s then Ok (rotate_tail (stack_len s - 2 * SIZE) SIZE s)
      else Err (InvalidStackOperation (2 * SIZE) (stack_len s)))"

definition roll :: "nat \<Rightarrow> stack \<Rightarrow> (tx_script_error, stack) outcome" where
  "roll loc s =
     (if stack_len s \<le> loc then Err (InvalidStackOperation loc (stack_len s))
      else if loc = 0 then Ok s
      else Ok (rotate_tail (stack_len s - loc - 1) 1 s))"

definition stack_clear :: "stack \<Rightarrow> stack" where
  "stack_clear s = s\<lparr>st_inner := []\<rparr>"

definition stack_pop :: "stack \<Rightarrow> (tx_script_error, stack_entry \<times> stack) outcome" where
  "stack_pop s =
     (if st_inner s = [] then Err EmptyStack else Ok (last (st_inner s), s\<lparr>st_inner := butlast (st_inner s)\<rparr>))"

definition split_off :: "nat \<Rightarrow> stack \<Rightarrow> (tx_script_error, stack_entry list \<times> stack) outcome" where
  "split_off at s =
     (if stack_len s < at then Panic else Ok (drop at (st_inner s), s\<lparr>st_inner := take at (st_inner s)\<rparr>))"

definition stack_push :: "stack_entry \<Rightarrow> stack \<Rightarrow> (tx_script_error, stack) outcome" where
  "stack_push item s =
     (if max_element_size s < length item then Err (ElementTooBig (length item) (max_element_size s))
      else bind_outcome (add_pushed_bytes (length item) s) (\<lambda>s. Ok (s\<lparr>st_inner := st_inner s @ [item]\<rparr>)))"

definition push_unmetered :: "stack_entry \<Rightarrow> stack \<Rightarrow> (tx_script_error, stack) outcome" where
  "push_unmetered item s =
     (if max_element_size s < length item then Err (ElementTooBig (length item) (max_element_size s))
      else Ok (s\<lparr>st_inner := st_inner s @ [item]\<rparr>))"

definition stack_remove :: "nat \<Rightarrow> stack \<Rightarrow> (tx_script_error, stack_entry \<times> stack) outcome" where
  "stack_remove index s =
     (if stack_len s \<le> index then Panic
      else Ok (st_inner s ! index, s\<lparr>st_inner := take index (st_inner s) @ drop (Suc index) (st_inner s)\<rparr>))"

section \<open>The resource meter\<close>

record sig_op_counter =
  sc_sig_op_limit :: u16
  sc_sig_op_remaining :: u16

definition sig_op_counter_new :: "u8 \<Rightarrow> sig_op_counter" where
  "sig_op_counter_new sig_op_limit = \<lparr>sc_sig_op_limit = ucast sig_op_limit, sc_sig_op_remaining = ucast sig_op_limit\<rparr>"

definition consume_sig_op :: "sig_op_counter \<Rightarrow> (tx_script_error, sig_op_counter) outcome" where
  "consume_sig_op c =
     bind_outcome (ok_or (ExceededSigOpLimit (sc_sig_op_limit c)) (checked_sub (sc_sig_op_remaining c) 1)) (\<lambda>rest.
       Ok (c\<lparr>sc_sig_op_remaining := rest\<rparr>))"

definition consume_sig_ops :: "u16 \<Rightarrow> sig_op_counter \<Rightarrow> (tx_script_error, sig_op_counter) outcome" where
  "consume_sig_ops count c =
     bind_outcome (ok_or (ExceededSigOpLimit (sc_sig_op_limit c)) (checked_sub (sc_sig_op_remaining c) count)) (\<lambda>rest.
       Ok (c\<lparr>sc_sig_op_remaining := rest\<rparr>))"

definition counter_used_sig_ops :: "sig_op_counter \<Rightarrow> ('e, u16) outcome" where
  "counter_used_sig_ops c = sub_p (sc_sig_op_limit c) (sc_sig_op_remaining c)"

record script_unit_meter =
  sm_used_sig_ops :: u16
  sm_sigop_script_units :: script_units
  sm_script_units_limit :: script_units
  sm_remaining_script_units :: script_units

definition script_unit_meter_new :: "script_units \<Rightarrow> script_units \<Rightarrow> script_unit_meter" where
  "script_unit_meter_new sigop_script_units script_units_limit =
     \<lparr>sm_used_sig_ops = 0, sm_sigop_script_units = sigop_script_units, sm_script_units_limit = script_units_limit,
      sm_remaining_script_units = script_units_limit\<rparr>"

definition meter_used_script_units :: "script_unit_meter \<Rightarrow> ('e, script_units) outcome" where
  "meter_used_script_units m = sub_p (sm_script_units_limit m) (sm_remaining_script_units m)"

definition meter_consume_script_units :: "script_units \<Rightarrow> script_unit_meter \<Rightarrow> (tx_script_error, script_unit_meter) outcome" where
  "meter_consume_script_units units m =
     (case checked_sub (sm_remaining_script_units m) units of
        Some new_remaining \<Rightarrow> Ok (m\<lparr>sm_remaining_script_units := new_remaining\<rparr>)
      | None \<Rightarrow>
          bind_outcome (sub_p units (sm_remaining_script_units m)) (\<lambda>overflow.
            Err (ExceededCommittedScriptUnits (saturating_add (sm_script_units_limit m) overflow) (sm_script_units_limit m))))"

definition meter_consume_sig_op_cost :: "u16 \<Rightarrow> script_unit_meter \<Rightarrow> (tx_script_error, script_unit_meter) outcome" where
  "meter_consume_sig_op_cost count m =
     bind_outcome (meter_consume_script_units (saturating_mul (ucast count) (sm_sigop_script_units m)) m) (\<lambda>m.
       Ok (m\<lparr>sm_used_sig_ops := saturating_add (sm_used_sig_ops m) count\<rparr>))"

definition meter_charge_newly_pushed_bytes :: "u64 \<Rightarrow> script_unit_meter \<Rightarrow> (tx_script_error, script_unit_meter) outcome" where
  "meter_charge_newly_pushed_bytes pushed_bytes_delta m = meter_consume_script_units pushed_bytes_delta m"

datatype runtime_resource_meter = Sigops sig_op_counter | ScriptUnitsMeter script_unit_meter

definition new_sigops :: "u8 \<Rightarrow> runtime_resource_meter" where
  "new_sigops sig_op_limit = Sigops (sig_op_counter_new sig_op_limit)"

definition new_script_units :: "script_units \<Rightarrow> script_units \<Rightarrow> runtime_resource_meter" where
  "new_script_units sigop_script_units script_units_limit =
     ScriptUnitsMeter (script_unit_meter_new sigop_script_units script_units_limit)"

definition used_sig_ops :: "runtime_resource_meter \<Rightarrow> ('e, u16) outcome" where
  "used_sig_ops r =
     (case r of Sigops counter \<Rightarrow> counter_used_sig_ops counter | ScriptUnitsMeter meter \<Rightarrow> Ok (sm_used_sig_ops meter))"

definition used_script_units :: "runtime_resource_meter \<Rightarrow> ('e, script_units) outcome" where
  "used_script_units r =
     (case r of Sigops _ \<Rightarrow> Ok 0 | ScriptUnitsMeter meter \<Rightarrow> meter_used_script_units meter)"

definition consume_sig_op_cost :: "u16 \<Rightarrow> runtime_resource_meter \<Rightarrow> (tx_script_error, runtime_resource_meter) outcome" where
  "consume_sig_op_cost count r =
     (case r of
        Sigops counter \<Rightarrow> bind_outcome (consume_sig_ops count counter) (\<lambda>c. Ok (Sigops c))
      | ScriptUnitsMeter meter \<Rightarrow> bind_outcome (meter_consume_sig_op_cost count meter) (\<lambda>m. Ok (ScriptUnitsMeter m)))"

definition consume_script_units :: "script_units \<Rightarrow> runtime_resource_meter \<Rightarrow> (tx_script_error, runtime_resource_meter) outcome" where
  "consume_script_units units r =
     (case r of
        Sigops counter \<Rightarrow> Ok r
      | ScriptUnitsMeter meter \<Rightarrow> bind_outcome (meter_consume_script_units units meter) (\<lambda>m. Ok (ScriptUnitsMeter m)))"

definition charge_newly_pushed_bytes :: "u64 \<Rightarrow> runtime_resource_meter \<Rightarrow> (tx_script_error, runtime_resource_meter) outcome" where
  "charge_newly_pushed_bytes pushed_bytes_delta r =
     (case r of
        Sigops counter \<Rightarrow> Ok r
      | ScriptUnitsMeter meter \<Rightarrow>
          bind_outcome (meter_charge_newly_pushed_bytes pushed_bytes_delta meter) (\<lambda>m. Ok (ScriptUnitsMeter m)))"

section \<open>Contracts of the stack operations\<close>

text \<open>
  \<open>fits B c n s\<close>: every element of the stack has at most \<open>B\<close> bytes, the stack was made with the covenant flag
  \<open>c\<close> and holds at most \<open>n\<close> elements. \<open>fresh B c n s\<close> adds that no pushed bytes are waiting to be charged.
\<close>

definition fits :: "nat \<Rightarrow> bool \<Rightarrow> nat \<Rightarrow> stack \<Rightarrow> bool" where
  "fits B c n s \<longleftrightarrow> (\<forall>e \<in> set (st_inner s). length e \<le> B) \<and> st_covenants_enabled s = c \<and> stack_len s \<le> n"

definition fresh :: "nat \<Rightarrow> bool \<Rightarrow> nat \<Rightarrow> stack \<Rightarrow> bool" where
  "fresh B c n s \<longleftrightarrow> fits B c n s \<and> st_pushed_bytes s = 0"

definition bound_ok :: "nat \<Rightarrow> bool \<Rightarrow> bool" where
  "bound_ok B c \<longleftrightarrow> 520 \<le> B \<and> B < 2 ^ 62 \<and> (c \<longrightarrow> B = MAX_SCRIPT_ELEMENT_SIZE_POST_TOCCATA)"

named_theorems stack_rules "contracts of the stack operations"

lemma fits_mono: "fits B c n s \<Longrightarrow> n \<le> n' \<Longrightarrow> fits B c n' s"
  by (simp add: fits_def)

lemma fresh_fits: "fresh B c n s \<Longrightarrow> fits B c n s"
  by (simp add: fresh_def)

lemma fresh_new: "fresh B c 0 (stack_new [] c)"
  by (simp add: fresh_def fits_def stack_new_def stack_len_def)

lemma fits_take: "fits B c n s \<Longrightarrow> fits B c n (s\<lparr>st_inner := take k (st_inner s)\<rparr>)"
  by (auto simp: fits_def stack_len_def dest: in_set_takeD)

lemma fits_drop: "fits B c n s \<Longrightarrow> e \<in> set (drop k (st_inner s)) \<Longrightarrow> length e \<le> B"
  by (auto simp: fits_def dest: in_set_dropD)

lemma total_bytes_le: "\<forall>e \<in> set es. length e \<le> B \<Longrightarrow> total_bytes es \<le> length es * B"
  by (induction es) (auto simp: total_bytes_def)

lemma add_pushed_bytes_fresh:
  assumes "fresh B c n s" "k < 2 ^ 64"
  shows "add_pushed_bytes k s = Ok (s\<lparr>st_pushed_bytes := of_nat k\<rparr>)"
proof -
  have "checked_add 0 (of_nat k :: u64) = Some (of_nat k)"
    using assms(2) by (simp add: checked_add_Some_iff)
  then show ?thesis using assms(1) by (simp add: add_pushed_bytes_def fresh_def)
qed

lemma pop_raw_rule [stack_rules]:
  "fresh B c n s \<Longrightarrow> safe (pop_raw k s) (\<lambda>(xs, s'). length xs = k \<and> (\<forall>x \<in> set xs. length x \<le> B) \<and> fresh B c n s')"
  by (auto simp: pop_raw_def fresh_def fits_take intro: fits_drop) (simp add: stack_len_def)

lemma map_outcome_safe:
  assumes "\<And>x. x \<in> set xs \<Longrightarrow> safe (f x) Q"
  shows "safe (map_outcome f xs) (\<lambda>ys. length ys = length xs \<and> (\<forall>y \<in> set ys. Q y))"
  using assms
proof (induction xs)
  case (Cons x xs)
  have "safe (f x) Q" "safe (map_outcome f xs) (\<lambda>ys. length ys = length xs \<and> (\<forall>y \<in> set ys. Q y))"
    using Cons by simp_all
  then show ?case by (auto elim!: safe_mono)
qed simp

lemma pop_items_rule:
  assumes "fresh B c n s" "\<And>v. length v \<le> B \<Longrightarrow> safe (deserialize v (\<not> c)) Q"
  shows "safe (pop_items k deserialize s) (\<lambda>(xs, s'). length xs = k \<and> (\<forall>x \<in> set xs. Q x) \<and> fresh B c n s')"
proof -
  let ?xs = "drop (stack_len s - k) (st_inner s)"
  have "safe (map_outcome (\<lambda>v. deserialize v (\<not> c)) ?xs) (\<lambda>ys. length ys = length ?xs \<and> (\<forall>y \<in> set ys. Q y))"
    using assms by (intro map_outcome_safe) (auto simp: fresh_def intro: fits_drop)
  then show ?thesis using assms(1)
    by (auto simp: pop_items_def fresh_def fits_take fits_def stack_len_def dest: in_set_takeD elim!: safe_mono)
qed

lemma stack_pop_rule [stack_rules]:
  "fresh B c n s \<Longrightarrow> safe (stack_pop s) (\<lambda>(x, s'). length x \<le> B \<and> fresh B c n s')"
  by (auto simp: stack_pop_def fresh_def fits_def stack_len_def dest: in_set_butlastD)

lemma peek_raw_rule [stack_rules]:
  "fresh B c n s \<Longrightarrow> safe (peek_raw k s) (\<lambda>xs. length xs = k \<and> (\<forall>x \<in> set xs. length x \<le> B))"
  by (auto simp: peek_raw_def fresh_def intro: fits_drop) (simp add: stack_len_def)

lemma split_off_rule:
  "fresh B c n s \<Longrightarrow> k \<le> stack_len s \<Longrightarrow>
   safe (split_off (stack_len s - k) s) (\<lambda>(xs, s'). length xs = k \<and> (\<forall>x \<in> set xs. length x \<le> B) \<and> fresh B c n s')"
  by (auto simp: split_off_def fresh_def fits_take intro: fits_drop) (simp add: stack_len_def)

lemma stack_push_rule:
  assumes "fresh B c n s" "bound_ok B c" "c \<or> length x \<le> B"
  shows "safe (stack_push x s) (fits B c (Suc n))"
proof (cases "max_element_size s < length x")
  case False
  have x: "length x \<le> B"
    using False assms by (auto simp: fresh_def fits_def bound_ok_def max_element_size_def)
  then have "length x < 2 ^ 64" using assms(2) by (simp add: bound_ok_def)
  then show ?thesis using False assms(1) x
    by (auto simp: stack_push_def add_pushed_bytes_fresh [OF assms(1)] fresh_def fits_def stack_len_def)
qed (simp add: stack_push_def)

lemma push_unmetered_rule:
  assumes "fresh B c n s" "bound_ok B c" "c \<or> length x \<le> B"
  shows "safe (push_unmetered x s) (fresh B c (Suc n))"
  using assms by (auto simp: push_unmetered_def fresh_def fits_def stack_len_def max_element_size_def bound_ok_def)

lemma push_item_rule:
  assumes "fresh B c n s" "bound_ok B c" "safe ser (\<lambda>v. length v \<le> B)"
  shows "safe (push_item ser s) (fits B c (Suc n))"
proof -
  have "safe (bind_outcome (add_pushed_bytes (length v) s) (\<lambda>s. Ok (s\<lparr>st_inner := st_inner s @ [v]\<rparr>)) :: (tx_script_error, stack) outcome)
      (fits B c (Suc n))" if "length v \<le> B" for v
  proof -
    have "length v < 2 ^ 64" using that assms(2) by (simp add: bound_ok_def)
    then show ?thesis using that assms(1)
      by (simp add: add_pushed_bytes_fresh [OF assms(1)]) (auto simp: fresh_def fits_def stack_len_def)
  qed
  then show ?thesis unfolding push_item_def safe_bind safe_map_err by (rule safe_mono [OF assms(3)])
qed

lemma push_item_unmetered_rule:
  assumes "fresh B c n s" "safe ser (\<lambda>v. length v \<le> B)"
  shows "safe (push_item_unmetered ser s) (fresh B c (Suc n))"
  using assms by (auto simp: push_item_unmetered_def fresh_def fits_def stack_len_def elim!: safe_mono)

lemma drop_items_rule [stack_rules]: "fresh B c n s \<Longrightarrow> safe (drop_items k s) (fresh B c n)"
  by (simp add: drop_items_def fresh_def fits_take)

lemma append_rule:
  assumes "fresh B c n s" "bound_ok B c" "set es \<subseteq> set (st_inner s)" "length es \<le> 3"
  shows "safe (bind_outcome (add_pushed_bytes (total_bytes es) s) (\<lambda>s. Ok (s\<lparr>st_inner := st_inner s @ es\<rparr>))) (fits B c (n + 3))"
proof -
  have es: "\<forall>e \<in> set es. length e \<le> B" using assms(1,3) by (auto simp: fresh_def fits_def)
  then have "total_bytes es \<le> length es * B" by (rule total_bytes_le)
  also have "\<dots> \<le> 3 * B" using assms(4) by (rule mult_le_mono1)
  finally have "total_bytes es < 2 ^ 64" using assms(2) by (simp add: bound_ok_def)
  then show ?thesis using assms(1,4) es
    by (auto simp: add_pushed_bytes_fresh [OF assms(1)] fresh_def fits_def stack_len_def)
qed

lemma dup_items_rule: "fresh B c n s \<Longrightarrow> bound_ok B c \<Longrightarrow> k \<le> 3 \<Longrightarrow> safe (dup_items k s) (fits B c (n + 3))"
  by (auto simp: dup_items_def Let_def stack_len_def simp del: safe_bind intro!: append_rule dest: in_set_dropD)

lemma over_items_rule: "fresh B c n s \<Longrightarrow> bound_ok B c \<Longrightarrow> k \<le> 3 \<Longrightarrow> safe (over_items k s) (fits B c (n + 3))"
  by (auto simp: over_items_def Let_def stack_len_def simp del: safe_bind intro!: append_rule dest: in_set_dropD in_set_takeD)

lemma rotate_tail_fresh: "fresh B c n s \<Longrightarrow> fresh B c n (rotate_tail i k s)"
proof -
  have "set (take i xs @ rotate k (drop i xs)) = set xs" "length (take i xs @ rotate k (drop i xs)) = length xs" for xs :: "bytes list"
    by (simp_all add: set_append [of "take i xs" "drop i xs", simplified, symmetric])
  then show "fresh B c n s \<Longrightarrow> ?thesis" by (simp add: rotate_tail_def fresh_def fits_def stack_len_def)
qed

lemma rotations_rule [stack_rules]:
  "fresh B c n s \<Longrightarrow> safe (rot_items k s) (fresh B c n)"
  "fresh B c n s \<Longrightarrow> safe (swap_items k s) (fresh B c n)"
  "fresh B c n s \<Longrightarrow> safe (roll k s) (fresh B c n)"
  by (simp_all add: rot_items_def swap_items_def roll_def rotate_tail_fresh)

lemma stack_remove_rule:
  "fresh B c n s \<Longrightarrow> k < stack_len s \<Longrightarrow> safe (stack_remove k s) (\<lambda>(x, s'). fresh B c n s')"
  by (auto simp: stack_remove_def fresh_def fits_def stack_len_def dest: in_set_takeD in_set_dropD)

lemma stack_insert_rule:
  assumes "fresh B c n s" "bound_ok B c" "k \<le> stack_len s" "length x \<le> B"
  shows "safe (stack_insert k x s) (fits B c (Suc n))"
proof -
  have "length x < 2 ^ 64" using assms(2,4) by (simp add: bound_ok_def)
  then show ?thesis using assms(1,3,4)
    by (simp add: stack_insert_def add_pushed_bytes_fresh [OF assms(1)])
       (auto simp: fresh_def fits_def stack_len_def dest: in_set_takeD in_set_dropD)
qed

lemma fresh_of_fits: "fits B c n s \<Longrightarrow> fresh B c n (snd (pop_pushed_bytes s))"
  by (simp add: pop_pushed_bytes_def fresh_def fits_def stack_len_def)

lemma fresh_clear: "fits B c n s \<Longrightarrow> fits B c 0 (stack_clear s)" "fresh B c n s \<Longrightarrow> fresh B c 0 (stack_clear s)"
  by (simp_all add: stack_clear_def fits_def fresh_def stack_len_def)

section \<open>Contracts of the meter\<close>

definition meter_terms :: "runtime_resource_meter \<Rightarrow> u16 + (script_units \<times> script_units)" where
  "meter_terms r = (case r of Sigops c \<Rightarrow> Inl (sc_sig_op_limit c)
     | ScriptUnitsMeter m \<Rightarrow> Inr (sm_sigop_script_units m, sm_script_units_limit m))"

definition meter_paid :: "runtime_resource_meter \<Rightarrow> bool" where
  "meter_paid r \<longleftrightarrow> (case r of
       Sigops c \<Rightarrow> sc_sig_op_remaining c \<le> sc_sig_op_limit c
     | ScriptUnitsMeter m \<Rightarrow>
         unat (sm_used_sig_ops m) * unat (sm_sigop_script_units m) + unat (sm_remaining_script_units m)
           \<le> unat (sm_script_units_limit m))"

definition meter_inv :: "u16 + (script_units \<times> script_units) \<Rightarrow> runtime_resource_meter \<Rightarrow> bool" where
  "meter_inv t r \<longleftrightarrow> meter_terms r = t \<and> meter_paid r"

lemma meter_inv_new:
  "meter_inv (Inl (ucast n)) (new_sigops n)" "meter_inv (Inr (u, l)) (new_script_units u l)"
  by (simp_all add: meter_inv_def meter_terms_def meter_paid_def new_sigops_def sig_op_counter_new_def
      new_script_units_def script_unit_meter_new_def)

lemma meter_consume_rule:
  "safe (meter_consume_script_units u m) (\<lambda>m'. sm_used_sig_ops m' = sm_used_sig_ops m \<and>
     sm_sigop_script_units m' = sm_sigop_script_units m \<and> sm_script_units_limit m' = sm_script_units_limit m \<and>
     unat (sm_remaining_script_units m') + unat u = unat (sm_remaining_script_units m))"
proof (cases "checked_sub (sm_remaining_script_units m) u")
  case None
  then have "unat (sm_remaining_script_units m) < unat u" by (simp add: checked_sub_None_iff)
  then have "checked_sub u (sm_remaining_script_units m) \<noteq> None" by (simp add: checked_sub_None_iff)
  then show ?thesis using None by (auto simp: meter_consume_script_units_def)
next
  case (Some a)
  then have "unat a + unat u = unat (sm_remaining_script_units m)" by (simp add: checked_sub_Some_iff)
  then show ?thesis using Some by (simp add: meter_consume_script_units_def)
qed

lemma consume_script_units_rule [stack_rules]: "meter_inv t r \<Longrightarrow> safe (consume_script_units u r) (meter_inv t)"
proof (cases r)
  case (ScriptUnitsMeter m)
  assume "meter_inv t r"
  then show ?thesis using ScriptUnitsMeter
    by (auto simp: consume_script_units_def meter_inv_def meter_terms_def meter_paid_def intro!: safe_mono [OF meter_consume_rule])
qed (simp add: consume_script_units_def)

lemma charge_newly_pushed_bytes_rule: "meter_inv t r \<Longrightarrow> safe (charge_newly_pushed_bytes u r) (meter_inv t)"
  using consume_script_units_rule [of t r u]
  by (cases r) (simp_all add: charge_newly_pushed_bytes_def consume_script_units_def meter_charge_newly_pushed_bytes_def)

lemma saturating_add_le: "unat (saturating_add a b) \<le> unat a + unat b" for a b :: "'w::len word"
proof (cases "unat a + unat b < 2 ^ LENGTH('w)")
  case False
  then have "saturating_add a b = - 1" "2 ^ LENGTH('w) \<le> unat a + unat b" by (simp_all add: saturating_add_def)
  then show ?thesis by (metis le_trans less_imp_le unat_less)
qed (simp add: saturating_add_def unat_word_ariths)

lemma consume_sig_op_cost_rule [stack_rules]: "meter_inv t r \<Longrightarrow> safe (consume_sig_op_cost 1 r) (meter_inv t)"
proof (cases r)
  case (Sigops c)
  assume "meter_inv t r"
  then show ?thesis using Sigops
    by (auto simp: consume_sig_op_cost_def consume_sig_ops_def meter_inv_def meter_terms_def meter_paid_def
        checked_sub_Some_iff word_le_nat_alt)
next
  case (ScriptUnitsMeter m)
  assume inv: "meter_inv t r"
  have u: "saturating_mul 1 (sm_sigop_script_units m) = sm_sigop_script_units m"
    using unat_less [of "sm_sigop_script_units m"] by (simp add: saturating_mul_def del: unat_less)
  have "unat (saturating_add (sm_used_sig_ops m) 1) * unat (sm_sigop_script_units m)
      \<le> unat (sm_used_sig_ops m) * unat (sm_sigop_script_units m) + unat (sm_sigop_script_units m)"
    using mult_le_mono1 [OF saturating_add_le [of "sm_used_sig_ops m" 1], of "unat (sm_sigop_script_units m)"] by simp
  then show ?thesis using ScriptUnitsMeter inv
    by (auto simp: consume_sig_op_cost_def meter_consume_sig_op_cost_def u meter_inv_def meter_terms_def meter_paid_def
        intro!: safe_mono [OF meter_consume_rule])
qed

section \<open>Compute budgets\<close>

lemma unit_constants [simp]:
  "SCRIPT_UNITS_PER_COMPUTE_BUDGET_UNIT = 10000" "SCRIPT_UNITS_PER_SIGOP_COUNT_UNIT = 100000"
  "free_script_units_per_input = 9999"
  by (simp_all add: SCRIPT_UNITS_PER_COMPUTE_BUDGET_UNIT_def SCRIPT_UNITS_PER_SIGOP_COUNT_UNIT_def
      free_script_units_per_input_def GRAMS_PER_COMPUTE_BUDGET_UNIT_def GRAMS_PER_SIGOP_COUNT_UNIT_def
      SCRIPT_UNITS_PER_GRAM_def saturating_sub_def)

lemma allowed_budget: "allowed_script_units (ComputeBudget b) = Ok (of_nat (unat b * 10000 + 9999))"
proof -
  have b: "unat b < 65536" using unat_less [of b] by simp
  have "(ucast b :: u64) = of_nat (unat b)"
    using b by (simp add: word_unat_eq_iff unat_up_ucast unat_of_nat_less)
  then have "checked_mul (ucast b :: u64) 10000 = Some (of_nat (unat b * 10000))"
    using b unat_of_nat_less [where 'w = 64, of "unat b * 10000"] unat_of_nat_less [where 'w = 64, of "unat b"]
    by (simp add: checked_mul_Some_iff)
  moreover have "saturating_add (of_nat (unat b * 10000) :: u64) 9999 = of_nat (unat b * 10000 + 9999)"
    using unat_of_nat_less [where 'w = 64, of "unat b * 10000"] b unfolding saturating_add_def by simp
  ultimately show ?thesis
    by (simp add: allowed_script_units_def commit_to_script_units_def compute_budget_to_script_units_def)
qed

lemma div_ceil_charged: "(r - 9999) div 10000 + (if 0 < (r - 9999) mod 10000 then 1 else 0) = r div 10000" for r :: nat
proof (cases "r < 9999")
  case False
  then obtain q where r: "r = 9999 + q" using le_Suc_ex not_less by blast
  define d m where dm: "d = q div 10000" "m = q mod 10000"
  then have "q = 10000 * d + m" "m < 10000" by simp_all
  then have "(9999 + q) div 10000 = d + (if 0 < m then 1 else 0)"
    by (intro div_nat_eqI) (cases "m = 0"; simp)+
  then show ?thesis using r by (simp add: dm)
qed simp

lemma covering_budget:
  "checked_covering_script_units r =
     Ok (if unat r div 10000 < 65536 then Some (of_nat (unat r div 10000)) else None)"
proof -
  define d where "d = saturating_sub r (9999 :: u64)"
  define q where "q = (if 0 < d mod 10000 then d div 10000 + 1 else d div 10000)"
  have d: "unat d = unat r - 9999" by (simp add: d_def unat_saturating_sub)
  have "unat d div 10000 + 1 < 2 ^ 64" using unat_less [of d] by simp
  moreover have dm: "unat (d div 10000) = unat d div 10000" "unat (d mod 10000) = unat d mod 10000"
    using unat_div [of d 10000] unat_mod [of d 10000] by simp_all
  ultimately have "unat (d div 10000 + 1) = unat d div 10000 + 1"
    using unat_word_ariths(1) [of "d div 10000" 1] by (simp only: mod_less unat_1 len_num1) simp
  then have "unat q = unat d div 10000 + (if 0 < unat d mod 10000 then 1 else 0)"
    unfolding q_def word_less_nat_alt dm by (simp add: dm)
  then have q: "unat q = unat r div 10000" using div_ceil_charged [of "unat r"] d by simp
  have "ucast q = (of_nat (unat q) :: u16)" if "unat q < 65536"
    using that unat_down_ucast [of q, where 'b = 16] unat_of_nat_less [where 'w = 16, of "unat q"]
    by (simp add: word_unat_eq_iff)
  then show ?thesis using q
    by (simp add: checked_covering_script_units_def compute_budget_try_from_def div_ceil_p_def d_def [symmetric] q_def [symmetric])
qed

section \<open>Properties\<close>

text \<open>
  C33. The compute budget computed for a script's cost is the least budget that covers it: the allowance of a
  budget \<open>b\<close>, free units included, covers the cost exactly when the computed budget exists and is at most \<open>b\<close>.
\<close>

theorem compute_budget_least:
  assumes "allowed_script_units (ComputeBudget b) = (Ok a :: ('e, script_units) outcome)"
  shows "r \<le> a \<longleftrightarrow> (\<exists>c. checked_covering_script_units r = (Ok (Some c) :: ('e, u16 option) outcome) \<and> c \<le> b)"
proof -
  have b: "unat b < 65536" using unat_less [of b] by simp
  have a: "a = of_nat (unat b * 10000 + 9999)" using assms by (simp add: allowed_budget)
  have "r \<le> a \<longleftrightarrow> unat r \<le> unat b * 10000 + 9999"
    using b unat_of_nat_less [where 'w = 64, of "unat b * 10000 + 9999"] by (simp add: a word_le_nat_alt)
  also have "\<dots> \<longleftrightarrow> unat r div 10000 \<le> unat b"
    using div_less_iff_less_mult [of 10000 "unat r" "Suc (unat b)"] by (auto simp: less_Suc_eq_le)
  also have "\<dots> \<longleftrightarrow> unat r div 10000 < 65536 \<and> (of_nat (unat r div 10000) :: u16) \<le> b"
    using b unat_of_nat_less [where 'w = 16, of "unat r div 10000"] by (auto simp: word_le_nat_alt)
  finally show ?thesis by (simp add: covering_budget)
qed

theorem compute_budget_least_witness:
  "(25000 :: u64) \<le> 29999 \<longleftrightarrow>
     (\<exists>c. checked_covering_script_units 25000 = (Ok (Some c) :: (unit, u16 option) outcome) \<and> c \<le> 2)"
  by (rule compute_budget_least) (simp add: allowed_budget)

datatype charge = ChargeSigOp | ChargeUnits script_units

definition apply_charge :: "charge \<Rightarrow> runtime_resource_meter \<Rightarrow> (tx_script_error, runtime_resource_meter) outcome" where
  "apply_charge c r = (case c of ChargeSigOp \<Rightarrow> consume_sig_op_cost 1 r | ChargeUnits u \<Rightarrow> consume_script_units u r)"

lemma apply_charge_rule: "meter_inv t r \<Longrightarrow> safe (apply_charge c r) (meter_inv t)"
  by (cases c) (simp_all add: apply_charge_def consume_sig_op_cost_rule consume_script_units_rule)

lemma fold_safe:
  assumes "\<And>x s. x \<in> set xs \<Longrightarrow> I s \<Longrightarrow> safe (f x s) I" "I s"
  shows "safe (fold_outcome f xs s) I"
  using assms
proof (induction xs arbitrary: s)
  case (Cons x xs)
  then show ?case by (auto intro!: safe_mono [where R = I and Q = "\<lambda>s. safe (fold_outcome f xs s) I"])
qed simp

lemma charges_rule: "meter_inv t r \<Longrightarrow> safe (fold_outcome apply_charge cs r) (meter_inv t)"
  by (rule fold_safe) (auto intro: apply_charge_rule)

lemma meter_inv_used:
  assumes "meter_inv (Inr (p, l)) r"
  shows "\<exists>ops units. used_sig_ops r = Ok ops \<and> used_script_units r = Ok units \<and> unat ops * unat p \<le> unat units \<and> units \<le> l"
proof (cases r)
  case (ScriptUnitsMeter m)
  have inv: "sm_sigop_script_units m = p" "sm_script_units_limit m = l"
    "unat (sm_used_sig_ops m) * unat p + unat (sm_remaining_script_units m) \<le> unat l"
    using assms ScriptUnitsMeter by (auto simp: meter_inv_def meter_terms_def meter_paid_def)
  then have "sm_remaining_script_units m \<le> l" by (simp add: word_le_nat_alt)
  then have "checked_sub l (sm_remaining_script_units m) = Some (l - sm_remaining_script_units m)"
    by (simp add: checked_sub_def)
  moreover have "unat (l - sm_remaining_script_units m) = unat l - unat (sm_remaining_script_units m)"
    using \<open>sm_remaining_script_units m \<le> l\<close> by (rule unat_sub)
  ultimately show ?thesis using inv ScriptUnitsMeter
    by (simp add: used_sig_ops_def used_script_units_def meter_used_script_units_def word_le_nat_alt)
qed (use assms in \<open>simp add: meter_inv_def meter_terms_def\<close>)

text \<open>
  Charging a meter never fails with a panic, never exceeds its limit and always pays for the signature
  operations it counts: a sequence of signature charges and unit charges that succeeds on a new script-unit
  meter leaves the used units within the limit and at least the counted operations times their price.
\<close>

theorem meter_pays_for_sigops:
  assumes "fold_outcome apply_charge cs (new_script_units p l) = Ok r"
  shows "\<exists>ops units. used_sig_ops r = (Ok ops :: ('e, u16) outcome) \<and> used_script_units r = (Ok units :: ('e, script_units) outcome) \<and>
    unat ops * unat p \<le> unat units \<and> units \<le> l"
  using safe_Ok [OF charges_rule [OF meter_inv_new(2)] assms] by (rule meter_inv_used)

theorem meter_pays_for_sigops_witness:
  "\<exists>r ops units. fold_outcome apply_charge [ChargeSigOp, ChargeUnits 7] (new_script_units 100000 250000) = Ok r \<and>
     used_sig_ops r = (Ok ops :: (unit, u16) outcome) \<and> used_script_units r = (Ok units :: (unit, script_units) outcome) \<and>
     unat ops * unat (100000 :: u64) \<le> unat units \<and> units \<le> 250000"
proof -
  define r where "r = ScriptUnitsMeter \<lparr>sm_used_sig_ops = 1, sm_sigop_script_units = 100000, sm_script_units_limit = 250000,
    sm_remaining_script_units = 149993\<rparr>"
  have "fold_outcome apply_charge [ChargeSigOp, ChargeUnits 7] (new_script_units 100000 250000) = Ok r"
    by (simp add: r_def apply_charge_def new_script_units_def script_unit_meter_new_def consume_sig_op_cost_def
        meter_consume_sig_op_cost_def consume_script_units_def meter_consume_script_units_def checked_sub_def
        saturating_mul_def saturating_add_def)
  from this meter_pays_for_sigops [OF this] show ?thesis by blast
qed

end
