(* ===== verification/Covenants_Context.thy ===== *)
theory Covenants_Context
  imports Sig_Hash Script_Num
begin

text \<open>
  The covenants execution context of a transaction (\<^verbatim>\<open>crypto/txscript/src/covenants.rs\<close>) and covenant
  identifiers (\<^verbatim>\<open>consensus/core/src/hashing/covenant_id.rs\<close>). The two hash maps of the context are partial maps;
  the genesis groups are an association list in the order their first output appears, so that where the code
  walks a hash map in an unspecified order the model picks one: which of several wrong groups is reported may
  differ, whether there is one may not. The property: the context lists exactly the continuing outputs.
\<close>

definition covenant_id :: "(hash_query \<Rightarrow> hash) \<Rightarrow> tx_outpoint \<Rightarrow> (u32 \<times> tx_output) list \<Rightarrow> hash" where
  "covenant_id H outpoint auth_outputs =
     H (blake2b_query ''CovenantID''
       (op_transaction_id outpoint @ to_le_bytes (op_index outpoint) @ write_len (length auth_outputs)
        @ concat (map (\<lambda>(index, output). to_le_bytes index @ to_le_bytes (to_value output)
            @ to_le_bytes (spk_version (to_script_public_key output))
            @ write_var_bytes (spk_script (to_script_public_key output))) auth_outputs)))"

section \<open>Contexts\<close>

record covenant_input_context =
  ci_auth_outputs :: "nat list"

record covenant_shared_context =
  cs_input_indices :: "nat list"
  cs_output_indices :: "nat list"

record covenants_context =
  cc_input_ctxs :: "nat \<rightharpoonup> covenant_input_context"
  cc_shared_ctxs :: "hash \<rightharpoonup> covenant_shared_context"

definition input_context_new :: covenant_input_context where
  "input_context_new = \<lparr>ci_auth_outputs = []\<rparr>"

definition shared_context_default :: covenant_shared_context where
  "shared_context_default = \<lparr>cs_input_indices = [], cs_output_indices = []\<rparr>"

definition EMPTY_COV_CONTEXT :: covenants_context where
  "EMPTY_COV_CONTEXT = \<lparr>cc_input_ctxs = Map.empty, cc_shared_ctxs = Map.empty\<rparr>"

definition or_default :: "'a \<Rightarrow> 'a option \<Rightarrow> 'a" where
  "or_default d v = (case v of Some x \<Rightarrow> x | None \<Rightarrow> d)"

definition list_get :: "'a list \<Rightarrow> nat \<Rightarrow> 'a option" where
  "list_get xs k = (if k < length xs then Some (xs ! k) else None)"

definition auth_output_index :: "covenants_context \<Rightarrow> nat \<Rightarrow> nat \<Rightarrow> (covenants_error, nat) outcome" where
  "auth_output_index ctx input_idx k =
     (let auth_outputs = or_default [] (map_option ci_auth_outputs (cc_input_ctxs ctx input_idx))
      in ok_or (InvalidAuthCovOutIndex k input_idx (length auth_outputs)) (list_get auth_outputs k))"

definition num_auth_outputs :: "covenants_context \<Rightarrow> nat \<Rightarrow> nat" where
  "num_auth_outputs ctx input_idx =
     (case cc_input_ctxs ctx input_idx of None \<Rightarrow> 0 | Some c \<Rightarrow> length (ci_auth_outputs c))"

definition num_covenant_inputs :: "covenants_context \<Rightarrow> hash \<Rightarrow> nat" where
  "num_covenant_inputs ctx cid =
     (case cc_shared_ctxs ctx cid of None \<Rightarrow> 0 | Some c \<Rightarrow> length (cs_input_indices c))"

definition covenant_input_index :: "covenants_context \<Rightarrow> hash \<Rightarrow> nat \<Rightarrow> (covenants_error, nat) outcome" where
  "covenant_input_index ctx cid k =
     ok_or (InvalidCovInIndex cid k) (list_get (or_default [] (map_option cs_input_indices (cc_shared_ctxs ctx cid))) k)"

definition num_covenant_outputs :: "covenants_context \<Rightarrow> hash \<Rightarrow> nat" where
  "num_covenant_outputs ctx cid =
     (case cc_shared_ctxs ctx cid of None \<Rightarrow> 0 | Some c \<Rightarrow> length (cs_output_indices c))"

definition covenant_output_index :: "covenants_context \<Rightarrow> hash \<Rightarrow> nat \<Rightarrow> (covenants_error, nat) outcome" where
  "covenant_output_index ctx cid k =
     ok_or (InvalidCovOutIndex cid k) (list_get (or_default [] (map_option cs_output_indices (cc_shared_ctxs ctx cid))) k)"

section \<open>Building the context\<close>

type_synonym genesis_groups = "((nat \<times> hash) \<times> nat list) list"

definition utxo :: "populated_transaction \<Rightarrow> nat \<Rightarrow> utxo_entry option" where
  "utxo t index = list_get (pt_entries t) index"

definition collect_input :: "populated_transaction \<Rightarrow> nat \<Rightarrow> covenants_context \<Rightarrow> (covenants_error, covenants_context) outcome" where
  "collect_input t i ctx =
     bind_outcome (populated_input t i) (\<lambda>(_, entry).
       case ue_covenant_id entry of
         None \<Rightarrow> Ok ctx
       | Some cid \<Rightarrow>
           let shared = or_default shared_context_default (cc_shared_ctxs ctx cid)
           in Ok (ctx\<lparr>cc_shared_ctxs := (cc_shared_ctxs ctx)(cid \<mapsto> shared\<lparr>cs_input_indices := cs_input_indices shared @ [i]\<rparr>)\<rparr>))"

definition genesis_push :: "nat \<times> hash \<Rightarrow> nat \<Rightarrow> genesis_groups \<Rightarrow> genesis_groups" where
  "genesis_push key i groups =
     (if key \<in> fst ` set groups
      then map (\<lambda>(k, is). if k = key then (k, is @ [i]) else (k, is)) groups
      else groups @ [(key, [i])])"

definition collect_output ::
  "populated_transaction \<Rightarrow> nat \<times> tx_output \<Rightarrow> covenants_context \<times> genesis_groups \<Rightarrow> (covenants_error, covenants_context \<times> genesis_groups) outcome"
where
  "collect_output t = (\<lambda>(i, output) (ctx, genesis_ctxs).
     case to_covenant output of
       None \<Rightarrow> Ok (ctx, genesis_ctxs)
     | Some binding \<Rightarrow>
         let cid = cb_covenant_id binding; auth_input_idx = unat (cb_authorizing_input binding)
         in case utxo t auth_input_idx of
              None \<Rightarrow> Err (AuthInputOutOfBounds i (cb_authorizing_input binding))
            | Some entry \<Rightarrow>
                if ue_covenant_id entry = Some cid
                then let auth = or_default input_context_new (cc_input_ctxs ctx auth_input_idx);
                         ctx = ctx\<lparr>cc_input_ctxs := (cc_input_ctxs ctx)(auth_input_idx \<mapsto> auth\<lparr>ci_auth_outputs := ci_auth_outputs auth @ [i]\<rparr>)\<rparr>
                     in bind_outcome (unwrap (cc_shared_ctxs ctx cid)) (\<lambda>shared.
                          Ok (ctx\<lparr>cc_shared_ctxs := (cc_shared_ctxs ctx)(cid \<mapsto> shared\<lparr>cs_output_indices := cs_output_indices shared @ [i]\<rparr>)\<rparr>, genesis_ctxs))
                else Ok (ctx, genesis_push (auth_input_idx, cid) i genesis_ctxs))"

definition check_genesis :: "(hash_query \<Rightarrow> hash) \<Rightarrow> populated_transaction \<Rightarrow> (nat \<times> hash) \<times> nat list \<Rightarrow> (covenants_error, unit) outcome" where
  "check_genesis H t = (\<lambda>((auth_input_idx, cid), output_indices).
     bind_outcome (unwrap (list_get (tx_inputs (pt_tx t)) auth_input_idx)) (\<lambda>inp.
     bind_outcome (map_outcome (\<lambda>i. bind_outcome (unwrap (list_get (tx_outputs (pt_tx t)) i)) (\<lambda>o'. Ok (of_nat i, o'))) output_indices) (\<lambda>outs.
       if covenant_id H (ti_previous_outpoint inp) outs \<noteq> cid then Err (WrongGenesisCovenantId auth_input_idx cid) else Ok ())))"

definition from_tx :: "(hash_query \<Rightarrow> hash) \<Rightarrow> populated_transaction \<Rightarrow> (covenants_error, covenants_context) outcome" where
  "from_tx H t =
     bind_outcome (fold_outcome (collect_input t) [0..<length (tx_inputs (pt_tx t))] EMPTY_COV_CONTEXT) (\<lambda>ctx.
     bind_outcome (fold_outcome (collect_output t) (enumerate 0 (tx_outputs (pt_tx t))) (ctx, [])) (\<lambda>(ctx, genesis_ctxs).
     bind_outcome (fold_outcome (\<lambda>g _. check_genesis H t g) genesis_ctxs ()) (\<lambda>_. Ok ctx)))"

section \<open>Specification\<close>

text \<open>An output continues a covenant when the input it names carries the same covenant identifier.\<close>

definition carries :: "populated_transaction \<Rightarrow> hash \<Rightarrow> nat \<Rightarrow> bool" where
  "carries t cid i \<longleftrightarrow> i < length (pt_entries t) \<and> ue_covenant_id (pt_entries t ! i) = Some cid"

definition continues :: "populated_transaction \<Rightarrow> nat \<Rightarrow> hash \<Rightarrow> nat \<Rightarrow> bool" where
  "continues t i cid j \<longleftrightarrow> (\<exists>b. to_covenant (tx_outputs (pt_tx t) ! j) = Some b \<and> cb_covenant_id b = cid \<and>
     unat (cb_authorizing_input b) = i \<and> carries t cid i)"

definition auth_of :: "(nat \<rightharpoonup> covenant_input_context) \<Rightarrow> nat \<Rightarrow> nat list" where
  "auth_of m i = or_default [] (map_option ci_auth_outputs (m i))"

definition inputs_of :: "(hash \<rightharpoonup> covenant_shared_context) \<Rightarrow> hash \<Rightarrow> nat list" where
  "inputs_of m cid = or_default [] (map_option cs_input_indices (m cid))"

definition outputs_of :: "(hash \<rightharpoonup> covenant_shared_context) \<Rightarrow> hash \<Rightarrow> nat list" where
  "outputs_of m cid = or_default [] (map_option cs_output_indices (m cid))"

abbreviation auth_outputs :: "covenants_context \<Rightarrow> nat \<Rightarrow> nat list" where
  "auth_outputs ctx \<equiv> auth_of (cc_input_ctxs ctx)"

abbreviation shared_inputs :: "covenants_context \<Rightarrow> hash \<Rightarrow> nat list" where
  "shared_inputs ctx \<equiv> inputs_of (cc_shared_ctxs ctx)"

abbreviation shared_outputs :: "covenants_context \<Rightarrow> hash \<Rightarrow> nat list" where
  "shared_outputs ctx \<equiv> outputs_of (cc_shared_ctxs ctx)"

lemmas ctx_defs = auth_of_def inputs_of_def outputs_of_def or_default_def
  shared_context_default_def input_context_new_def

lemma ctx_updates [simp]:
  "inputs_of (m(c \<mapsto> s)) d = (if d = c then cs_input_indices s else inputs_of m d)"
  "outputs_of (m(c \<mapsto> s)) d = (if d = c then cs_output_indices s else outputs_of m d)"
  "auth_of (n(j \<mapsto> a)) i = (if i = j then ci_auth_outputs a else auth_of n i)"
  by (simp_all add: ctx_defs)

lemma ctx_defaults [simp]:
  "cs_input_indices (or_default shared_context_default (m c)) = inputs_of m c"
  "cs_output_indices (or_default shared_context_default (m c)) = outputs_of m c"
  "ci_auth_outputs (or_default input_context_new (n i)) = auth_of n i"
  by (auto simp: ctx_defs split: option.split)

definition inputs_done :: "populated_transaction \<Rightarrow> nat \<Rightarrow> covenants_context \<Rightarrow> bool" where
  "inputs_done t n ctx \<longleftrightarrow> (\<forall>cid. shared_inputs ctx cid = filter (carries t cid) [0..<n]) \<and>
     (\<forall>cid. cc_shared_ctxs ctx cid = None \<longleftrightarrow> shared_inputs ctx cid = []) \<and>
     (\<forall>cid. shared_outputs ctx cid = []) \<and> (\<forall>i. auth_outputs ctx i = [])"

lemma collect_input_rule:
  assumes "inputs_done t n ctx" "n < length (tx_inputs (pt_tx t))" "length (pt_entries t) = length (tx_inputs (pt_tx t))"
  shows "\<exists>ctx'. collect_input t n ctx = Ok ctx' \<and> inputs_done t (Suc n) ctx'"
proof (cases "ue_covenant_id (pt_entries t ! n)")
  case None
  then have "\<not> carries t cid n" for cid by (simp add: carries_def)
  then show ?thesis using assms None by (simp add: collect_input_def populated_input_def inputs_done_def)
next
  case (Some c)
  have "carries t cid n \<longleftrightarrow> cid = c" for cid using Some assms(2,3) by (auto simp: carries_def)
  then show ?thesis using assms Some
    by (simp add: collect_input_def populated_input_def inputs_done_def Let_def)
qed

lemma collect_inputs:
  assumes "length (pt_entries t) = length (tx_inputs (pt_tx t))"
  shows "n \<le> length (tx_inputs (pt_tx t)) \<Longrightarrow>
    \<exists>ctx. fold_outcome (collect_input t) [0..<n] EMPTY_COV_CONTEXT = Ok ctx \<and> inputs_done t n ctx"
proof (induction n)
  case 0
  show ?case by (simp add: inputs_done_def ctx_defs EMPTY_COV_CONTEXT_def)
next
  case (Suc n)
  then obtain ctx where "fold_outcome (collect_input t) [0..<n] EMPTY_COV_CONTEXT = Ok ctx" "inputs_done t n ctx" by auto
  then show ?case using collect_input_rule [of t n ctx] assms Suc.prems by (auto simp: fold_outcome_append)
qed

text \<open>After the first \<open>m\<close> outputs: the continuing ones are filed, the others wait in genesis groups.\<close>

definition groups_ok :: "nat \<Rightarrow> nat \<Rightarrow> genesis_groups \<Rightarrow> bool" where
  "groups_ok n m gen \<longleftrightarrow> list_all (\<lambda>g. fst (fst g) < n \<and> list_all (\<lambda>j. j < m) (snd g)) gen"

definition outputs_done :: "populated_transaction \<Rightarrow> nat \<Rightarrow> covenants_context \<times> genesis_groups \<Rightarrow> bool" where
  "outputs_done t m = (\<lambda>(ctx, gen).
     (\<forall>cid. shared_inputs ctx cid = filter (carries t cid) [0..<length (tx_inputs (pt_tx t))]) \<and>
     (\<forall>cid. cc_shared_ctxs ctx cid = None \<longleftrightarrow> shared_inputs ctx cid = []) \<and>
     (\<forall>cid. shared_outputs ctx cid = filter (\<lambda>j. \<exists>i. continues t i cid j) [0..<m]) \<and>
     (\<forall>i. auth_outputs ctx i = filter (\<lambda>j. \<exists>cid. continues t i cid j) [0..<m]) \<and>
     groups_ok (length (pt_entries t)) m gen)"

lemma groups_ok_Suc: "groups_ok n m gen \<Longrightarrow> groups_ok n (Suc m) gen"
  by (auto simp: groups_ok_def list_all_iff less_Suc_eq)

lemma genesis_push_ok:
  assumes "groups_ok n m gen" "i < n"
  shows "groups_ok n (Suc m) (genesis_push (i, cid) m gen)"
proof (cases "(i, cid) \<in> fst ` set gen")
  case True
  have "fst (fst g) < n \<and> list_all (\<lambda>j. j < Suc m) (snd g)" if "g \<in> set gen" for g
    using that groups_ok_Suc [OF assms(1)] by (simp add: groups_ok_def list_all_iff)
  then have "list_all (\<lambda>g. fst (fst g) < n \<and> list_all (\<lambda>j. j < Suc m) (snd g))
      (map (\<lambda>g. if fst g = (i, cid) then (fst g, snd g @ [m]) else g) gen)"
    using assms(2) unfolding list.pred_map list_all_iff [where xs = gen] by auto
  moreover have "(\<lambda>(k, is). if k = (i, cid) then (k, is @ [m]) else (k, is)) = (\<lambda>g. if fst g = (i, cid) then (fst g, snd g @ [m]) else g)"
    by (rule ext) (simp split: prod.split)
  ultimately show ?thesis using True by (simp add: groups_ok_def genesis_push_def)
next
  case False
  then show ?thesis using groups_ok_Suc [OF assms(1)] assms(2) by (simp add: groups_ok_def genesis_push_def)
qed

lemma collect_output_rule:
  assumes "outputs_done t m st" "m < length (tx_outputs (pt_tx t))" "length (pt_entries t) = length (tx_inputs (pt_tx t))"
  shows "safe (collect_output t (m, tx_outputs (pt_tx t) ! m) st) (outputs_done t (Suc m))"
proof -
  obtain ctx gen where st: "st = (ctx, gen)" by (cases st)
  show ?thesis
  proof (cases "to_covenant (tx_outputs (pt_tx t) ! m)")
    case None
    then have "\<not> continues t i cid m" for i cid by (simp add: continues_def)
    then show ?thesis using assms None st by (simp add: collect_output_def outputs_done_def groups_ok_Suc)
  next
    case (Some b)
    let ?i = "unat (cb_authorizing_input b)" and ?c = "cb_covenant_id b"
    have c: "continues t i cid m \<longleftrightarrow> i = ?i \<and> cid = ?c \<and> carries t ?c ?i" for i cid
      using Some by (auto simp: continues_def)
    show ?thesis
    proof (cases "carries t ?c ?i")
      case True
      then have u: "utxo t ?i = Some (pt_entries t ! ?i)" "ue_covenant_id (pt_entries t ! ?i) = Some ?c"
        by (simp_all add: carries_def utxo_def list_get_def)
      have "?i \<in> set (filter (carries t ?c) [0..<length (tx_inputs (pt_tx t))])" using True assms(3) by (simp add: carries_def)
      then have ne: "filter (carries t ?c) [0..<length (tx_inputs (pt_tx t))] \<noteq> []" by (metis empty_iff empty_set)
      then have "shared_inputs ctx ?c \<noteq> []" using assms(1) st by (simp add: outputs_done_def)
      moreover have "cc_shared_ctxs ctx ?c = None \<longleftrightarrow> shared_inputs ctx ?c = []"
        using assms(1) st unfolding outputs_done_def by blast
      ultimately obtain sh where sh: "cc_shared_ctxs ctx ?c = Some sh" by auto
      then have "cs_input_indices sh = shared_inputs ctx ?c" "cs_output_indices sh = shared_outputs ctx ?c" by (simp_all add: ctx_defs)
      then show ?thesis using assms(1) Some st u True c sh ne
        by (simp add: collect_output_def outputs_done_def Let_def groups_ok_Suc)
    next
      case False
      then have u: "utxo t ?i = Some e \<Longrightarrow> ue_covenant_id e \<noteq> Some ?c \<and> ?i < length (pt_entries t)" for e
        by (auto simp: carries_def utxo_def list_get_def split: if_splits)
      then show ?thesis using assms(1) Some st False c genesis_push_ok [of "length (pt_entries t)" m gen ?i ?c]
        by (auto simp: collect_output_def outputs_done_def Let_def)
    qed
  qed
qed

lemma collect_outputs:
  assumes "inputs_done t (length (tx_inputs (pt_tx t))) ctx" "length (pt_entries t) = length (tx_inputs (pt_tx t))"
  shows "m \<le> length (tx_outputs (pt_tx t)) \<Longrightarrow>
    safe (fold_outcome (collect_output t) (take m (enumerate 0 (tx_outputs (pt_tx t)))) (ctx, [])) (outputs_done t m)"
proof (induction m)
  case 0
  show ?case using assms by (simp add: inputs_done_def outputs_done_def groups_ok_def)
next
  case (Suc m)
  then have m: "m < length (tx_outputs (pt_tx t))" by simp
  have "take (Suc m) (enumerate 0 (tx_outputs (pt_tx t))) = take m (enumerate 0 (tx_outputs (pt_tx t))) @ [(m, tx_outputs (pt_tx t) ! m)]"
    using m by (simp add: take_Suc_conv_app_nth nth_enumerate_eq)
  moreover have "safe (fold_outcome (collect_output t) (take m (enumerate 0 (tx_outputs (pt_tx t)))) (ctx, []))
      (\<lambda>st. safe (collect_output t (m, tx_outputs (pt_tx t) ! m) st) (outputs_done t (Suc m)))"
    using Suc.IH m collect_output_rule [OF _ m assms(2)] by (auto elim!: safe_mono)
  ultimately show ?case by (simp add: fold_outcome_append)
qed

lemma check_genesis_safe:
  assumes "i < length (tx_inputs (pt_tx t))" "list_all (\<lambda>j. j < length (tx_outputs (pt_tx t))) js"
  shows "safe (check_genesis H t ((i, cid), js)) (\<lambda>_. True)"
proof -
  have "map_outcome (\<lambda>i. bind_outcome (unwrap (list_get (tx_outputs (pt_tx t)) i)) (\<lambda>o'. Ok (of_nat i, o'))) js
      = (Ok (map (\<lambda>i. (of_nat i :: u32, tx_outputs (pt_tx t) ! i)) js) :: (covenants_error, (u32 \<times> tx_output) list) outcome)"
    using assms(2) by (intro map_outcome_Ok) (auto simp: list_get_def list_all_iff)
  then show ?thesis using assms(1) by (simp add: check_genesis_def list_get_def [of "tx_inputs (pt_tx t)"])
qed

lemma from_tx_rule:
  assumes len: "length (pt_entries t) = length (tx_inputs (pt_tx t))"
  shows "safe (from_tx H t) (\<lambda>ctx. \<exists>gen. outputs_done t (length (tx_outputs (pt_tx t))) (ctx, gen))"
proof -
  let ?n = "length (tx_outputs (pt_tx t))"
  obtain ctx where ctx: "fold_outcome (collect_input t) [0..<length (tx_inputs (pt_tx t))] EMPTY_COV_CONTEXT = Ok ctx"
    "inputs_done t (length (tx_inputs (pt_tx t))) ctx" using collect_inputs [OF len order_refl] by blast
  have out: "safe (fold_outcome (collect_output t) (enumerate 0 (tx_outputs (pt_tx t))) (ctx, [])) (outputs_done t ?n)"
    using collect_outputs [OF ctx(2) len order_refl] by simp
  have gen: "safe (fold_outcome (\<lambda>g _. check_genesis H t g) gen ()) (\<lambda>_. True)"
    if "groups_ok (length (pt_entries t)) ?n gen" for gen
    using that
  proof (induction gen)
    case (Cons g gen)
    obtain i cid js where g: "g = ((i, cid), js)" by (metis surj_pair)
    have "safe (check_genesis H t g) (\<lambda>_. True)" "safe (fold_outcome (\<lambda>g _. check_genesis H t g) gen ()) (\<lambda>_. True)"
      using Cons len by (auto simp: groups_ok_def g intro!: check_genesis_safe)
    then show ?case by (auto elim!: safe_mono)
  qed simp
  have "safe (fold_outcome (\<lambda>g _. check_genesis H t g) (snd st) ()) (\<lambda>_. \<exists>gen. outputs_done t ?n (fst st, gen))"
    if "outputs_done t ?n st" for st
    using that gen [of "snd st"] by (cases st) (auto simp: outputs_done_def elim!: safe_mono)
  then show ?thesis using out by (auto simp: from_tx_def ctx(1) elim!: safe_mono)
qed

section \<open>Properties\<close>

text \<open>
  C30. Building the covenants context of a fully populated transaction never panics, and a context it returns
  lists exactly the continuing relations, in output order: for each input the outputs that name it and
  carry its covenant identifier, and for each identifier the inputs that carry it and the outputs that
  continue it.
\<close>

theorem covenants_context_exact:
  assumes "populated_transaction_new tx entries = (Ok t :: (covenants_error, populated_transaction) outcome)"
  shows "from_tx H t \<noteq> Panic \<and> (\<forall>ctx. from_tx H t = Ok ctx \<longrightarrow>
    (\<forall>i. auth_outputs ctx i = filter (\<lambda>j. \<exists>cid. continues t i cid j) [0..<length (tx_outputs tx)]) \<and>
    (\<forall>cid. shared_inputs ctx cid = filter (carries t cid) [0..<length (tx_inputs tx)] \<and>
       shared_outputs ctx cid = filter (\<lambda>j. \<exists>i. continues t i cid j) [0..<length (tx_outputs tx)]))"
proof -
  have t: "length (pt_entries t) = length (tx_inputs (pt_tx t))" "pt_tx t = tx"
    using assms by (auto simp: populated_transaction_new_def split: if_splits)
  show ?thesis using from_tx_rule [OF t(1), of H] t(2) by (auto simp: safe_iff outputs_done_def)
qed

definition covenant_sample :: populated_transaction where
  "covenant_sample = (let cid = replicate 32 7 in
     \<lparr>pt_tx = (sample_transaction [])\<lparr>tx_outputs :=
        [\<lparr>to_value = 5, to_script_public_key = \<lparr>spk_version = 0, spk_script = []\<rparr>,
          to_covenant = Some \<lparr>cb_authorizing_input = 0, cb_covenant_id = cid\<rparr>\<rparr>]\<rparr>,
      pt_entries = [\<lparr>ue_amount = 9, ue_script_public_key = \<lparr>spk_version = 0, spk_script = []\<rparr>, ue_block_daa_score = 1,
        ue_is_coinbase = False, ue_covenant_id = Some cid\<rparr>]\<rparr>)"

theorem covenants_context_exact_witness:
  "\<exists>ctx. from_tx sample_digest covenant_sample = Ok ctx \<and> auth_outputs ctx 0 = [0]"
proof -
  have new: "populated_transaction_new (pt_tx covenant_sample) (pt_entries covenant_sample) = (Ok covenant_sample :: (covenants_error, _) outcome)"
    by (simp add: populated_transaction_new_def covenant_sample_def sample_transaction_def tx_new_non_finalized_def Let_def)
  have "\<exists>ctx. from_tx sample_digest covenant_sample = Ok ctx"
    by (simp add: from_tx_def covenant_sample_def sample_transaction_def tx_new_non_finalized_def Let_def collect_input_def
        populated_input_def collect_output_def utxo_def list_get_def)
  then obtain ctx where ctx: "from_tx sample_digest covenant_sample = Ok ctx" by blast
  have one: "length (tx_outputs (pt_tx covenant_sample)) = 1" "\<exists>cid. continues covenant_sample 0 cid 0"
    by (simp_all add: covenant_sample_def sample_transaction_def tx_new_non_finalized_def Let_def continues_def carries_def)
  then have "auth_outputs ctx 0 = [0]" using covenants_context_exact [OF new] ctx by simp
  then show ?thesis using ctx by blast
qed

end
