(* ===== verification/Zk_Precompiles.thy ===== *)
theory Zk_Precompiles
  imports Script_Stack
begin

text \<open>
  The zero-knowledge precompiles of the script engine (\<^verbatim>\<open>crypto/txscript/src/zk_precompiles/\<close>): tags and
  their prices, the Groth16 verifier's stack protocol and metering, and the RISC Zero succinct-receipt
  verifier with its Merkle inclusion proof and claim reconstruction. The arkworks and RISC Zero libraries are
  third-party code: the record \<open>zk_env\<close> has one function per call the sources make. Group elements, field
  elements and digests are the bytes they are read from. The lemma group at the end is the contract the script
  engine relies on: a verifier only removes entries from the stack, never panics and keeps the meter in order.
\<close>

unbundle bit_operations_syntax

section \<open>Library functions\<close>

datatype hash_fn_id = HashBlake2b | HashPoseidon2 | HashSha256

record zk_env =
  zk_fr_ok :: "bytes \<Rightarrow> bool"
  zk_read_g1 :: "bool \<Rightarrow> bytes \<Rightarrow> (bytes \<times> bytes) option"
  zk_read_g2 :: "bytes \<Rightarrow> (bytes \<times> bytes) option"
  zk_read_u64 :: "bytes \<Rightarrow> (u64 \<times> bytes) option"
  zk_g1_batch_check :: "bytes list \<Rightarrow> bool"
  zk_read_proof :: "bytes \<Rightarrow> (bytes \<times> bytes) option"
  zk_groth16_verify :: "bytes list \<Rightarrow> bytes list \<Rightarrow> bytes \<Rightarrow> bytes list \<Rightarrow> bool option"
  zk_digest_valid :: "hash_fn_id \<Rightarrow> bytes \<Rightarrow> bool"
  zk_hash_pair :: "hash_fn_id \<Rightarrow> bytes \<Rightarrow> bytes \<Rightarrow> bytes"
  zk_seal_verify :: "hash_fn_id \<Rightarrow> u32 list \<Rightarrow> (bytes \<Rightarrow> bool) \<Rightarrow> bool"
  zk_elem_as_u32 :: "u32 \<Rightarrow> u32"
  zk_read_sha_halfs :: "u32 list \<Rightarrow> bytes option"
  zk_allowed_control_root :: bytes
  zk_output_size :: nat
  zk_tagged_struct :: "string \<Rightarrow> bytes list \<Rightarrow> u32 list \<Rightarrow> bytes"
  zk_system_state_digest :: "u32 \<Rightarrow> bytes \<Rightarrow> bytes"
  zk_halted_pair :: "u32 \<Rightarrow> u32 \<times> u32"

section \<open>Tags\<close>

datatype zk_tag = Groth16 | R0Succinct

definition zk_tag_try_from :: "u8 \<Rightarrow> zk_tag option" where
  "zk_tag_try_from value = (if value = 0x20 then Some Groth16 else if value = 0x21 then Some R0Succinct else None)"

definition zk_cost :: "zk_tag \<Rightarrow> ('e, script_units) outcome" where
  "zk_cost tag = gram_to_script_units (case tag of Groth16 \<Rightarrow> 1000 * 140 | R0Succinct \<Rightarrow> 1000 * 250)"

definition zk_max_cost :: "('e, script_units) outcome" where
  "zk_max_cost = gram_to_script_units (1000 * 250)"

definition compute_zk_cost :: "u8 \<Rightarrow> ('e, script_units) outcome" where
  "compute_zk_cost tag = (case zk_tag_try_from tag of Some t \<Rightarrow> zk_cost t | None \<Rightarrow> zk_max_cost)"

definition parse_tag :: "stack \<Rightarrow> (tx_script_error, zk_tag \<times> stack) outcome" where
  "parse_tag dstack =
     bind_outcome (stack_pop dstack) (\<lambda>(tag_bytes, dstack).
       case tag_bytes of
         [tag_byte] \<Rightarrow> bind_outcome (ok_or ZkIntegrity (zk_tag_try_from tag_byte)) (\<lambda>tag. Ok (tag, dstack))
       | _ \<Rightarrow> Err ZkIntegrity)"

section \<open>Groth16\<close>

datatype groth16_error =
    ArkR1CS | G16VerificationFailed | EmptyGammaAbc | MalformedVerifyingKey | TrailingVerifyingKeyBytes | TrailingProofBytes
  | FromTxScript tx_script_error | G16ArkSerialization | ByteConversion | FieldError

definition FR_BYTES :: nat where "FR_BYTES = 32"

definition entry_to_fr :: "zk_env \<Rightarrow> bytes \<Rightarrow> bool \<Rightarrow> (tx_script_error, bytes) outcome" where
  "entry_to_fr z entry enforce_minimal =
     (if length entry \<noteq> FR_BYTES then Err ZkIntegrity else if zk_fr_ok z entry then Ok entry else Err ZkIntegrity)"

definition GROTH16_GAMMA_ABC_G1_ELEMENT_SCRIPT_UNITS :: u64 where
  "GROTH16_GAMMA_ABC_G1_ELEMENT_SCRIPT_UNITS = 250000"

primrec read_g1s :: "zk_env \<Rightarrow> nat \<Rightarrow> bytes \<Rightarrow> (groth16_error, bytes list \<times> bytes) outcome" where
  "read_g1s z 0 reader = Ok ([], reader)"
| "read_g1s z (Suc n) reader =
     bind_outcome (ok_or G16ArkSerialization (zk_read_g1 z False reader)) (\<lambda>(p, reader).
     bind_outcome (read_g1s z n reader) (\<lambda>(ps, reader). Ok (p # ps, reader)))"

definition deserialize_verifying_key_with_metering ::
  "zk_env \<Rightarrow> bytes \<Rightarrow> nat \<Rightarrow> runtime_resource_meter \<Rightarrow> (groth16_error, (bytes list \<times> bytes list) \<times> runtime_resource_meter) outcome"
where
  "deserialize_verifying_key_with_metering z bs public_input_count meter =
     bind_outcome (ok_or G16ArkSerialization (zk_read_g1 z True bs)) (\<lambda>(alpha_g1, reader).
     bind_outcome (ok_or G16ArkSerialization (zk_read_g2 z reader)) (\<lambda>(beta_g2, reader).
     bind_outcome (ok_or G16ArkSerialization (zk_read_g2 z reader)) (\<lambda>(gamma_g2, reader).
     bind_outcome (ok_or G16ArkSerialization (zk_read_g2 z reader)) (\<lambda>(delta_g2, reader).
     bind_outcome (ok_or G16ArkSerialization (zk_read_u64 z reader)) (\<lambda>(gamma_abc_element_count, reader).
       if gamma_abc_element_count = 0 then Err EmptyGammaAbc
       else bind_outcome (add_p (of_nat public_input_count) 1) (\<lambda>expected.
       if expected \<noteq> gamma_abc_element_count then Err ArkR1CS
       else bind_outcome (map_err FromTxScript (consume_script_units
              (saturating_mul gamma_abc_element_count GROTH16_GAMMA_ABC_G1_ELEMENT_SCRIPT_UNITS) meter)) (\<lambda>meter.
       bind_outcome (read_g1s z (public_input_count + 1) reader) (\<lambda>(gamma_abc_g1, reader).
         if reader \<noteq> [] then Err TrailingVerifyingKeyBytes
         else if \<not> zk_g1_batch_check z gamma_abc_g1 then Err G16ArkSerialization
         else Ok (([alpha_g1, beta_g2, gamma_g2, delta_g2], gamma_abc_g1), meter)))))))))"

primrec pop_frs :: "zk_env \<Rightarrow> nat \<Rightarrow> stack \<Rightarrow> (tx_script_error, bytes list \<times> stack) outcome" where
  "pop_frs z 0 dstack = Ok ([], dstack)"
| "pop_frs z (Suc n) dstack =
     bind_outcome (pop_items 1 (entry_to_fr z) dstack) (\<lambda>(frs, dstack).
     bind_outcome (pop_frs z n dstack) (\<lambda>(rest, dstack). Ok (hd frs # rest, dstack)))"

definition i32_to_usize :: "int \<Rightarrow> (tx_script_error, nat) outcome" where
  "i32_to_usize value = (if 0 \<le> value then Ok (nat value) else Err (InvalidIndex value))"

definition i32s_to_usizes :: "int list \<Rightarrow> (tx_script_error, nat list) outcome" where
  "i32s_to_usizes arr = map_outcome i32_to_usize arr"

definition groth16_verify_zk ::
  "zk_env \<Rightarrow> stack \<Rightarrow> runtime_resource_meter \<Rightarrow> (groth16_error, stack \<times> runtime_resource_meter) outcome"
where
  "groth16_verify_zk z dstack meter =
     bind_outcome (map_err FromTxScript (pop_raw 1 dstack)) (\<lambda>(key, dstack).
     bind_outcome (map_err FromTxScript (pop_raw 1 dstack)) (\<lambda>(proof_bytes, dstack).
     bind_outcome (map_err FromTxScript (pop_items 1 entry_to_i32 dstack)) (\<lambda>(count, dstack).
     bind_outcome (map_err FromTxScript (i32s_to_usizes count)) (\<lambda>n_inputs.
     bind_outcome (map_err FromTxScript (pop_frs z (hd n_inputs) dstack)) (\<lambda>(public_inputs, dstack).
     bind_outcome (deserialize_verifying_key_with_metering z (hd key) (length public_inputs) meter) (\<lambda>(vk, meter).
     bind_outcome (ok_or G16ArkSerialization (zk_read_proof z (hd proof_bytes))) (\<lambda>(prf, proof_reader).
       if proof_reader \<noteq> [] then Err TrailingProofBytes
       else bind_outcome (ok_or ArkR1CS (zk_groth16_verify z (fst vk) (snd vk) prf public_inputs)) (\<lambda>valid.
         if valid then Ok (dstack, meter) else Err G16VerificationFailed))))))))"

section \<open>RISC Zero succinct receipts\<close>

datatype r0_error =
    R0Io | R0Verification | R0TxScript tx_script_error | InvalidDigestLength nat | InvalidSealLength nat
  | InvalidDigestListLength nat | ControlInclusionProofTooLong nat nat | InvalidMerkleIndexLength nat
  | InvalidHashFnEncoding nat | InvalidHashFnId u8 | UnsupportedHashFn hash_fn_id | R0VerificationFailed | R0Merkle

definition hash_fn_try_from :: "u8 \<Rightarrow> (r0_error, hash_fn_id) outcome" where
  "hash_fn_try_from value =
     (if value = 0 then Ok HashBlake2b else if value = 1 then Ok HashPoseidon2 else if value = 2 then Ok HashSha256
      else Err (InvalidHashFnId value))"

definition control_merkle_depth_for :: "hash_fn_id \<Rightarrow> ('e, nat) outcome" where
  "control_merkle_depth_for hashfn = (case hashfn of HashPoseidon2 \<Rightarrow> Ok 8 | _ \<Rightarrow> Panic)"

definition parse_digest :: "bytes \<Rightarrow> (r0_error, bytes) outcome" where
  "parse_digest bs = (if length bs = 32 then Ok bs else Err (InvalidDigestLength (length bs)))"

definition parse_seal :: "bytes \<Rightarrow> (r0_error, u32 list) outcome" where
  "parse_seal bs =
     (if length bs mod 4 \<noteq> 0 then Err (InvalidSealLength (length bs)) else Ok (map from_le_bytes (chunks_exact 4 bs)))"

definition parse_hashfn :: "bytes \<Rightarrow> (r0_error, hash_fn_id) outcome" where
  "parse_hashfn bs = (if length bs \<noteq> 1 then Err (InvalidHashFnEncoding (length bs)) else hash_fn_try_from (bs ! 0))"

definition parse_merkle_index :: "bytes \<Rightarrow> (r0_error, u32) outcome" where
  "parse_merkle_index bs = (if length bs \<noteq> 4 then Err (InvalidMerkleIndexLength (length bs)) else Ok (from_le_bytes bs))"

definition parse_digest_list :: "bytes \<Rightarrow> (r0_error, bytes list) outcome" where
  "parse_digest_list bs =
     (if length bs mod 32 \<noteq> 0 then Err (InvalidDigestListLength (length bs)) else Ok (chunks_exact 32 bs))"

record merkle_proof =
  mp_index :: u32
  mp_digests :: "bytes list"

primrec merkle_root_loop :: "zk_env \<Rightarrow> hash_fn_id \<Rightarrow> bytes list \<Rightarrow> bytes \<Rightarrow> u32 \<Rightarrow> (r0_error, bytes) outcome" where
  "merkle_root_loop z h [] cur cur_index = Ok cur"
| "merkle_root_loop z h (sibling # digests) cur cur_index =
     (if \<not> zk_digest_valid z h sibling then Err R0Merkle
      else merkle_root_loop z h digests
        (if cur_index AND 1 = 0 then zk_hash_pair z h cur sibling else zk_hash_pair z h sibling cur) (drop_bit 1 cur_index))"

definition merkle_root :: "zk_env \<Rightarrow> hash_fn_id \<Rightarrow> merkle_proof \<Rightarrow> bytes \<Rightarrow> (r0_error, bytes) outcome" where
  "merkle_root z h p leaf =
     (if \<not> zk_digest_valid z h leaf then Err R0Merkle else merkle_root_loop z h (mp_digests p) leaf (mp_index p))"

definition merkle_verify :: "zk_env \<Rightarrow> hash_fn_id \<Rightarrow> merkle_proof \<Rightarrow> bytes \<Rightarrow> bytes \<Rightarrow> (r0_error, unit) outcome" where
  "merkle_verify z h p leaf root =
     bind_outcome (merkle_root z h p leaf) (\<lambda>r. if r = root then Ok () else Err R0Merkle)"

record succinct_receipt =
  rc_seal :: "u32 list"
  rc_control_id :: bytes
  rc_claim :: bytes
  rc_hashfn :: hash_fn_id
  rc_control_inclusion_proof :: merkle_proof

definition check_code :: "zk_env \<Rightarrow> succinct_receipt \<Rightarrow> bytes \<Rightarrow> bool" where
  "check_code z r control_id \<longleftrightarrow>
     control_id = rc_control_id r \<and>
     is_ok (merkle_verify z (rc_hashfn r) (rc_control_inclusion_proof r) control_id (zk_allowed_control_root z))"

primrec every_other :: "bool \<Rightarrow> 'a list \<Rightarrow> 'a list" where
  "every_other b [] = []"
| "every_other b (x # xs) = (if b then x # every_other (\<not> b) xs else every_other (\<not> b) xs)"

definition verify_integrity :: "zk_env \<Rightarrow> succinct_receipt \<Rightarrow> (r0_error, unit) outcome" where
  "verify_integrity z r =
     (if \<not> zk_seal_verify z (rc_hashfn r) (rc_seal r) (check_code z r) then Err R0Verification
      else if length (rc_seal r) < zk_output_size z then Panic
      else let seal_claim = map (zk_elem_as_u32 z) (take (zk_output_size z) (rc_seal r))
           in if length seal_claim < 16 then Panic
              else let words = every_other True (take 16 seal_claim)
                   in if length words \<noteq> 8 then Err R0Verification
                      else if concat (map to_le_bytes words) \<noteq> zk_allowed_control_root z then Err R0Verification
                      else bind_outcome (ok_or R0Verification (zk_read_sha_halfs z (drop 16 seal_claim))) (\<lambda>output_hash.
                        if output_hash \<noteq> rc_claim r then Err R0Verification else Ok ()))"

definition receipt_claim_digest :: "zk_env \<Rightarrow> bytes \<Rightarrow> bytes \<Rightarrow> bytes" where
  "receipt_claim_digest z image_id journal_hash =
     (let zero = replicate 32 0; (sys_exit, user_exit) = zk_halted_pair z 0
      in zk_tagged_struct z ''risc0.ReceiptClaim''
           [zero, image_id, zk_system_state_digest z 0 zero, zk_tagged_struct z ''risc0.Output'' [journal_hash, zero] []]
           [sys_exit, user_exit])"

definition compute_assert_claim :: "zk_env \<Rightarrow> bytes \<Rightarrow> bytes \<Rightarrow> bytes \<Rightarrow> (r0_error, unit) outcome" where
  "compute_assert_claim z claim image_id journal_hash =
     (if claim \<noteq> receipt_claim_digest z image_id journal_hash then Err R0VerificationFailed else Ok ())"

definition r0_verify_zk :: "zk_env \<Rightarrow> stack \<Rightarrow> (r0_error, stack) outcome" where
  "r0_verify_zk z dstack =
     bind_outcome (map_err R0TxScript (pop_raw 8 dstack)) (\<lambda>(es, dstack).
     bind_outcome (parse_digest (es ! 6)) (\<lambda>control_id.
     bind_outcome (parse_seal (es ! 3)) (\<lambda>seal.
     bind_outcome (parse_digest (es ! 0)) (\<lambda>claim.
     bind_outcome (parse_hashfn (es ! 7)) (\<lambda>hashfn.
       if hashfn \<noteq> HashPoseidon2 then Err (UnsupportedHashFn hashfn)
       else bind_outcome (parse_merkle_index (es ! 1)) (\<lambda>control_index.
       bind_outcome (parse_digest_list (es ! 2)) (\<lambda>control_digests.
       bind_outcome (control_merkle_depth_for hashfn) (\<lambda>max_control_proof_len.
       if max_control_proof_len < length control_digests
       then Err (ControlInclusionProofTooLong (length control_digests) max_control_proof_len)
       else let rcpt = \<lparr>rc_seal = seal, rc_control_id = control_id, rc_claim = claim, rc_hashfn = hashfn,
                  rc_control_inclusion_proof = \<lparr>mp_index = control_index, mp_digests = control_digests\<rparr>\<rparr>
            in bind_outcome (parse_digest (es ! 5)) (\<lambda>image_id.
               bind_outcome (parse_digest (es ! 4)) (\<lambda>journal.
               bind_outcome (verify_integrity z rcpt) (\<lambda>_.
               bind_outcome (compute_assert_claim z (rc_claim rcpt) image_id journal) (\<lambda>_. Ok dstack))))))))))))"

definition verify_zk ::
  "zk_env \<Rightarrow> zk_tag \<Rightarrow> stack \<Rightarrow> runtime_resource_meter \<Rightarrow> (tx_script_error, stack \<times> runtime_resource_meter) outcome"
where
  "verify_zk z tag dstack meter =
     (case tag of
        Groth16 \<Rightarrow> map_err (\<lambda>_. ZkIntegrity) (groth16_verify_zk z dstack meter)
      | R0Succinct \<Rightarrow> bind_outcome (map_err (\<lambda>_. ZkIntegrity) (r0_verify_zk z dstack)) (\<lambda>dstack. Ok (dstack, meter)))"

section \<open>Contract\<close>

text \<open>
  The library's documented behaviour the receipt check relies on: a seal the verifier accepts holds at least
  the circuit's output words, of which there are at least sixteen.
\<close>

definition zk_env_ok :: "zk_env \<Rightarrow> bool" where
  "zk_env_ok z \<longleftrightarrow> 16 \<le> zk_output_size z \<and> (\<forall>h seal check. zk_seal_verify z h seal check \<longrightarrow> zk_output_size z \<le> length seal)"

lemma zk_cost_Ok: "zk_cost t = Ok (case t of Groth16 \<Rightarrow> 14000000 | R0Succinct \<Rightarrow> 25000000)" "zk_max_cost = Ok 25000000"
  by (simp_all add: zk_cost_def zk_max_cost_def gram_to_script_units_def SCRIPT_UNITS_PER_GRAM_def checked_mul_def split: zk_tag.split)

lemma parse_tag_rule: "fresh B c n s \<Longrightarrow> safe (parse_tag s) (\<lambda>(t, s'). fresh B c n s')"
  by (auto simp: parse_tag_def split: list.split intro!: safe_mono [OF stack_pop_rule])

lemma pop_items_len: "pop_items k d s = Ok (xs, s') \<Longrightarrow> stack_len s = stack_len s' + k"
  by (auto simp: pop_items_def stack_len_def bind_outcome_Ok_iff split: if_splits)

lemma pop_frs_len: "pop_frs z k s = Ok (xs, s') \<Longrightarrow> k \<le> stack_len s"
proof (induction k arbitrary: s xs s')
  case (Suc k)
  then obtain frs s1 r where r: "pop_items 1 (entry_to_fr z) s = Ok (frs, s1)" "pop_frs z k s1 = Ok r"
    by (auto simp: bind_outcome_Ok_iff simp del: One_nat_def)
  with Suc.IH [of s1 "fst r" "snd r"] show ?case using pop_items_len [OF r(1)] by simp
qed simp

lemma pop_frs_fresh: "fresh B c n s \<Longrightarrow> safe (pop_frs z k s) (\<lambda>(xs, s'). length xs = k \<and> fresh B c n s')"
proof (induction k arbitrary: s)
  case (Suc k)
  have "safe (pop_items 1 (entry_to_fr z) s) (\<lambda>(xs, s'). length xs = 1 \<and> (\<forall>x \<in> set xs. True) \<and> fresh B c n s')"
    by (rule pop_items_rule [OF Suc.prems]) (simp add: entry_to_fr_def)
  then show ?case by (auto elim!: safe_mono intro!: safe_mono [OF Suc.IH])
qed simp

lemma pop_frs_rule: "fresh B c n s \<Longrightarrow> safe (pop_frs z k s) (\<lambda>(xs, s'). length xs \<le> n \<and> fresh B c n s')"
  using pop_frs_fresh [of B c n s z k] pop_frs_len [of z k s]
  by (cases "pop_frs z k s") (auto simp: fresh_def fits_def)

lemma read_g1s_safe: "safe (read_g1s z n r) (\<lambda>_. True)"
  by (induction n arbitrary: r) (auto simp: safe_mono)

lemma count_plus_one: "n < 2 ^ 32 \<Longrightarrow> checked_add (of_nat n :: u64) 1 = Some (of_nat (n + 1))"
  by (simp add: checked_add_def unat_of_nat)

lemma metered_key_rule:
  assumes "meter_inv t m" "n < 2 ^ 32"
  shows "safe (deserialize_verifying_key_with_metering z bs n m) (\<lambda>(_, m'). meter_inv t m')"
  unfolding deserialize_verifying_key_with_metering_def
  by (auto simp: count_plus_one [OF assms(2)] simp del: read_g1s.simps
      intro!: safe_mono [OF consume_script_units_rule [OF assms(1)]] safe_mono [OF read_g1s_safe])

lemma i32s_to_usizes_rule: "safe (i32s_to_usizes xs) (\<lambda>ys. length ys = length xs)"
  unfolding i32s_to_usizes_def
  by (rule safe_mono [OF map_outcome_safe [where Q = "\<lambda>_. True"]]) (auto simp: i32_to_usize_def)

lemma groth16_rule:
  assumes s: "fresh B c n s" and m: "meter_inv t m" and n: "n < 2 ^ 32"
  shows "safe (groth16_verify_zk z s m) (\<lambda>(s', m'). fresh B c n s' \<and> meter_inv t m')"
proof -
  have pop: "safe (pop_raw 1 s) (\<lambda>(xs, s'). fresh B c n s')" if "fresh B c n s" for s
    by (rule safe_mono [OF pop_raw_rule [OF that]]) auto
  have count: "safe (pop_items 1 entry_to_i32 s) (\<lambda>(xs, s'). fresh B c n s')" if "fresh B c n s" for s
    by (rule safe_mono [OF pop_items_rule [OF that entry_to_i32_rule]]) auto
  have usizes: "safe (i32s_to_usizes xs) (\<lambda>_. True)" for xs
    by (rule safe_mono [OF i32s_to_usizes_rule]) simp
  show ?thesis unfolding groth16_verify_zk_def
    by (auto simp del: One_nat_def intro!: safe_mono [OF pop] safe_mono [OF count] safe_mono [OF usizes] safe_mono [OF pop_frs_rule]
        safe_mono [OF metered_key_rule [OF m le_less_trans [OF _ n]]] s)
qed

lemma merkle_root_loop_safe: "safe (merkle_root_loop z h ds x i) (\<lambda>_. True)"
  by (induction ds arbitrary: x i) auto

lemma parse_rules:
  "safe (parse_digest b) (\<lambda>_. True)" "safe (parse_seal b) (\<lambda>_. True)" "safe (parse_hashfn b) (\<lambda>_. True)"
  "safe (parse_merkle_index b) (\<lambda>_. True)" "safe (parse_digest_list b) (\<lambda>_. True)"
  by (simp_all add: parse_digest_def parse_seal_def parse_hashfn_def hash_fn_try_from_def parse_merkle_index_def parse_digest_list_def)

lemma verify_integrity_safe:
  assumes z: "zk_env_ok z"
  shows "safe (verify_integrity z r) (\<lambda>_. True)"
proof -
  have "zk_output_size z \<le> length (rc_seal r)" if "zk_seal_verify z (rc_hashfn r) (rc_seal r) (check_code z r)"
    using z that unfolding zk_env_ok_def by blast
  moreover have "16 \<le> zk_output_size z" using z by (simp add: zk_env_ok_def)
  ultimately show ?thesis by (auto simp: verify_integrity_def Let_def)
qed

lemma r0_rule:
  assumes s: "fresh B c n s" and z: "zk_env_ok z"
  shows "safe (r0_verify_zk z s) (fresh B c n)"
  unfolding r0_verify_zk_def Let_def
  by (auto simp: control_merkle_depth_for_def compute_assert_claim_def intro!: safe_mono [OF pop_raw_rule [OF s]]
      safe_mono [OF parse_rules(1)] safe_mono [OF parse_rules(2)] safe_mono [OF parse_rules(3)] safe_mono [OF parse_rules(4)]
      safe_mono [OF parse_rules(5)] safe_mono [OF verify_integrity_safe [OF z]])

lemma verify_zk_rule:
  assumes "fresh B c n s" "meter_inv t m" "n < 2 ^ 32" "zk_env_ok z"
  shows "safe (verify_zk z tag s m) (\<lambda>(s', m'). fresh B c n s' \<and> meter_inv t m')"
proof (cases tag)
  case Groth16
  then show ?thesis using groth16_rule [OF assms(1-3)] by (simp add: verify_zk_def)
next
  case R0Succinct
  then show ?thesis using r0_rule [OF assms(1,4)] assms(2) by (auto simp: verify_zk_def elim!: safe_mono)
qed

end
