(* ===== verification/Script_Parse.thy ===== *)
theory Script_Parse
  imports Zk_Precompiles
begin

text \<open>
  Scripts as bytes (\<^verbatim>\<open>crypto/txscript/src/\<close>): the wire form of an opcode (\<^verbatim>\<open>opcodes/macros.rs\<close>), the lazy
  parser \<^verbatim>\<open>parse_script\<close>, the metadata the engine asks of an opcode, the static scanners of \<^verbatim>\<open>lib.rs\<close> (signature
  operations, zero-knowledge units, unspendable scripts), the script classes of \<^verbatim>\<open>script_class.rs\<close>, the builder of
  \<^verbatim>\<open>script_builder.rs\<close> and the standard scripts of \<^verbatim>\<open>standard.rs\<close>. \<open>parse_script\<close> is total: each step consumes
  at least the opcode byte. The lemmas show that parsing and serializing are inverse to each other and that
  the builder's scripts parse to the opcodes it was asked for.
\<close>

unbundle bit_operations_syntax

section \<open>Limits\<close>

definition MAX_SCRIPT_PUBLIC_KEY_VERSION :: u16 where "MAX_SCRIPT_PUBLIC_KEY_VERSION = 0"
definition MAX_STACK_SIZE :: nat where "MAX_STACK_SIZE = 244"
definition MAX_PUB_KEYS_PER_MUTLTISIG :: int where "MAX_PUB_KEYS_PER_MUTLTISIG = 20"
definition NO_COST_OPCODE :: u8 where "NO_COST_OPCODE = 0x60"

definition max_scripts_size :: "bool \<Rightarrow> nat" where
  "max_scripts_size covenants_enabled = (if covenants_enabled then 1000000 else 10000)"

definition max_script_element_size :: "bool \<Rightarrow> nat" where
  "max_script_element_size covenants_enabled = (if covenants_enabled then MAX_SCRIPT_ELEMENT_SIZE_POST_TOCCATA else 520)"

definition max_ops_per_script :: "bool \<Rightarrow> int" where
  "max_ops_per_script covenants_enabled = (if covenants_enabled then 1000000 else 201)"

record engine_flags =
  ef_covenants_enabled :: bool
  ef_sigop_script_units :: script_units

definition engine_flags_default :: "('e, engine_flags) outcome" where
  "engine_flags_default =
     bind_outcome (gram_to_script_units 1000) (\<lambda>u. Ok \<lparr>ef_covenants_enabled = False, ef_sigop_script_units = u\<rparr>)"

section \<open>Opcodes\<close>

record opcode =
  oc_code :: u8
  oc_data :: bytes

abbreviation "OpFalse \<equiv> 0x00 :: u8"
abbreviation "OpData32 \<equiv> 0x20 :: u8"
abbreviation "OpData33 \<equiv> 0x21 :: u8"
abbreviation "OpData75 \<equiv> 0x4b :: u8"
abbreviation "OpPushData1 \<equiv> 0x4c :: u8"
abbreviation "OpPushData2 \<equiv> 0x4d :: u8"
abbreviation "OpPushData4 \<equiv> 0x4e :: u8"
abbreviation "Op1Negate \<equiv> 0x4f :: u8"
abbreviation "OpTrue \<equiv> 0x51 :: u8"
abbreviation "Op16 \<equiv> 0x60 :: u8"
abbreviation "OpReturn \<equiv> 0x6a :: u8"
abbreviation "OpEqual \<equiv> 0x87 :: u8"
abbreviation "OpZkPrecompile \<equiv> 0xa6 :: u8"
abbreviation "OpCheckMultiSigECDSA \<equiv> 0xa9 :: u8"
abbreviation "OpBlake2b \<equiv> 0xaa :: u8"
abbreviation "OpCheckSigECDSA \<equiv> 0xab :: u8"
abbreviation "OpCheckSig \<equiv> 0xac :: u8"
abbreviation "OpCheckSigVerify \<equiv> 0xad :: u8"
abbreviation "OpCheckMultiSig \<equiv> 0xae :: u8"
abbreviation "OpCheckMultiSigVerify \<equiv> 0xaf :: u8"
abbreviation "OpCheckSigFromStack \<equiv> 0xd7 :: u8"
abbreviation "OpCheckSigFromStackECDSA \<equiv> 0xd8 :: u8"

datatype opcode_length = StaticLength nat | LengthPrefix nat

definition opcode_length_of :: "u8 \<Rightarrow> opcode_length" where
  "opcode_length_of code =
     (if code = OpPushData1 then LengthPrefix 1
      else if code = OpPushData2 then LengthPrefix 2
      else if code = OpPushData4 then LengthPrefix 4
      else if code \<le> OpData75 then StaticLength (unat code + 1)
      else StaticLength 1)"

definition opcode_new :: "u8 \<Rightarrow> bytes \<Rightarrow> (tx_script_error, opcode) outcome" where
  "opcode_new code data =
     (case opcode_length_of code of
        LengthPrefix w \<Rightarrow>
          if 256 ^ w - 1 < length data then Err (MalformedPush (256 ^ w - 1) (length data)) else Ok \<lparr>oc_code = code, oc_data = data\<rparr>
      | StaticLength n \<Rightarrow>
          if length data \<noteq> n - 1 then Err (MalformedPush (n - 1) (length data)) else Ok \<lparr>oc_code = code, oc_data = data\<rparr>)"

definition opcode_serialize :: "opcode \<Rightarrow> bytes" where
  "opcode_serialize op =
     (case opcode_length_of (oc_code op) of
        LengthPrefix w \<Rightarrow> [oc_code op] @ le_bytes w (length (oc_data op)) @ oc_data op
      | StaticLength n \<Rightarrow> [oc_code op] @ oc_data op)"

definition opcode_deserialize :: "u8 \<Rightarrow> bytes \<Rightarrow> (tx_script_error, opcode) outcome \<times> bytes" where
  "opcode_deserialize code it =
     (case opcode_length_of code of
        LengthPrefix w \<Rightarrow>
          let prefix = take w it; it = drop w it
          in if length prefix \<noteq> w then (Err (MalformedPushSize prefix), it)
             else let len = le_nat prefix; data = take len it
                  in (if length data \<noteq> len then Err (MalformedPush len (length data)) else Ok \<lparr>oc_code = code, oc_data = data\<rparr>,
                      drop len it)
      | StaticLength n \<Rightarrow> (opcode_new code (take (n - 1) it), drop (n - 1) it))"

definition deserialize_next_opcode :: "bytes \<Rightarrow> ((tx_script_error, opcode) outcome \<times> bytes) option" where
  "deserialize_next_opcode it = (case it of [] \<Rightarrow> None | opcode_num # it \<Rightarrow> Some (opcode_deserialize opcode_num it))"

lemma opcode_deserialize_shrinks: "length (snd (opcode_deserialize code it)) \<le> length it"
  by (simp add: opcode_deserialize_def Let_def split: opcode_length.split)

function parse_script :: "bytes \<Rightarrow> (tx_script_error, opcode) outcome list" where
  "parse_script it =
     (case deserialize_next_opcode it of None \<Rightarrow> [] | Some (op, it') \<Rightarrow> op # parse_script it')"
  by pat_completeness auto
termination
proof (relation "measure length")
  fix it x op it'
  assume "deserialize_next_opcode it = Some x" "(op, it') = x"
  then show "(it', it) \<in> measure length"
    using opcode_deserialize_shrinks [of "hd it" "tl it"]
    by (cases it) (auto simp: deserialize_next_opcode_def dest: sym)
qed simp

declare parse_script.simps [simp del]

lemma parse_script_Nil [simp]: "parse_script [] = []"
  by (simp add: parse_script.simps deserialize_next_opcode_def)

lemma parse_script_Cons:
  "parse_script (code # it) = fst (opcode_deserialize code it) # parse_script (snd (opcode_deserialize code it))"
  by (simp add: parse_script.simps [of "code # it"] deserialize_next_opcode_def split_beta)

section \<open>Metadata\<close>

definition is_disabled :: "opcode \<Rightarrow> engine_flags \<Rightarrow> bool" where
  "is_disabled op flags =
     (if ef_covenants_enabled flags then oc_code op \<in> set [0x80, 0x81, 0x8d, 0x8e, 0x98, 0x99]
      else oc_code op \<in> set [0x7e, 0x7f, 0x80, 0x81, 0x83, 0x84, 0x85, 0x86, 0x8d, 0x8e, 0x95, 0x96, 0x97, 0x98, 0x99])"

definition always_illegal :: "opcode \<Rightarrow> bool" where
  "always_illegal op \<longleftrightarrow> oc_code op = 0x65 \<or> oc_code op = 0x66"

definition is_push_opcode :: "opcode \<Rightarrow> bool" where
  "is_push_opcode op \<longleftrightarrow> oc_code op \<le> NO_COST_OPCODE"

definition is_conditional :: "opcode \<Rightarrow> bool" where
  "is_conditional op \<longleftrightarrow> 0x63 \<le> oc_code op \<and> oc_code op \<le> 0x68"

definition check_minimal_data_push :: "opcode \<Rightarrow> (tx_script_error, unit) outcome" where
  "check_minimal_data_push op =
     (let data = oc_data op; data_len = length data; code = oc_code op
      in if data_len = 0 then (if code \<noteq> OpFalse then Err NotMinimalData else Ok ())
         else if data_len = 1 \<and> 1 \<le> hd data \<and> hd data \<le> 16 then
           (if code \<noteq> OpTrue + hd data - 1 then Err NotMinimalData else Ok ())
         else if data_len = 1 \<and> hd data = 0x81 then (if code \<noteq> Op1Negate then Err NotMinimalData else Ok ())
         else if data_len \<le> 75 then (if unat code \<noteq> data_len then Err NotMinimalData else Ok ())
         else if data_len \<le> 255 then (if code \<noteq> OpPushData1 then Err NotMinimalData else Ok ())
         else if data_len < 65535 \<and> code \<noteq> OpPushData2 then Err NotMinimalData
         else Ok ())"

definition to_small_int :: "opcode \<Rightarrow> ('e, u8) outcome" where
  "to_small_int op =
     (let value = oc_code op
      in if value = OpFalse then Ok 0
         else if OpTrue \<le> value \<and> value < Op16 then Ok (value - (OpTrue - 1))
         else Panic)"

section \<open>Script classes\<close>

datatype script_class = NonStandard | PubKey | PubKeyECDSA | ScriptHash

definition is_pay_to_pubkey :: "bytes \<Rightarrow> bool" where
  "is_pay_to_pubkey s \<longleftrightarrow> length s = 34 \<and> s ! 0 = OpData32 \<and> s ! 33 = OpCheckSig"

definition is_pay_to_pubkey_ecdsa :: "bytes \<Rightarrow> bool" where
  "is_pay_to_pubkey_ecdsa s \<longleftrightarrow> length s = 35 \<and> s ! 0 = OpData33 \<and> s ! 34 = OpCheckSigECDSA"

definition is_pay_to_script_hash :: "bytes \<Rightarrow> bool" where
  "is_pay_to_script_hash s \<longleftrightarrow> length s = 35 \<and> s ! 0 = OpBlake2b \<and> s ! 1 = OpData32 \<and> s ! 34 = OpEqual"

definition script_class_from_script :: "script_public_key \<Rightarrow> script_class" where
  "script_class_from_script spk =
     (if spk_version spk = MAX_SCRIPT_PUBLIC_KEY_VERSION then
        if is_pay_to_pubkey (spk_script spk) then PubKey
        else if is_pay_to_pubkey_ecdsa (spk_script spk) then PubKeyECDSA
        else if is_pay_to_script_hash (spk_script spk) then ScriptHash
        else NonStandard
      else NonStandard)"

definition script_class_version :: "script_class \<Rightarrow> u16" where
  "script_class_version c = (case c of NonStandard \<Rightarrow> 0 | _ \<Rightarrow> MAX_SCRIPT_PUBLIC_KEY_VERSION)"

section \<open>Static scanners\<close>

type_synonym parsed = "(tx_script_error, opcode) outcome"

primrec collect_ok :: "parsed list \<Rightarrow> opcode list option" where
  "collect_ok [] = Some []"
| "collect_ok (r # rs) = (case r of Ok op \<Rightarrow> map_option ((#) op) (collect_ok rs) | _ \<Rightarrow> None)"

fun post_toccata_scan :: "parsed list \<Rightarrow> u64 option \<Rightarrow> u64 \<Rightarrow> ('e, u64) outcome" where
  "post_toccata_scan [] multisig_count sigops = Ok sigops"
| "post_toccata_scan (Ok op # rs) multisig_count sigops =
     (let v = oc_code op
      in if v \<in> set [OpCheckSig, OpCheckSigVerify, OpCheckSigECDSA, OpCheckSigFromStack, OpCheckSigFromStackECDSA]
         then post_toccata_scan rs None (saturating_add sigops 1)
         else if v \<in> set [OpCheckMultiSig, OpCheckMultiSigVerify, OpCheckMultiSigECDSA]
         then post_toccata_scan rs None (saturating_add sigops
                (case multisig_count of Some c \<Rightarrow> c | None \<Rightarrow> of_int MAX_PUB_KEYS_PER_MUTLTISIG))
         else if OpTrue \<le> v \<and> v \<le> Op16 then post_toccata_scan rs (Some (ucast (v - OpTrue + 1))) sigops
         else if v \<le> OpPushData4 then
           (case deserialize_i64 (oc_data op) False of
              Ok count \<Rightarrow> post_toccata_scan rs
                (if 1 \<le> count \<and> count \<le> MAX_PUB_KEYS_PER_MUTLTISIG then Some (of_int count) else None) sigops
            | Err _ \<Rightarrow> post_toccata_scan rs None sigops
            | Panic \<Rightarrow> Panic)
         else post_toccata_scan rs None sigops)"
| "post_toccata_scan (_ # rs) multisig_count sigops = Ok 0"

definition post_toccata_p2sh_sig_scanner :: "bytes \<Rightarrow> script_public_key \<Rightarrow> ('e, u64) outcome" where
  "post_toccata_p2sh_sig_scanner signature_script spk =
     (if \<not> is_pay_to_script_hash (spk_script spk) then Ok 0
      else case collect_ok (parse_script signature_script) of
        None \<Rightarrow> Ok 0
      | Some ops \<Rightarrow> if ops = [] then Ok 0 else post_toccata_scan (parse_script (oc_data (last ops))) None 0)"

text \<open>
  The scanners that run over the collected opcodes look back at the previous one; \<open>prev\<close> is that entry, absent
  at index 0.
\<close>

fun sig_op_count_loop :: "opcode option \<Rightarrow> parsed list \<Rightarrow> u64 \<Rightarrow> ('e, u64) outcome" where
  "sig_op_count_loop prev [] num_sigs = Ok num_sigs"
| "sig_op_count_loop prev (Ok op # rs) num_sigs =
     (if oc_code op \<in> set [OpCheckSig, OpCheckSigVerify, OpCheckSigECDSA]
      then bind_outcome (add_p num_sigs 1) (sig_op_count_loop (Some op) rs)
      else if oc_code op \<in> set [OpCheckMultiSig, OpCheckMultiSigVerify, OpCheckMultiSigECDSA] then
        (case prev of
           None \<Rightarrow> bind_outcome (add_p num_sigs (of_int MAX_PUB_KEYS_PER_MUTLTISIG)) (sig_op_count_loop (Some op) rs)
         | Some prev_opcode \<Rightarrow>
             if OpTrue \<le> oc_code prev_opcode \<and> oc_code prev_opcode \<le> Op16
             then bind_outcome (to_small_int prev_opcode) (\<lambda>n.
                    bind_outcome (add_p num_sigs (ucast n)) (sig_op_count_loop (Some op) rs))
             else bind_outcome (add_p num_sigs (of_int MAX_PUB_KEYS_PER_MUTLTISIG)) (sig_op_count_loop (Some op) rs))
      else sig_op_count_loop (Some op) rs num_sigs)"
| "sig_op_count_loop prev (_ # rs) num_sigs = Ok num_sigs"

definition get_sig_op_count_by_opcodes :: "parsed list \<Rightarrow> ('e, u64) outcome" where
  "get_sig_op_count_by_opcodes opcodes = sig_op_count_loop None opcodes 0"

definition get_sig_op_count_upper_bound :: "bytes \<Rightarrow> script_public_key \<Rightarrow> ('e, u64) outcome" where
  "get_sig_op_count_upper_bound signature_script spk =
     (if \<not> is_pay_to_script_hash (spk_script spk) then get_sig_op_count_by_opcodes (parse_script (spk_script spk))
      else case collect_ok (parse_script signature_script) of
        None \<Rightarrow> Ok 0
      | Some ops \<Rightarrow> if ops = [] then Ok 0 else get_sig_op_count_by_opcodes (parse_script (oc_data (last ops))))"

fun zk_units_loop :: "opcode option \<Rightarrow> parsed list \<Rightarrow> script_units \<Rightarrow> ('e, script_units) outcome" where
  "zk_units_loop prev [] zk_units = Ok zk_units"
| "zk_units_loop prev (Ok op # rs) zk_units =
     (if oc_code op = OpZkPrecompile then
        bind_outcome
          (case prev of
             None \<Rightarrow> zk_max_cost
           | Some p \<Rightarrow> (case oc_data p of [] \<Rightarrow> zk_max_cost | tag # _ \<Rightarrow> compute_zk_cost tag))
          (\<lambda>cost. zk_units_loop (Some op) rs (saturating_add zk_units cost))
      else zk_units_loop (Some op) rs zk_units)"
| "zk_units_loop prev (_ # rs) zk_units = Ok zk_units"

definition get_zk_script_units_upper_bound_by_opcodes :: "parsed list \<Rightarrow> ('e, script_units) outcome" where
  "get_zk_script_units_upper_bound_by_opcodes opcodes = zk_units_loop None opcodes 0"

definition get_zk_script_units_upper_bound :: "bytes \<Rightarrow> script_public_key \<Rightarrow> ('e, script_units) outcome" where
  "get_zk_script_units_upper_bound signature_script spk =
     (if \<not> is_pay_to_script_hash (spk_script spk) then get_zk_script_units_upper_bound_by_opcodes (parse_script (spk_script spk))
      else case collect_ok (parse_script signature_script) of
        None \<Rightarrow> Ok 0
      | Some ops \<Rightarrow>
          if ops = [] then Ok 0 else get_zk_script_units_upper_bound_by_opcodes (parse_script (oc_data (last ops))))"

definition estimate_script_units_upper_bound :: "bytes \<Rightarrow> script_public_key \<Rightarrow> u64 \<Rightarrow> ('e, script_units) outcome" where
  "estimate_script_units_upper_bound signature_script spk sigop_script_units =
     bind_outcome (get_sig_op_count_upper_bound signature_script spk) (\<lambda>sig_op_upper_bound.
     let sig_op_units = saturating_mul sig_op_upper_bound sigop_script_units;
         total_script_len = of_nat (length signature_script + length (spk_script spk)) :: u64
     in bind_outcome (get_zk_script_units_upper_bound signature_script spk) (\<lambda>zk_units.
        bind_outcome (mul_p total_script_len 100) (\<lambda>len_units.
        Ok (saturating_add (saturating_add sig_op_units len_units) zk_units))))"

primrec unspendable_from :: "nat \<Rightarrow> parsed list \<Rightarrow> bool" where
  "unspendable_from index [] = False"
| "unspendable_from index (r # rs) =
     ((case r of Ok op \<Rightarrow> index = 0 \<and> oc_code op = OpReturn | _ \<Rightarrow> True) \<or> unspendable_from (Suc index) rs)"

definition is_unspendable :: "bytes \<Rightarrow> bool" where
  "is_unspendable script = unspendable_from 0 (parse_script script)"

section \<open>Parsing and serializing\<close>

definition opcode_wf :: "opcode \<Rightarrow> bool" where
  "opcode_wf op \<longleftrightarrow> opcode_new (oc_code op) (oc_data op) = Ok op"

lemma opcode_wf_iff:
  "opcode_wf op \<longleftrightarrow>
     (case opcode_length_of (oc_code op) of
        LengthPrefix w \<Rightarrow> length (oc_data op) < 256 ^ w
      | StaticLength n \<Rightarrow> length (oc_data op) = n - 1)"
proof -
  have "(256 :: nat) ^ w - 1 < n \<longleftrightarrow> \<not> n < 256 ^ w" for n w
    using zero_less_power [of "256 :: nat" w] by linarith
  then show ?thesis by (simp add: opcode_wf_def opcode_new_def split: opcode_length.split)
qed

lemma deserialize_serialized:
  assumes "opcode_wf op"
  shows "opcode_serialize op \<noteq> []"
    and "opcode_deserialize (hd (opcode_serialize op)) (tl (opcode_serialize op) @ rest) = (Ok op, rest)"
proof -
  show "opcode_serialize op \<noteq> []" by (simp add: opcode_serialize_def split: opcode_length.split)
  show "opcode_deserialize (hd (opcode_serialize op)) (tl (opcode_serialize op) @ rest) = (Ok op, rest)"
  proof (cases "opcode_length_of (oc_code op)")
    case (StaticLength n)
    then show ?thesis using assms by (simp add: opcode_serialize_def opcode_deserialize_def opcode_wf_def opcode_wf_iff [unfolded opcode_wf_def])
  next
    case (LengthPrefix w)
    then show ?thesis using assms
      by (simp add: opcode_serialize_def opcode_deserialize_def opcode_wf_iff length_le_bytes le_nat_le_bytes Let_def)
  qed
qed

lemma serialize_deserialized:
  assumes "opcode_deserialize c it = (Ok op, rest)"
  shows "opcode_wf op" "opcode_serialize op @ rest = c # it"
proof -
  have code: "oc_code op = c" using assms
    by (auto simp: opcode_deserialize_def opcode_new_def Let_def split: opcode_length.splits if_splits)
  have "opcode_wf op \<and> opcode_serialize op @ rest = c # it"
  proof (cases "opcode_length_of c")
    case (StaticLength n)
    then have "op = \<lparr>oc_code = c, oc_data = take (n - 1) it\<rparr>" "length (take (n - 1) it) = n - 1" "rest = drop (n - 1) it"
      using assms by (auto simp: opcode_deserialize_def opcode_new_def split: if_splits)
    then show ?thesis using StaticLength by (simp add: opcode_serialize_def opcode_wf_iff)
  next
    case (LengthPrefix w)
    let ?p = "take w it" let ?len = "le_nat ?p"
    from LengthPrefix assms have p: "length ?p = w" and len: "length (take ?len (drop w it)) = ?len"
      and op: "op = \<lparr>oc_code = c, oc_data = take ?len (drop w it)\<rparr>" and rest: "rest = drop ?len (drop w it)"
      by (auto simp: opcode_deserialize_def Let_def split: if_splits)
    have "?len < 256 ^ w" using le_nat_less [of ?p] p by simp
    moreover have "le_bytes w ?len = ?p" using le_bytes_le_nat [of ?p] p by simp
    moreover have "?p @ take ?len (drop w it) @ rest = it" unfolding rest by (simp only: append_take_drop_id)
    ultimately show ?thesis using LengthPrefix len op by (simp add: opcode_serialize_def opcode_wf_iff)
  qed
  then show "opcode_wf op" "opcode_serialize op @ rest = c # it" by simp_all
qed

lemma failed_deserialize:
  "opcode_deserialize c it = (r, rest) \<Longrightarrow> r \<noteq> Panic \<and> (\<forall>e. r = Err e \<longrightarrow> rest = [])"
  by (auto simp: opcode_deserialize_def opcode_new_def Let_def split: opcode_length.splits if_splits)

lemma parsed_serialized: "parse_script s = map Ok ops \<Longrightarrow> list_all opcode_wf ops \<and> concat (map opcode_serialize ops) = s"
proof (induction ops arbitrary: s)
  case Nil
  then show ?case by (cases s) (auto simp: parse_script_Cons)
next
  case (Cons op ops)
  then obtain c it where s: "s = c # it" by (cases s) auto
  let ?d = "opcode_deserialize c it"
  have d: "?d = (Ok op, snd ?d)" "parse_script (snd ?d) = map Ok ops"
    using Cons.prems by (auto simp: s parse_script_Cons prod_eq_iff)
  show ?case using serialize_deserialized [OF d(1)] Cons.IH [OF d(2)] by (simp add: s)
qed

lemma parse_serialized: "list_all opcode_wf ops \<Longrightarrow> parse_script (concat (map opcode_serialize ops)) = map Ok ops"
proof (induction ops)
  case (Cons op ops)
  let ?rest = "concat (map opcode_serialize ops)"
  have wf: "opcode_wf op" using Cons.prems by simp
  obtain c it where op: "opcode_serialize op = c # it"
    using deserialize_serialized(1) [OF wf] by (cases "opcode_serialize op") auto
  then show ?case using Cons deserialize_serialized(2) [OF wf, of ?rest] by (simp add: parse_script_Cons)
qed simp

text \<open>
  C34. Parsing a script yields exactly the opcodes \<open>ops\<close> and no error if and only if every one of them is well
  formed (its data has the length its code prescribes) and the script is the concatenation of their wire forms.
  So serializing and parsing are inverse to each other, and no script has two readings.
\<close>

theorem parse_script_exact:
  "parse_script s = map Ok ops \<longleftrightarrow> list_all opcode_wf ops \<and> concat (map opcode_serialize ops) = s"
  using parsed_serialized [of s ops] parse_serialized [of ops] by blast

text \<open>
  C35. The parser terminates on every script: it yields at most one entry per byte, never panics, and an entry
  that is an error is the last one, so iteration after a malformed push stops.
\<close>

theorem parse_script_terminates:
  "\<exists>ops errs. parse_script s = map Ok ops @ map Err errs \<and> length ops + length errs \<le> length s \<and> length errs \<le> 1"
proof (induction s rule: length_induct)
  case (1 s)
  show ?case
  proof (cases s)
    case Nil
    then show ?thesis by (intro exI [of _ "[]"]) simp
  next
    case (Cons c it)
    obtain r rest where d: "opcode_deserialize c it = (r, rest)" by fastforce
    have len: "length rest \<le> length it" using opcode_deserialize_shrinks [of c it] by (simp add: d)
    show ?thesis
    proof (cases r)
      case (Ok op)
      have "length rest < length s" using len Cons by simp
      with 1 obtain ops errs where "parse_script rest = map Ok ops @ map Err errs"
        "length ops + length errs \<le> length rest" "length errs \<le> 1" by blast
      then show ?thesis using len by (intro exI [of _ "op # ops"] exI [of _ errs]) (simp add: Cons parse_script_Cons d Ok)
    next
      case (Err e)
      then show ?thesis using failed_deserialize [OF d]
        by (intro exI [of _ "[]"] exI [of _ "[e]"]) (simp add: Cons parse_script_Cons d)
    next
      case Panic
      then show ?thesis using failed_deserialize [OF d] by simp
    qed
  qed
qed

end
