(* ===== verification/Addresses.thy ===== *)
theory Addresses
  imports Prelude_Zkas
begin

text \<open>
  Address strings (\<^verbatim>\<open>crypto/addresses/src/lib.rs\<close> and \<^verbatim>\<open>bech32.rs\<close>): prefixes and versions, the regrouping of
  bytes into five-bit digits and back, the 40-bit checksum, and the two conversions between an address and its
  string. Strings are their bytes. The regrouping loops keep the source's 16-bit buffer; the invariant
  \<open>regrouped\<close> reads both sides as numbers, so that the round trip is arithmetic.
\<close>

unbundle bit_operations_syntax

section \<open>Prefix, version, address\<close>

datatype address_error =
    InvalidPrefix bytes
  | MissingPrefix
  | InvalidVersion u8
  | InvalidVersionString bytes
  | DecodingError u8
  | BadChecksumSize
  | BadChecksum
  | BadPayload
  | InvalidAddress
  | InvalidAddressArray
  | WASM bytes

datatype prefix = Mainnet | Testnet | Simnet | Devnet | KaspaMainnet

abbreviation ascii :: "string \<Rightarrow> bytes" where
  "ascii s \<equiv> map of_char s"

primrec prefix_as_str :: "prefix \<Rightarrow> bytes" where
  "prefix_as_str Mainnet = ascii ''zkas''"
| "prefix_as_str Testnet = ascii ''zkastest''"
| "prefix_as_str Simnet = ascii ''zkassim''"
| "prefix_as_str Devnet = ascii ''zkasdev''"
| "prefix_as_str KaspaMainnet = ascii ''kaspa''"

definition prefix_try_from :: "bytes \<Rightarrow> (address_error, prefix) outcome" where
  "prefix_try_from prefix =
     (if prefix = ascii ''zkas'' \<or> prefix = ascii ''firecash'' then Ok Mainnet
      else if prefix = ascii ''zkastest'' \<or> prefix = ascii ''firecashtest'' then Ok Testnet
      else if prefix = ascii ''zkassim'' \<or> prefix = ascii ''firecashsim'' then Ok Simnet
      else if prefix = ascii ''zkasdev'' \<or> prefix = ascii ''firecashdev'' then Ok Devnet
      else if prefix = ascii ''kaspa'' then Ok KaspaMainnet
      else Err (InvalidPrefix prefix))"

datatype address_version = VPubKey | VPubKeyECDSA | VScriptHash | VShieldedOrchard

primrec version_byte :: "address_version \<Rightarrow> u8" where
  "version_byte VPubKey = 0"
| "version_byte VPubKeyECDSA = 1"
| "version_byte VScriptHash = 8"
| "version_byte VShieldedOrchard = 9"

primrec public_key_len :: "address_version \<Rightarrow> nat" where
  "public_key_len VPubKey = 32"
| "public_key_len VPubKeyECDSA = 33"
| "public_key_len VScriptHash = 32"
| "public_key_len VShieldedOrchard = 43"

definition version_is_shielded :: "address_version \<Rightarrow> bool" where
  "version_is_shielded v \<longleftrightarrow> v = VShieldedOrchard"

definition version_try_from :: "u8 \<Rightarrow> (address_error, address_version) outcome" where
  "version_try_from value =
     (if value = 0 then Ok VPubKey else if value = 1 then Ok VPubKeyECDSA
      else if value = 8 then Ok VScriptHash else if value = 9 then Ok VShieldedOrchard
      else Err (InvalidVersion value))"

definition version_try_from_str :: "bytes \<Rightarrow> (address_error, address_version) outcome" where
  "version_try_from_str value =
     (if value = ascii ''PubKey'' then Ok VPubKey else if value = ascii ''PubKeyECDSA'' then Ok VPubKeyECDSA
      else if value = ascii ''ScriptHash'' then Ok VScriptHash else if value = ascii ''ShieldedOrchard'' then Ok VShieldedOrchard
      else Err (InvalidVersionString value))"

record address =
  ad_prefix :: prefix
  ad_version :: address_version
  ad_payload :: bytes

definition address_new :: "prefix \<Rightarrow> address_version \<Rightarrow> bytes \<Rightarrow> ('e, address) outcome" where
  "address_new prefix version payload =
     (if length payload = public_key_len version
      then Ok \<lparr>ad_prefix = prefix, ad_version = version, ad_payload = payload\<rparr> else Panic)"

section \<open>Bech32\<close>

definition CHARSET :: bytes where
  "CHARSET = ascii ''qpzry9x8gf2tvdw0s3jn54khce6mua7l''"

definition REV_CHARSET :: "u8 list" where
  "REV_CHARSET =
     replicate 48 100 @ [15, 100, 10, 17, 21, 20, 26, 30, 7, 5] @ replicate 39 100 @
     [29, 100, 24, 13, 25, 9, 8, 23, 100, 18, 22, 31, 27, 19, 100, 1, 0, 3, 16, 11, 28, 12, 14, 6, 4, 2]"

definition polymod_step :: "u64 \<Rightarrow> u8 \<Rightarrow> u64" where
  "polymod_step c d =
     (let c0 = drop_bit 35 c;
          c = push_bit 5 (c AND 0x07ffffffff) XOR ucast d;
          c = (if c0 AND 0x01 \<noteq> 0 then c XOR 0x98f2bc8e61 else c);
          c = (if c0 AND 0x02 \<noteq> 0 then c XOR 0x79b76d99e2 else c);
          c = (if c0 AND 0x04 \<noteq> 0 then c XOR 0xf33e5fb3c4 else c);
          c = (if c0 AND 0x08 \<noteq> 0 then c XOR 0xae2eabe2a8 else c)
      in (if c0 AND 0x10 \<noteq> 0 then c XOR 0x1e4f43e470 else c))"

definition polymod :: "bytes \<Rightarrow> u64" where
  "polymod values = foldl polymod_step 1 values XOR 1"

definition checksum :: "bytes \<Rightarrow> bytes \<Rightarrow> u64" where
  "checksum payload prefix = polymod (prefix @ [0] @ payload @ replicate 8 0)"

text \<open>
  The regrouping loops write the next free cell of a zeroed array of length \<open>cells\<close>; \<open>out\<close> is the part already
  written, and a write past the end panics.
\<close>

definition write_cell :: "nat \<Rightarrow> u8 \<Rightarrow> bytes \<Rightarrow> ('e, bytes) outcome" where
  "write_cell cells v out = (if length out < cells then Ok (out @ [v]) else Panic)"

function drain_bits :: "nat \<Rightarrow> nat \<Rightarrow> u16 \<Rightarrow> nat \<Rightarrow> bytes \<Rightarrow> ('e, u16 \<times> nat \<times> bytes) outcome" where
  "drain_bits w cells buff bits out =
     (if 0 < w \<and> w \<le> bits then
        bind_outcome (write_cell cells (ucast (drop_bit (bits - w) buff)) out) (\<lambda>out.
          drain_bits w cells (buff AND (push_bit (bits - w) 1 - 1)) (bits - w) out)
      else Ok (buff, bits, out))"
  by pat_completeness auto
termination by (relation "measure (\<lambda>(w, cells, buff, bits, out). bits)") auto

declare drain_bits.simps [simp del]

primrec regroup :: "nat \<Rightarrow> nat \<Rightarrow> nat \<Rightarrow> bytes \<Rightarrow> u16 \<Rightarrow> nat \<Rightarrow> bytes \<Rightarrow> ('e, u16 \<times> nat \<times> bytes) outcome" where
  "regroup from_w to_w cells [] buff bits out = Ok (buff, bits, out)"
| "regroup from_w to_w cells (c # payload) buff bits out =
     bind_outcome (drain_bits to_w cells (push_bit from_w buff OR ucast c) (bits + from_w) out) (\<lambda>(buff, bits, out).
       regroup from_w to_w cells payload buff bits out)"

definition conv8to5 :: "bytes \<Rightarrow> ('e, bytes) outcome" where
  "conv8to5 payload =
     (let padding = (if length payload mod 5 = 0 then 0 else 1);
          cells = length payload * 8 div 5 + padding
      in bind_outcome (regroup 8 5 cells payload 0 0 []) (\<lambda>(buff, bits, out).
         bind_outcome (if 0 < bits then write_cell cells (ucast (push_bit (5 - bits) buff)) out else Ok out) (\<lambda>out.
           Ok (out @ replicate (cells - length out) 0))))"

definition conv5to8 :: "bytes \<Rightarrow> ('e, bytes) outcome" where
  "conv5to8 payload =
     (let cells = length payload * 5 div 8
      in bind_outcome (regroup 5 8 cells payload 0 0 []) (\<lambda>(buff, bits, out).
         Ok (out @ replicate (cells - length out) 0)))"

definition encode_payload :: "address \<Rightarrow> ('e, bytes) outcome" where
  "encode_payload a =
     bind_outcome (conv8to5 (version_byte (ad_version a) # ad_payload a)) (\<lambda>fivebit_payload.
     let fivebit_prefix = map (\<lambda>c. c AND 0x1f) (prefix_as_str (ad_prefix a));
         cs = checksum fivebit_payload fivebit_prefix
     in bind_outcome (conv8to5 (drop 3 (to_be_bytes cs))) (\<lambda>cs5.
          map_outcome (\<lambda>c. nth_p CHARSET (unat c)) (fivebit_payload @ cs5)))"

definition rev_char :: "u8 \<Rightarrow> u8" where
  "rev_char b = (if unat b < length REV_CHARSET then REV_CHARSET ! unat b else 100)"

definition decode_payload :: "prefix \<Rightarrow> bytes \<Rightarrow> bytes \<Rightarrow> (address_error, address) outcome" where
  "decode_payload prefix hrp address =
     (case find (\<lambda>b. rev_char b = 100) address of
        Some b \<Rightarrow> Err (DecodingError b)
      | None \<Rightarrow>
          let address_u5 = map rev_char address
          in if length address < 8 then Err BadPayload
             else let payload_u5 = take (length address - 8) address_u5;
                      checksum_u5 = drop (length address - 8) address_u5;
                      fivebit_prefix = map (\<lambda>c. c AND 0x1f) hrp
                  in bind_outcome (conv5to8 checksum_u5) (\<lambda>cs_bytes.
                     let bs = replicate 3 0 @ cs_bytes
                     in if length bs \<noteq> 8 then Err BadChecksumSize
                        else if checksum payload_u5 fivebit_prefix \<noteq> from_be_bytes bs then Err BadChecksum
                        else bind_outcome (conv5to8 payload_u5) (\<lambda>payload_u8.
                             case payload_u8 of
                               [] \<Rightarrow> Panic
                             | v # payload \<Rightarrow>
                                 bind_outcome (version_try_from v) (\<lambda>version. address_new prefix version payload))))"

definition address_to_string :: "address \<Rightarrow> ('e, bytes) outcome" where
  "address_to_string a = bind_outcome (encode_payload a) (\<lambda>p. Ok (prefix_as_str (ad_prefix a) @ [0x3a] @ p))"

definition address_try_from :: "bytes \<Rightarrow> (address_error, address) outcome" where
  "address_try_from value =
     (let prefix = takeWhile (\<lambda>b. b \<noteq> 0x3a) value
      in case dropWhile (\<lambda>b. b \<noteq> 0x3a) value of
           [] \<Rightarrow> Err MissingPrefix
         | _ # payload \<Rightarrow> bind_outcome (prefix_try_from prefix) (\<lambda>p. decode_payload p prefix payload))"

section \<open>Regrouping as arithmetic\<close>

definition digits_val :: "nat \<Rightarrow> bytes \<Rightarrow> nat" where
  "digits_val w xs = foldl (\<lambda>a x. a * 2 ^ w + unat x) 0 xs"

lemma digits_val_snoc [simp]: "digits_val w (xs @ [x]) = digits_val w xs * 2 ^ w + unat x" "digits_val w [] = 0"
  by (simp_all add: digits_val_def)

definition digits :: "nat \<Rightarrow> bytes \<Rightarrow> bool" where
  "digits w xs \<longleftrightarrow> (\<forall>x \<in> set xs. unat x < 2 ^ w)"

text \<open>
  \<open>regrouped\<close>: the digits consumed so far are the digits written followed by the bits still in the buffer.
\<close>

definition regrouped :: "nat \<Rightarrow> nat \<Rightarrow> bytes \<Rightarrow> u16 \<times> nat \<times> bytes \<Rightarrow> bool" where
  "regrouped from_w to_w done st \<longleftrightarrow>
     (case st of (buff, bits, out) \<Rightarrow>
        digits_val from_w done = digits_val to_w out * 2 ^ bits + unat buff \<and> unat buff < 2 ^ bits \<and>
        from_w * length done = to_w * length out + bits \<and> digits to_w out)"

lemma unat_mask: "unat (x AND (push_bit b 1 - 1)) = unat x mod 2 ^ b" for x :: "'w::len word"
proof -
  have "x AND (push_bit b 1 - 1) = take_bit b x" by (simp add: take_bit_eq_mask mask_eq_exp_minus_1)
  also have "unat (take_bit b x) = take_bit b (unat x)" by (rule unsigned_take_bit_eq)
  finally show ?thesis by (simp add: take_bit_eq_mod)
qed

lemma unat_drop_bit: "unat (drop_bit b x) = unat x div 2 ^ b" for x :: "'w::len word"
  using unat_drop_bit_eq [of b x] by (simp only: drop_bit_eq_div [of b "unat x"])

lemma drain_bits_rule:
  assumes "regrouped from_w to_w done (buff, bits, out)" "0 < to_w" "to_w \<le> 8"
    "from_w * length done \<le> to_w * cells + (to_w - 1)"
  shows "\<exists>st. (drain_bits to_w cells buff bits out :: ('e, _) outcome) = Ok st \<and> regrouped from_w to_w done st \<and> fst (snd st) < to_w"
  using assms
proof (induction bits arbitrary: buff out rule: less_induct)
  case (less bits)
  show ?case
  proof (cases "to_w \<le> bits")
    case True
    let ?b = "bits - to_w" let ?d = "unat buff div 2 ^ ?b"
    have bits: "(2 :: nat) ^ bits = 2 ^ ?b * 2 ^ to_w" using True by (simp add: power_add [symmetric])
    have inv: "digits_val from_w done = digits_val to_w out * 2 ^ bits + unat buff" "unat buff < 2 ^ bits"
      "from_w * length done = to_w * length out + bits" "digits to_w out"
      using less.prems(1) by (auto simp: regrouped_def)
    have d: "?d < 2 ^ to_w" using inv(2) bits by (simp add: less_mult_imp_div_less mult.commute)
    moreover have "(2 :: nat) ^ to_w \<le> 2 ^ 8" using less.prems(3) by (intro power_increasing) simp_all
    ultimately have cell: "unat (ucast (drop_bit ?b buff) :: u8) = ?d"
      using unat_drop_bit [of ?b buff] by (simp add: unsigned_ucast_eq take_bit_eq_mod del: drop_bit_eq_div)
    have "to_w * length out + to_w \<le> to_w * cells + (to_w - 1)" using less.prems(4) inv(3) True by linarith
    then have "to_w * length out < to_w * cells" using less.prems(2) by linarith
    then have room: "length out < cells" by simp
    have eq: "digits_val to_w out * 2 ^ bits + unat buff =
        (digits_val to_w out * 2 ^ to_w + ?d) * 2 ^ ?b + unat buff mod 2 ^ ?b"
      using div_mult_mod_eq [of "unat buff" "2 ^ ?b"] by (simp add: bits algebra_simps)
    have step: "regrouped from_w to_w done (buff AND (push_bit ?b 1 - 1), ?b, out @ [ucast (drop_bit ?b buff)])"
      using inv True d eq by (auto simp: regrouped_def unat_mask [simplified] cell digits_def)
    have "?b < bits" using less.prems(2) True by simp
    from less.IH [OF this step less.prems(2-4)] show ?thesis
      using True less.prems(2) room by (subst drain_bits.simps) (simp add: write_cell_def)
  next
    case False
    then show ?thesis using less.prems(1) by (subst drain_bits.simps) simp
  qed
qed

lemma unat_push_or:
  fixes buff :: u16 and c :: u8
  assumes "unat buff < 2 ^ 8" "w \<le> 8" "unat c < 2 ^ w"
  shows "unat (push_bit w buff OR ucast c) = unat buff * 2 ^ w + unat c"
proof -
  have "unat (take_bit w c) = unat c" using assms(3) by (simp only: unsigned_take_bit_eq take_bit_nat_eq_self)
  then have "c = take_bit w c" by (metis unsigned_word_eqI)
  then have hi: "\<not> bit c n" if "w \<le> n" for n by (metis bit_take_bit_iff not_less that)
  have "push_bit w buff OR ucast c = push_bit w buff + ucast c"
    by (rule sym, rule disjunctive_add) (auto simp: bit_simps hi)
  also have "\<dots> = of_nat (unat buff * 2 ^ w + unat c)" by (simp add: push_bit_eq_mult of_nat_unat)
  finally have eq: "push_bit w buff OR ucast c = (of_nat (unat buff * 2 ^ w + unat c) :: u16)" .
  have "unat buff * 2 ^ w + unat c < 2 ^ 16"
  proof -
    have "unat buff * 2 ^ w + unat c < (unat buff + 1) * 2 ^ w" using assms(3) by simp
    also have "\<dots> \<le> 2 ^ 8 * 2 ^ w" using assms(1) by (intro mult_right_mono) simp_all
    also have "\<dots> \<le> 2 ^ 8 * 2 ^ 8" using assms(2) by (intro mult_left_mono power_increasing) simp_all
    finally show ?thesis by simp
  qed
  then have "unat (of_nat (unat buff * 2 ^ w + unat c) :: u16) = unat buff * 2 ^ w + unat c"
    by (subst unat_of_nat) simp
  then show ?thesis by (simp only: eq)
qed

lemma regroup_rule:
  assumes "regrouped from_w to_w done (buff, bits, out)" "bits < to_w" "digits from_w payload" "from_w \<le> 8" "0 < to_w" "to_w \<le> 8"
    "from_w * (length done + length payload) \<le> to_w * cells + (to_w - 1)"
  shows "\<exists>st. (regroup from_w to_w cells payload buff bits out :: ('e, _) outcome) = Ok st \<and>
    regrouped from_w to_w (done @ payload) st \<and> fst (snd st) < to_w"
  using assms
proof (induction payload arbitrary: "done" buff bits out)
  case (Cons c payload)
  let ?buff = "push_bit from_w buff OR ucast c"
  have inv: "digits_val from_w done = digits_val to_w out * 2 ^ bits + unat buff" "unat buff < 2 ^ bits"
    "from_w * length done = to_w * length out + bits" "digits to_w out" and c: "unat c < 2 ^ from_w"
    using Cons.prems(1,3) by (auto simp: regrouped_def digits_def)
  have "(2 :: nat) ^ bits \<le> 2 ^ 8" using Cons.prems(2,6) by (intro power_increasing) simp_all
  then have buff: "unat ?buff = unat buff * 2 ^ from_w + unat c"
    using inv(2) Cons.prems(4) c by (intro unat_push_or) simp_all
  have "unat buff * 2 ^ from_w + unat c < (unat buff + 1) * 2 ^ from_w" using c by simp
  also have "\<dots> \<le> 2 ^ bits * 2 ^ from_w" using inv(2) by (intro mult_right_mono) simp_all
  finally have less: "unat ?buff < 2 ^ (bits + from_w)" by (simp add: buff power_add)
  have step: "regrouped from_w to_w (done @ [c]) (?buff, bits + from_w, out)"
    using inv less by (simp add: regrouped_def buff power_add algebra_simps)
  have room: "from_w * length (done @ [c]) \<le> to_w * cells + (to_w - 1)"
    using Cons.prems(7) by (simp add: algebra_simps)
  obtain buff' bits' out' where st: "(drain_bits to_w cells ?buff (bits + from_w) out :: ('e, _) outcome) = Ok (buff', bits', out')"
    "regrouped from_w to_w (done @ [c]) (buff', bits', out')" "bits' < to_w"
    using drain_bits_rule [OF step Cons.prems(5,6) room, where 'e = 'e] by auto
  have "\<exists>st. (regroup from_w to_w cells payload buff' bits' out' :: ('e, _) outcome) = Ok st \<and>
    regrouped from_w to_w ((done @ [c]) @ payload) st \<and> fst (snd st) < to_w"
    using Cons.prems by (intro Cons.IH [OF st(2,3)]) (simp_all add: digits_def)
  then show ?case using st(1) by simp
qed auto

lemma regrouped_start [simp]: "regrouped from_w to_w [] (0, 0, [])"
  by (simp add: regrouped_def digits_def)

lemma conv5to8_rule:
  assumes "digits 5 payload"
  shows "\<exists>r buff bits. (conv5to8 payload :: ('e, _) outcome) = Ok r \<and> digits_val 5 payload = digits_val 8 r * 2 ^ bits + buff \<and>
    buff < 2 ^ bits \<and> bits < 8 \<and> 5 * length payload = 8 * length r + bits"
proof -
  let ?cells = "length payload * 5 div 8"
  have "5 * (length ([] :: bytes) + length payload) \<le> 8 * ?cells + (8 - 1)" by simp
  then have "\<exists>st. (regroup 5 8 ?cells payload 0 0 [] :: ('e, _) outcome) = Ok st \<and> regrouped 5 8 ([] @ payload) st \<and> fst (snd st) < 8"
    using assms by (intro regroup_rule) simp_all
  then obtain buff bits out where st: "(regroup 5 8 ?cells payload 0 0 [] :: ('e, _) outcome) = Ok (buff, bits, out)"
    "regrouped 5 8 payload (buff, bits, out)" "bits < 8" by auto
  have "5 * length payload = 8 * length out + bits" using st(2) by (simp add: regrouped_def)
  then have "length out = ?cells" using st(3) by (intro div_nat_eqI [symmetric]) simp_all
  then show ?thesis using st by (intro exI [of _ out] exI [of _ "unat buff"] exI [of _ bits]) (auto simp: conv5to8_def regrouped_def)
qed

lemma conv8to5_rule:
  "\<exists>r pad. (conv8to5 payload :: ('e, _) outcome) = Ok r \<and> digits 5 r \<and> digits_val 5 r = digits_val 8 payload * 2 ^ pad \<and>
    pad < 5 \<and> 5 * length r = 8 * length payload + pad"
proof -
  define cells where "cells = length payload * 8 div 5 + (if length payload mod 5 = 0 then 0 else 1)"
  have "length payload * 8 mod 5 = 0 \<longleftrightarrow> length payload mod 5 = 0"
    using coprime_dvd_mult_left_iff [of "5 :: nat" 8 "length payload"] by (simp add: mod_eq_0_iff_dvd coprime_iff_gcd_eq_1 gcd_non_0_nat)
  then have cells: "8 * length payload \<le> 5 * cells" "5 * cells < 8 * length payload + 5"
  proof -
    obtain q r where qr: "q = length payload * 8 div 5" "r = length payload * 8 mod 5" by blast
    have eq: "5 * q + r = 8 * length payload" "r < 5" using qr div_mult_mod_eq [of "length payload * 8" 5] by simp_all
    have "cells = (if r = 0 then q else q + 1)" using \<open>_ \<longleftrightarrow> length payload mod 5 = 0\<close> qr by (simp add: cells_def)
    then show "8 * length payload \<le> 5 * cells" "5 * cells < 8 * length payload + 5" using eq by (auto split: if_splits)
  qed
  have conv: "(conv8to5 payload :: ('e, _) outcome) =
      bind_outcome (regroup 8 5 cells payload 0 0 []) (\<lambda>(buff, bits, out).
         bind_outcome (if 0 < bits then write_cell cells (ucast (push_bit (5 - bits) buff)) out else Ok out) (\<lambda>out.
           Ok (out @ replicate (cells - length out) 0)))"
    by (simp only: conv8to5_def cells_def Let_def)
  have "digits 8 payload" using unat_less [where 'w = 8] by (simp add: digits_def)
  moreover have "8 * (length ([] :: bytes) + length payload) \<le> 5 * cells + (5 - 1)" using cells(1) by simp
  ultimately have "\<exists>st. (regroup 8 5 cells payload 0 0 [] :: ('e, _) outcome) = Ok st \<and> regrouped 8 5 ([] @ payload) st \<and> fst (snd st) < 5"
    by (intro regroup_rule) simp_all
  then obtain buff bits out where st: "(regroup 8 5 cells payload 0 0 [] :: ('e, _) outcome) = Ok (buff, bits, out)"
    "regrouped 8 5 payload (buff, bits, out)" "bits < 5" by auto
  from st(2) have inv: "digits_val 8 payload = digits_val 5 out * 2 ^ bits + unat buff" "unat buff < 2 ^ bits"
    "8 * length payload = 5 * length out + bits" "digits 5 out" by (auto simp: regrouped_def)
  show ?thesis
  proof (cases "bits = 0")
    case True
    then have "length out = cells" using inv(3) cells by linarith
    then show ?thesis using st(1) True inv
      by (intro exI [of _ out] exI [of _ 0]) (simp add: conv)
  next
    case False
    let ?v = "ucast (push_bit (5 - bits) buff) :: u8"
    have len: "length out + 1 = cells" using inv(3) cells st(3) False by linarith
    have p5: "(2 :: nat) ^ bits * 2 ^ (5 - bits) = 32" using st(3) by (simp add: power_add [symmetric])
    have v: "unat buff * 2 ^ (5 - bits) < 32"
      using mult_strict_right_mono [OF inv(2), of "2 ^ (5 - bits)"] p5 by simp
    then have "unat (push_bit (5 - bits) buff) = unat buff * 2 ^ (5 - bits)"
      by (simp only: unsigned_push_bit_eq push_bit_eq_mult [of "5 - bits" "unat buff"]) (simp add: take_bit_nat_eq_self)
    then have cell: "unat ?v = unat buff * 2 ^ (5 - bits)"
      using v by (simp only: unsigned_ucast_eq) (simp add: take_bit_nat_eq_self)
    have "digits_val 5 (out @ [?v]) = digits_val 8 payload * 2 ^ (5 - bits)"
      using inv(1) p5 by (simp add: cell algebra_simps)
    then show ?thesis using st(1,3) False inv len v cell
      by (intro exI [of _ "out @ [?v]"] exI [of _ "5 - bits"]) (auto simp: conv write_cell_def digits_def)
  qed
qed

lemma digits_val_le_nat: "digits_val 8 xs = le_nat (rev xs)"
  by (induction xs rule: rev_induct) simp_all

lemma digits_val_inject: "digits_val 8 xs = digits_val 8 ys \<Longrightarrow> length xs = length ys \<Longrightarrow> xs = ys"
  unfolding digits_val_le_nat using le_bytes_le_nat [of "rev xs"] le_bytes_le_nat [of "rev ys"] by simp

lemma regroup_roundtrip:
  "\<exists>r. (conv8to5 xs :: ('e, _) outcome) = Ok r \<and> digits 5 r \<and> (conv5to8 r :: ('f, _) outcome) = Ok xs \<and>
    length r = (8 * length xs + 4) div 5"
proof -
  obtain r pad where r: "(conv8to5 xs :: ('e, _) outcome) = Ok r" "digits 5 r" "digits_val 5 r = digits_val 8 xs * 2 ^ pad"
    "pad < 5" "5 * length r = 8 * length xs + pad" using conv8to5_rule by blast
  obtain ys buff bits where ys: "(conv5to8 r :: ('f, _) outcome) = Ok ys" "digits_val 5 r = digits_val 8 ys * 2 ^ bits + buff"
    "buff < 2 ^ bits" "bits < 8" "5 * length r = 8 * length ys + bits" using conv5to8_rule [OF r(2)] by blast
  have len: "length ys = length xs" using r(4,5) ys(4,5) by linarith
  then have bits: "bits = pad" using r(5) ys(5) by simp
  have "digits_val 8 xs = (digits_val 8 ys * 2 ^ pad + buff) div 2 ^ pad" using r(3) ys(2) bits by simp
  also have "\<dots> = digits_val 8 ys" using ys(3) bits by simp
  finally have "xs = ys" using len by (intro digits_val_inject) simp_all
  then show ?thesis using r ys(1) by auto
qed

section \<open>Round trip\<close>

lemma polymod_step_bound: "take_bit 40 (polymod_step c d) = polymod_step c d"
proof -
  have "take_bit 40 (push_bit 5 (c AND 0x07ffffffff)) = push_bit 5 (c AND 0x07ffffffff)"
  proof -
    have "c AND 0x07ffffffff = take_bit 35 c" by (simp add: take_bit_eq_mask mask_eq_exp_minus_1)
    then show ?thesis by (simp add: take_bit_push_bit)
  qed
  moreover have "take_bit 40 (ucast d :: u64) = ucast d" by (rule bit_word_eqI) (auto simp: bit_simps dest: bit_imp_le_length)
  ultimately show ?thesis by (simp add: polymod_step_def Let_def take_bit_xor)
qed

lemma polymod_bound: "unat (polymod vs) < 2 ^ 40"
proof -
  have "take_bit 40 (foldl polymod_step 1 vs) = foldl polymod_step 1 vs"
    by (induction vs rule: rev_induct) (simp_all add: polymod_step_bound)
  then have "take_bit 40 (polymod vs) = polymod vs" by (simp add: polymod_def take_bit_xor)
  then have "unat (polymod vs) = take_bit 40 (unat (polymod vs))" by (metis unsigned_take_bit_eq)
  then show ?thesis by (metis take_bit_nat_less_exp)
qed

lemma le_bytes_add: "le_bytes (a + b) n = le_bytes a n @ le_bytes b (n div 256 ^ a)"
  by (induction a arbitrary: n) (simp_all add: div_mult2_eq)

lemma le_bytes_0 [simp]: "le_bytes k 0 = replicate k 0"
  by (induction k) simp_all

lemma checksum_bytes: "unat w < 2 ^ 40 \<Longrightarrow> replicate 3 0 @ drop 3 (to_be_bytes (w :: u64)) = to_be_bytes w"
proof -
  assume "unat w < 2 ^ 40"
  then have "unat w div 256 ^ 5 = 0" by simp
  then have "le_bytes (5 + 3) (unat w) = le_bytes 5 (unat w) @ replicate 3 0" by (simp only: le_bytes_add le_bytes_0)
  then have "to_be_bytes w = replicate 3 0 @ rev (le_bytes 5 (unat w))" by (simp add: to_be_bytes_def to_le_bytes_def)
  then show ?thesis by simp
qed

lemma charset_roundtrip:
  assumes "unat c < 32"
  shows "rev_char (CHARSET ! unat c) = c" "CHARSET ! unat c \<noteq> 0x3a"
proof -
  have "list_all (\<lambda>n. rev_char (CHARSET ! n) = of_nat n \<and> CHARSET ! n \<noteq> 0x3a) [0..<32]" by code_simp
  then show "rev_char (CHARSET ! unat c) = c" "CHARSET ! unat c \<noteq> 0x3a"
    using assms by (auto simp: list_all_iff)
qed

lemma charset_encode:
  assumes "digits 5 xs"
  shows "map_outcome (\<lambda>c. nth_p CHARSET (unat c)) xs = Ok (map (\<lambda>c. CHARSET ! unat c) xs)"
    "map rev_char (map (\<lambda>c. CHARSET ! unat c) xs) = xs"
    "find (\<lambda>b. rev_char b = 100) (map (\<lambda>c. CHARSET ! unat c) xs) = None"
proof -
  have len: "length CHARSET = 32" by (simp add: CHARSET_def)
  have "c \<noteq> 100" if "unat c < 32" for c :: u8 using that by auto
  then show "map_outcome (\<lambda>c. nth_p CHARSET (unat c)) xs = Ok (map (\<lambda>c. CHARSET ! unat c) xs)"
    "map rev_char (map (\<lambda>c. CHARSET ! unat c) xs) = xs"
    "find (\<lambda>b. rev_char b = 100) (map (\<lambda>c. CHARSET ! unat c) xs) = None"
    using assms by (induction xs) (auto simp: digits_def charset_roundtrip nth_p_less len)
qed

lemma decode_encoded:
  assumes "conv8to5 (v # payload) = (Ok five :: (address_error, _) outcome)" "digits 5 five" "conv5to8 five = (Ok (v # payload) :: (address_error, _) outcome)"
    and "conv8to5 (drop 3 (to_be_bytes cs)) = (Ok cs5 :: (address_error, _) outcome)" "digits 5 cs5"
      "conv5to8 cs5 = (Ok (drop 3 (to_be_bytes cs)) :: (address_error, _) outcome)" "length cs5 = 8"
    and "cs = checksum five (map (\<lambda>c. c AND 0x1f) hrp)"
  shows "decode_payload p hrp (map (\<lambda>c. CHARSET ! unat c) (five @ cs5)) =
    bind_outcome (version_try_from v) (\<lambda>version. address_new p version payload)"
proof -
  have d: "digits 5 (five @ cs5)" using assms(2,5) by (auto simp: digits_def)
  have "unat cs < 2 ^ 40" unfolding assms(8) checksum_def by (rule polymod_bound)
  then have "from_be_bytes (replicate 3 0 @ drop 3 (to_be_bytes cs)) = cs"
    by (simp only: checksum_bytes) (simp add: from_be_to_be)
  then show ?thesis using assms charset_encode [OF d]
    by (simp add: decode_payload_def Let_def del: map_append map_map)
qed

lemma prefix_roundtrip: "prefix_try_from (prefix_as_str p) = Ok p"
  by (cases p) (simp_all add: prefix_try_from_def)

lemma prefix_no_colon: "b \<in> set (prefix_as_str p) \<Longrightarrow> b \<noteq> 0x3a"
  by (cases p) auto

lemma version_roundtrip: "version_try_from (version_byte v) = Ok v"
  by (cases v) (simp_all add: version_try_from_def)

lemma split_prefix:
  "takeWhile (\<lambda>b. b \<noteq> 0x3a) (prefix_as_str p @ [0x3a] @ s) = prefix_as_str p"
  "dropWhile (\<lambda>b. b \<noteq> 0x3a) (prefix_as_str p @ [0x3a] @ s) = 0x3a # s"
  using prefix_no_colon [of _ p] by (subst takeWhile_append2 dropWhile_append2; auto)+

text \<open>
  C36. Every address has a string, and reading that string gives the address back when its payload has the length
  its version prescribes. When it has not, the string still carries a valid checksum, and reading it does not
  report an error: the constructor's length assertion panics.
\<close>

theorem address_string_roundtrip:
  "\<exists>s. (address_to_string a :: (address_error, bytes) outcome) = Ok s \<and>
     address_try_from s = (if length (ad_payload a) = public_key_len (ad_version a) then Ok a else Panic)"
proof -
  let ?v = "version_byte (ad_version a)" let ?hrp = "prefix_as_str (ad_prefix a)"
  obtain five where five: "(conv8to5 (?v # ad_payload a) :: (address_error, bytes) outcome) = Ok five" "digits 5 five"
    "(conv5to8 five :: (address_error, bytes) outcome) = Ok (?v # ad_payload a)"
    using regroup_roundtrip [of "?v # ad_payload a"] by blast
  define cs where "cs = checksum five (map (\<lambda>c. c AND 0x1f) ?hrp)"
  obtain cs5 where cs5: "(conv8to5 (drop 3 (to_be_bytes cs)) :: (address_error, bytes) outcome) = Ok cs5" "digits 5 cs5"
    "(conv5to8 cs5 :: (address_error, bytes) outcome) = Ok (drop 3 (to_be_bytes cs))"
    "length cs5 = (8 * length (drop 3 (to_be_bytes cs)) + 4) div 5"
    using regroup_roundtrip [of "drop 3 (to_be_bytes cs)"] by blast
  let ?s = "map (\<lambda>c. CHARSET ! unat c) (five @ cs5)"
  have "digits 5 (five @ cs5)" using five(2) cs5(2) by (auto simp: digits_def)
  then have "(address_to_string a :: (address_error, bytes) outcome) = Ok (?hrp @ [0x3a] @ ?s)"
    using five(1) cs5(1) by (simp add: address_to_string_def encode_payload_def cs_def [symmetric] charset_encode del: map_append)
  moreover have "length cs5 = 8" using cs5(4) by simp
  then have "decode_payload (ad_prefix a) ?hrp ?s = address_new (ad_prefix a) (ad_version a) (ad_payload a)"
    by (simp only: decode_encoded [OF five cs5(1-3) _ cs_def]) (simp add: version_roundtrip)
  then have "address_try_from (?hrp @ [0x3a] @ ?s) = address_new (ad_prefix a) (ad_version a) (ad_payload a)"
    by (simp only: address_try_from_def split_prefix Let_def) (simp add: prefix_roundtrip)
  ultimately show ?thesis by (simp add: address_new_def)
qed

end
