(* ===== verification/Script_Builder.thy ===== *)
theory Script_Builder
  imports Script_Parse Addresses
begin

text \<open>
  The script builder (\<^verbatim>\<open>crypto/txscript/src/script_builder.rs\<close>) and the standard scripts of \<^verbatim>\<open>standard.rs\<close> and
  \<^verbatim>\<open>standard/multisig.rs\<close>. A builder is the bytes written so far and the engine flags that set its limits. The
  hash of a redeem script is the parameter \<open>blake2b\<close>. The lemmas give the opcodes each builder call adds, as
  \<open>parse_script\<close> reads them back.
\<close>

section \<open>Builder\<close>

datatype script_builder_error =
    OpCodeRejected u8 nat
  | OpCodesRejected nat nat
  | DataRejected nat nat
  | ElementExceedsMaxSize nat nat
  | IntegerRejected int nat
  | ExplicitDataPushRejected
  | BuilderSerialization serialization_error

record script_builder =
  sb_script :: bytes
  sb_flags :: engine_flags

definition with_flags :: "engine_flags \<Rightarrow> script_builder" where
  "with_flags flags = \<lparr>sb_script = [], sb_flags = flags\<rparr>"

definition script_builder_new :: "('e, script_builder) outcome" where
  "script_builder_new = bind_outcome engine_flags_default (\<lambda>flags. Ok (with_flags flags))"

abbreviation emit :: "bytes \<Rightarrow> script_builder \<Rightarrow> script_builder" where
  "emit bs b \<equiv> b\<lparr>sb_script := sb_script b @ bs\<rparr>"

definition add_op :: "u8 \<Rightarrow> script_builder \<Rightarrow> (script_builder_error, script_builder) outcome" where
  "add_op opcode b =
     (let limit = max_scripts_size (ef_covenants_enabled (sb_flags b))
      in if limit \<le> length (sb_script b) then Err (OpCodeRejected opcode limit) else Ok (emit [opcode] b))"

definition add_ops :: "u8 list \<Rightarrow> script_builder \<Rightarrow> (script_builder_error, script_builder) outcome" where
  "add_ops opcodes b =
     (let limit = max_scripts_size (ef_covenants_enabled (sb_flags b))
      in if limit < length (sb_script b) + length opcodes then Err (OpCodesRejected (length opcodes) limit) else Ok (emit opcodes b))"

definition explicit_push_encoded_size :: "nat \<Rightarrow> nat" where
  "explicit_push_encoded_size data_len =
     data_len + (if data_len \<le> 75 then 1 else if data_len \<le> 255 then 2 else if data_len \<le> 65535 then 3 else 5)"

definition canonical_data_size :: "bytes \<Rightarrow> nat" where
  "canonical_data_size data =
     (let data_len = length data
      in if data = [] \<or> (data_len = 1 \<and> (1 \<le> hd data \<and> hd data \<le> 16 \<or> hd data = 0x81)) then 1
         else data_len + (if data_len \<le> 75 then 1 else if data_len \<le> 255 then 2 else if data_len \<le> 65535 then 3 else 5))"

definition add_raw_data_with_data_opcode :: "bytes \<Rightarrow> script_builder \<Rightarrow> script_builder" where
  "add_raw_data_with_data_opcode data b =
     (let data_len = length data
      in if data_len = 0 then emit [OpFalse] b
         else emit ((if data_len \<le> 75 then [of_nat data_len]
                     else if data_len \<le> 255 then [OpPushData1, of_nat data_len]
                     else if data_len \<le> 65535 then OpPushData2 # to_le_bytes (of_nat data_len :: u16)
                     else OpPushData4 # to_le_bytes (of_nat data_len :: u32)) @ data) b)"

definition add_raw_data :: "bytes \<Rightarrow> script_builder \<Rightarrow> script_builder" where
  "add_raw_data data b =
     (if data = [0x81] then emit [Op1Negate] b
      else if length data = 1 \<and> 1 \<le> hd data \<and> hd data \<le> 16 then emit [(OpTrue - 1) + hd data] b
      else add_raw_data_with_data_opcode data b)"

definition validate_data_push :: "bytes \<Rightarrow> nat \<Rightarrow> script_builder \<Rightarrow> (script_builder_error, unit) outcome" where
  "validate_data_push data data_size b =
     (let c = ef_covenants_enabled (sb_flags b)
      in if max_scripts_size c < length (sb_script b) + data_size then Err (DataRejected data_size (max_scripts_size c))
         else if max_script_element_size c < length data then Err (ElementExceedsMaxSize (length data) (max_script_element_size c))
         else Ok ())"

definition add_data :: "bytes \<Rightarrow> script_builder \<Rightarrow> (script_builder_error, script_builder) outcome" where
  "add_data data b = bind_outcome (validate_data_push data (canonical_data_size data) b) (\<lambda>_. Ok (add_raw_data data b))"

definition add_data_with_push_opcode :: "bytes \<Rightarrow> script_builder \<Rightarrow> (script_builder_error, script_builder) outcome" where
  "add_data_with_push_opcode data b =
     (if \<not> ef_covenants_enabled (sb_flags b) then Err ExplicitDataPushRejected
      else bind_outcome (validate_data_push data (explicit_push_encoded_size (length data)) b) (\<lambda>_.
        Ok (add_raw_data_with_data_opcode data b)))"

definition add_i64 :: "int \<Rightarrow> script_builder \<Rightarrow> (script_builder_error, script_builder) outcome" where
  "add_i64 val b =
     (let limit = max_scripts_size (ef_covenants_enabled (sb_flags b))
      in if limit < length (sb_script b) + 1 then Err (IntegerRejected val limit)
         else if val = 0 then Ok (emit [OpFalse] b)
         else if val = -1 \<or> (1 \<le> val \<and> val \<le> 16) then Ok (emit [of_int (0x51 - 1 + val)] b)
         else bind_outcome (map_err BuilderSerialization (i64_to_entry val)) (\<lambda>bytes. add_data bytes b))"

definition add_i64_min :: "script_builder \<Rightarrow> (script_builder_error, script_builder) outcome" where
  "add_i64_min b =
     (case serialize_sized 9 (- (2 ^ 63)) of Ok bytes \<Rightarrow> add_data bytes b | _ \<Rightarrow> Panic)"

definition add_u64 :: "u64 \<Rightarrow> script_builder \<Rightarrow> (script_builder_error, script_builder) outcome" where
  "add_u64 val b = add_data (rev (dropWhile (\<lambda>x. x = 0) (rev (to_le_bytes val)))) b"

definition add_lock_time :: "u64 \<Rightarrow> script_builder \<Rightarrow> (script_builder_error, script_builder) outcome" where
  "add_lock_time lock_time b = add_u64 lock_time b"

definition add_sequence :: "u64 \<Rightarrow> script_builder \<Rightarrow> (script_builder_error, script_builder) outcome" where
  "add_sequence sequence b = add_u64 sequence b"

section \<open>Standard scripts\<close>

definition pay_to_pub_key :: "bytes \<Rightarrow> ('e, bytes) outcome" where
  "pay_to_pub_key address_payload =
     (if length address_payload = 32 then Ok ([OpData32] @ address_payload @ [OpCheckSig]) else Panic)"

definition pay_to_pub_key_ecdsa :: "bytes \<Rightarrow> ('e, bytes) outcome" where
  "pay_to_pub_key_ecdsa address_payload =
     (if length address_payload = 33 then Ok ([OpData33] @ address_payload @ [OpCheckSigECDSA]) else Panic)"

definition pay_to_script_hash :: "bytes \<Rightarrow> ('e, bytes) outcome" where
  "pay_to_script_hash script_hash =
     (if length script_hash = 32 then Ok ([OpBlake2b, OpData32] @ script_hash @ [OpEqual]) else Panic)"

text \<open>The length of the payload is a debug assertion in the code; release builds do not check it.\<close>

definition pay_to_shielded_address :: "bytes \<Rightarrow> bytes" where
  "pay_to_shielded_address address_payload = address_payload"

definition script_class_from_version :: "address_version \<Rightarrow> script_class" where
  "script_class_from_version v =
     (case v of VPubKey \<Rightarrow> PubKey | VPubKeyECDSA \<Rightarrow> PubKeyECDSA | VScriptHash \<Rightarrow> ScriptHash | VShieldedOrchard \<Rightarrow> NonStandard)"

definition pay_to_address_script :: "address \<Rightarrow> ('e, script_public_key) outcome" where
  "pay_to_address_script a =
     bind_outcome
       (case ad_version a of
          VPubKey \<Rightarrow> pay_to_pub_key (ad_payload a)
        | VPubKeyECDSA \<Rightarrow> pay_to_pub_key_ecdsa (ad_payload a)
        | VScriptHash \<Rightarrow> pay_to_script_hash (ad_payload a)
        | VShieldedOrchard \<Rightarrow> Ok (pay_to_shielded_address (ad_payload a)))
       (\<lambda>script. Ok \<lparr>spk_version = script_class_version (script_class_from_version (ad_version a)), spk_script = script\<rparr>)"

definition pay_to_script_hash_script :: "(bytes \<Rightarrow> bytes) \<Rightarrow> bytes \<Rightarrow> ('e, script_public_key) outcome" where
  "pay_to_script_hash_script blake2b redeem_script =
     bind_outcome (pay_to_script_hash (blake2b redeem_script)) (\<lambda>script.
       Ok \<lparr>spk_version = script_class_version ScriptHash, spk_script = script\<rparr>)"

definition pay_to_script_hash_signature_script_with_flags ::
  "bytes \<Rightarrow> bytes \<Rightarrow> engine_flags \<Rightarrow> (script_builder_error, bytes) outcome"
where
  "pay_to_script_hash_signature_script_with_flags redeem_script signature flags =
     bind_outcome (add_data redeem_script (with_flags flags)) (\<lambda>b. Ok (signature @ sb_script b))"

definition pay_to_script_hash_signature_script :: "bytes \<Rightarrow> bytes \<Rightarrow> (script_builder_error, bytes) outcome" where
  "pay_to_script_hash_signature_script redeem_script signature =
     bind_outcome engine_flags_default (\<lambda>flags. pay_to_script_hash_signature_script_with_flags redeem_script signature flags)"

definition extract_script_pub_key_address :: "script_public_key \<Rightarrow> prefix \<Rightarrow> (tx_script_error, address) outcome" where
  "extract_script_pub_key_address spk prefix =
     (let cls = script_class_from_script spk; script = spk_script spk
      in if script_class_version cls < spk_version spk then Err PubKeyFormat
         else case cls of
           NonStandard \<Rightarrow> Err PubKeyFormat
         | PubKey \<Rightarrow> address_new prefix VPubKey (take 32 (drop 1 script))
         | PubKeyECDSA \<Rightarrow> address_new prefix VPubKeyECDSA (take 33 (drop 1 script))
         | ScriptHash \<Rightarrow> address_new prefix VScriptHash (take 32 (drop 2 script)))"

section \<open>Multisig\<close>

datatype multisig_error = ErrTooManyRequiredSigs | MultisigBuilder script_builder_error | EmptyKeys

text \<open>
  \<open>upper\<close> is the upper bound of the key iterator's size hint. The two variants differ in the final opcode.
\<close>

definition multisig_script_for :: "u8 \<Rightarrow> nat option \<Rightarrow> bytes list \<Rightarrow> nat \<Rightarrow> (multisig_error, bytes) outcome" where
  "multisig_script_for check_op upper pub_keys required =
     (if (case upper of Some u \<Rightarrow> u < required | None \<Rightarrow> False) then Err ErrTooManyRequiredSigs
      else bind_outcome script_builder_new (\<lambda>b.
        bind_outcome (map_err MultisigBuilder (add_i64 (sint (of_nat required :: u64)) b)) (\<lambda>b.
        bind_outcome (map_err MultisigBuilder (fold_outcome add_data pub_keys b)) (\<lambda>b.
          if length pub_keys < required then Err ErrTooManyRequiredSigs
          else if length pub_keys = 0 then Err EmptyKeys
          else bind_outcome (map_err MultisigBuilder (add_i64 (int (length pub_keys)) b)) (\<lambda>b.
            bind_outcome (map_err MultisigBuilder (add_op check_op b)) (\<lambda>b. Ok (sb_script b)))))))"

definition multisig_redeem_script :: "nat option \<Rightarrow> bytes list \<Rightarrow> nat \<Rightarrow> (multisig_error, bytes) outcome" where
  "multisig_redeem_script upper pub_keys required = multisig_script_for OpCheckMultiSig upper pub_keys required"

definition multisig_redeem_script_ecdsa :: "nat option \<Rightarrow> bytes list \<Rightarrow> nat \<Rightarrow> (multisig_error, bytes) outcome" where
  "multisig_redeem_script_ecdsa upper pub_keys required = multisig_script_for OpCheckMultiSigECDSA upper pub_keys required"

section \<open>What the builder writes\<close>

definition num_op :: "int \<Rightarrow> opcode" where
  "num_op n = (if n = 0 then \<lparr>oc_code = OpFalse, oc_data = []\<rparr>
     else if n \<le> 16 then \<lparr>oc_code = of_int (0x50 + n), oc_data = []\<rparr>
     else \<lparr>oc_code = 1, oc_data = [of_int n]\<rparr>)"

definition key_op :: "bytes \<Rightarrow> opcode" where
  "key_op key = \<lparr>oc_code = OpData32, oc_data = key\<rparr>"

lemma opcode_lengths [simp]:
  "opcode_length_of 0 = StaticLength 1" "opcode_length_of 1 = StaticLength 2" "opcode_length_of OpData32 = StaticLength 33"
  "opcode_length_of OpCheckMultiSig = StaticLength 1"
  by (simp_all add: opcode_length_of_def)

lemma small_ints: "0 \<le> n \<Longrightarrow> n \<le> 20 \<Longrightarrow> n \<in> {0, 1, 2, 3, 4, 5, 6, 7, 8, 9, 10, 11, 12, 13, 14, 15, 16, 17, 18, 19, 20}"
  for n :: int
proof -
  assume "0 \<le> n" "n \<le> 20"
  then have "n \<in> set [0..20]" by simp
  also have "[0..20 :: int] = [0, 1, 2, 3, 4, 5, 6, 7, 8, 9, 10, 11, 12, 13, 14, 15, 16, 17, 18, 19, 20]" by (simp add: upto_rec1)
  finally show ?thesis by simp
qed

lemma num_op_ok: "0 \<le> n \<Longrightarrow> n \<le> 20 \<Longrightarrow> opcode_wf (num_op n) \<and> oc_code (num_op n) \<le> Op16"
  by (drule (1) small_ints, elim insertE emptyE) (simp_all add: num_op_def opcode_wf_iff opcode_length_of_def)

lemma small_entries:
  "i64_to_entry 17 = Ok [17]" "i64_to_entry 18 = Ok [18]" "i64_to_entry 19 = Ok [19]" "i64_to_entry 20 = Ok [20]"
  by (simp_all add: i64_to_entry_def serialize_sized_def serialize_i64_None magnitude_bytes_pos magnitude_bytes_0)

lemma add_i64_small:
  assumes "0 \<le> n" "n \<le> 20" "length (sb_script b) + 2 \<le> 10000"
  shows "add_i64 n b = Ok (emit (opcode_serialize (num_op n)) b)"
proof -
  have room: "\<not> max_scripts_size c < length (sb_script b) + 1" "\<not> max_scripts_size c < length (sb_script b) + 2" for c
    using assms(3) by (auto simp: max_scripts_size_def)
  have el: "\<not> max_script_element_size c < 1" for c
    by (simp add: max_script_element_size_def MAX_SCRIPT_ELEMENT_SIZE_POST_TOCCATA_def)
  show ?thesis using small_ints [OF assms(1,2)]
    by (elim insertE emptyE)
      (simp_all add: add_i64_def Let_def room [simplified] el [simplified] num_op_def opcode_serialize_def opcode_length_of_def small_entries
        add_data_def validate_data_push_def canonical_data_size_def add_raw_data_def add_raw_data_with_data_opcode_def)
qed

lemma add_data_key:
  assumes "length key = 32" "length (sb_script b) + 33 \<le> 10000"
  shows "add_data key b = Ok (emit (opcode_serialize (key_op key)) b)"
proof -
  have "\<not> max_scripts_size c < length (sb_script b) + 33" "\<not> max_script_element_size c < 32" for c
    using assms(2) by (auto simp: max_scripts_size_def max_script_element_size_def MAX_SCRIPT_ELEMENT_SIZE_POST_TOCCATA_def)
  moreover have "key \<noteq> []" "key \<noteq> [0x81]" using assms(1) by auto
  ultimately show ?thesis using assms(1)
    by (simp add: add_data_def validate_data_push_def canonical_data_size_def add_raw_data_def
        add_raw_data_with_data_opcode_def Let_def opcode_serialize_def key_op_def)
qed

lemma add_keys:
  "\<forall>k \<in> set keys. length k = 32 \<Longrightarrow> length (sb_script b) + 33 * length keys \<le> 10000 \<Longrightarrow>
   fold_outcome add_data keys b = Ok (emit (concat (map (opcode_serialize \<circ> key_op) keys)) b)"
proof (induction keys arbitrary: b)
  case (Cons k keys)
  have "length (opcode_serialize (key_op k)) = 33" using Cons.prems(1) by (simp add: opcode_serialize_def key_op_def)
  with Cons show ?case by (simp add: add_data_key)
qed simp

lemma num_op_serialized: "0 \<le> n \<Longrightarrow> n \<le> 20 \<Longrightarrow> length (opcode_serialize (num_op n)) \<le> 2"
  by (drule (1) small_ints, elim insertE emptyE) (simp_all add: num_op_def opcode_serialize_def opcode_length_of_def)

definition multisig_ops :: "bytes list \<Rightarrow> nat \<Rightarrow> opcode list" where
  "multisig_ops keys required =
     num_op (int required) # map key_op keys @ [num_op (int (length keys)), \<lparr>oc_code = OpCheckMultiSig, oc_data = []\<rparr>]"

lemma sint_small: "n \<le> 20 \<Longrightarrow> sint (of_nat n :: u64) = int n"
  by (simp add: signed_of_nat signed_take_bit_eq_if_positive not_le bit_iff_odd take_bit_int_eq_self)

lemma multisig_script:
  assumes "1 \<le> length keys" "length keys \<le> 20" "required \<le> length keys" "\<forall>k \<in> set keys. length k = 32"
  shows "multisig_redeem_script (Some (length keys)) keys required = Ok (concat (map opcode_serialize (multisig_ops keys required)))"
proof -
  have flags: "(engine_flags_default :: (multisig_error, _) outcome) = Ok \<lparr>ef_covenants_enabled = False, ef_sigop_script_units = 100000\<rparr>"
    by (simp add: engine_flags_default_def gram_to_script_units_def SCRIPT_UNITS_PER_GRAM_def checked_mul_def)
  let ?r = "opcode_serialize (num_op (int required))" let ?n = "opcode_serialize (num_op (int (length keys)))"
  let ?k = "concat (map (opcode_serialize \<circ> key_op) keys)"
  have len: "length ?r \<le> 2" "length ?n \<le> 2" using assms by (auto intro!: num_op_serialized)
  have "length ?k = 33 * length keys" using assms(4) by (induction keys) (auto simp: opcode_serialize_def key_op_def)
  then have "length ?k \<le> 660" using assms(2) by simp
  moreover have "opcode_serialize \<lparr>oc_code = OpCheckMultiSig, oc_data = []\<rparr> = [OpCheckMultiSig]"
    by (simp add: opcode_serialize_def)
  moreover have "keys \<noteq> []" using assms(1) by auto
  ultimately show ?thesis using len assms
    by (simp add: multisig_redeem_script_def multisig_script_for_def script_builder_new_def flags with_flags_def sint_small
        add_i64_small add_keys add_op_def max_scripts_size_def multisig_ops_def comp_def Let_def)
qed

lemma multisig_ops_wf:
  assumes "length keys \<le> 20" "required \<le> length keys" "\<forall>k \<in> set keys. length k = 32"
  shows "list_all opcode_wf (multisig_ops keys required)"
proof -
  have "list_all opcode_wf (map key_op keys)" using assms(3) by (auto simp: list_all_iff key_op_def opcode_wf_iff)
  moreover have "opcode_wf (num_op (int required))" "opcode_wf (num_op (int (length keys)))" using assms num_op_ok by auto
  moreover have "opcode_wf \<lparr>oc_code = OpCheckMultiSig, oc_data = []\<rparr>" by (simp add: opcode_wf_iff)
  ultimately show ?thesis by (simp add: multisig_ops_def)
qed

lemma sig_op_count_skip:
  "oc_code op \<le> Op16 \<Longrightarrow> sig_op_count_loop prev (Ok op # rs) n = sig_op_count_loop (Some op) rs n"
  by auto

lemma sig_op_count_keys:
  "sig_op_count_loop prev (map (Ok \<circ> key_op) keys @ Ok op # rs) n = sig_op_count_loop (Some op) rs n"
  if "oc_code op \<le> Op16"
  using that by (induction keys arbitrary: prev) (simp_all add: sig_op_count_skip key_op_def del: sig_op_count_loop.simps)

lemma small_int_count:
  assumes "1 \<le> n" "n \<le> 20"
  shows "sig_op_count_loop (Some (num_op (int n))) [Ok \<lparr>oc_code = OpCheckMultiSig, oc_data = []\<rparr>] 0 =
    (if n < 16 then Ok (of_nat n) else if n = 16 then Panic else Ok 20)"
proof -
  have "int n \<in> {1, 2, 3, 4, 5, 6, 7, 8, 9, 10, 11, 12, 13, 14, 15, 16, 17, 18, 19, 20}"
    using small_ints [of "int n"] assms by auto
  moreover have "\<not> OpTrue \<le> 1" by (simp add: word_le_nat_alt)
  ultimately show ?thesis
    by (elim insertE emptyE)
      (simp_all add: num_op_def to_small_int_def MAX_PUB_KEYS_PER_MUTLTISIG_def checked_add_def nat_eq_iff [symmetric])
qed

text \<open>
  C37. A multisig redeem script built from one to twenty keys parses to the required count, one 32-byte push per key,
  the key count and the multisig opcode. The static signature-operation count of the script is the number of
  keys up to fifteen, and the maximum of twenty from seventeen on; for sixteen keys the scan panics, because the
  range asserted by \<open>to_small_int\<close> leaves \<open>Op16\<close> out.
\<close>

theorem multisig_sig_op_count:
  assumes "1 \<le> length keys" "length keys \<le> 20" "required \<le> length keys" "\<forall>k \<in> set keys. length k = 32"
  shows "\<exists>script. multisig_redeem_script (Some (length keys)) keys required = Ok script \<and>
    parse_script script = map Ok (multisig_ops keys required) \<and>
    (get_sig_op_count_by_opcodes (parse_script script) :: (tx_script_error, u64) outcome) =
      (if length keys < 16 then Ok (of_nat (length keys)) else if length keys = 16 then Panic else Ok 20)"
proof -
  let ?ops = "multisig_ops keys required"
  have parse: "parse_script (concat (map opcode_serialize ?ops)) = map Ok ?ops"
    by (intro parse_serialized multisig_ops_wf assms)
  have codes: "oc_code (num_op (int required)) \<le> Op16" "oc_code (num_op (int (length keys))) \<le> Op16"
    using num_op_ok [of "int required"] num_op_ok [of "int (length keys)"] assms by auto
  have "(get_sig_op_count_by_opcodes (map Ok ?ops) :: (tx_script_error, u64) outcome) =
      sig_op_count_loop (Some (num_op (int (length keys)))) [Ok \<lparr>oc_code = OpCheckMultiSig, oc_data = []\<rparr>] 0"
    unfolding get_sig_op_count_by_opcodes_def multisig_ops_def list.map map_append map_map sig_op_count_skip [OF codes(1)]
      append_Cons append_Nil sig_op_count_keys [OF codes(2)] ..
  also have "\<dots> = (if length keys < 16 then Ok (of_nat (length keys)) else if length keys = 16 then Panic else Ok 20)"
    by (rule small_int_count [OF assms(1,2)])
  finally show ?thesis using multisig_script [OF assms] parse by simp
qed

theorem multisig_sig_op_count_witness:
  "\<exists>script. multisig_redeem_script (Some 16) (replicate 16 (replicate 32 7)) 11 = Ok script \<and>
     (get_sig_op_count_by_opcodes (parse_script script) :: (tx_script_error, u64) outcome) = Panic"
  using multisig_sig_op_count [of "replicate 16 (replicate 32 7)" 11] by auto

text \<open>
  C38. Paying to an address and reading the address back from the script give the address again for the three
  transparent versions; the carrier script of a shielded address is no standard script and yields no address.
\<close>

theorem address_script_roundtrip:
  assumes "length (ad_payload a) = public_key_len (ad_version a)"
  shows "\<exists>spk. (pay_to_address_script a :: (tx_script_error, script_public_key) outcome) = Ok spk \<and>
    extract_script_pub_key_address spk (ad_prefix a) = (if version_is_shielded (ad_version a) then Err PubKeyFormat else Ok a)"
proof (cases "ad_version a")
  case VPubKey
  then show ?thesis using assms
    by (simp add: pay_to_address_script_def pay_to_pub_key_def extract_script_pub_key_address_def script_class_from_script_def
        script_class_from_version_def script_class_version_def is_pay_to_pubkey_def address_new_def version_is_shielded_def nth_append Let_def)
next
  case VPubKeyECDSA
  then show ?thesis using assms
    by (simp add: pay_to_address_script_def pay_to_pub_key_ecdsa_def extract_script_pub_key_address_def script_class_from_script_def
        script_class_from_version_def script_class_version_def is_pay_to_pubkey_def is_pay_to_pubkey_ecdsa_def address_new_def
        version_is_shielded_def nth_append Let_def)
next
  case VScriptHash
  then show ?thesis using assms
    by (simp add: pay_to_address_script_def pay_to_script_hash_def extract_script_pub_key_address_def script_class_from_script_def
        script_class_from_version_def script_class_version_def is_pay_to_pubkey_def is_pay_to_pubkey_ecdsa_def
        is_pay_to_script_hash_def address_new_def version_is_shielded_def nth_append Let_def)
next
  case VShieldedOrchard
  then show ?thesis using assms
    by (simp add: pay_to_address_script_def pay_to_shielded_address_def extract_script_pub_key_address_def script_class_from_script_def
        script_class_from_version_def script_class_version_def is_pay_to_pubkey_def is_pay_to_pubkey_ecdsa_def
        is_pay_to_script_hash_def MAX_SCRIPT_PUBLIC_KEY_VERSION_def version_is_shielded_def Let_def)
qed

theorem address_script_roundtrip_witness:
  "\<exists>spk. (pay_to_address_script \<lparr>ad_prefix = Mainnet, ad_version = VScriptHash, ad_payload = replicate 32 5\<rparr>
      :: (tx_script_error, script_public_key) outcome) = Ok spk \<and>
    extract_script_pub_key_address spk Mainnet = Ok \<lparr>ad_prefix = Mainnet, ad_version = VScriptHash, ad_payload = replicate 32 5\<rparr>"
  using address_script_roundtrip [of "\<lparr>ad_prefix = Mainnet, ad_version = VScriptHash, ad_payload = replicate 32 5\<rparr>"]
  by (simp add: version_is_shielded_def)

end
