(* ===== verification/Spec2Isabelle.thy ===== *)
theory Spec2Isabelle
  imports Burn_Accumulator Anchor_Log Note_Tree Bundle_Codec Turnstile_Ledger Nullifier_Set Shielded_State
    Chain_Types Prefix_Codes Tx_Hashing Block_Subsidy Coinbase_Manager Utxo_Diff
    Sig_Hash Script_Num Script_Stack Covenants_Context Zk_Precompiles Script_Parse Addresses Script_Builder
begin

text \<open>
  A verification library for \<^bold>\<open>zkas-rusty\<close>, a proof-of-work BlockDAG node with a shielded
  (Orchard-style) value pool, written in Rust. File names below are relative to \<^verbatim>\<open>src/\<close>.

  \<^bold>\<open>The program.\<close> A chain block carries a coinbase and transactions. The shielded core
  (\<^verbatim>\<open>shielded-core/src\<close>) applies the shielded effects of a block: it rejects conflicting nullifiers, appends
  note commitments to the global tree, moves the supply ledger and records bridge burns. Consensus
  (\<^verbatim>\<open>consensus\<close>) defines transactions, their identifiers and signature hashes, pays block rewards and keeps
  the transparent UTXO set as diffs over diffs. The script layer (\<^verbatim>\<open>crypto/txscript/src\<close>) parses, builds and meters
  the scripts that guard transparent outputs, and \<^verbatim>\<open>crypto/addresses/src\<close> prints and reads the addresses those
  scripts pay to.

  \<^bold>\<open>Conventions\<close> (theory \<open>Prelude_Zkas\<close>). A fallible computation is an \<open>outcome\<close>: \<open>Ok\<close>, \<open>Err\<close> or \<open>Panic\<close>. The
  release profile of the workspace keeps overflow checks, so an arithmetic overflow, an out-of-range index, a failed
  assertion and an \<^verbatim>\<open>unwrap\<close> of nothing are all \<open>Panic\<close>, and a theorem that a call does not panic is a theorem about
  each of them; a debug assertion is compiled out there and is not modelled. Machine integers are words of their width; \<^verbatim>\<open>usize\<close> lengths are natural numbers. \<open>safe m Q\<close> says that \<open>m\<close> does
  not panic and that a value it returns satisfies \<open>Q\<close>; its rules compute weakest preconditions of call sequences.
  Hash functions are parameters; binding theorems conclude with equality or a \<open>collision\<close> between two explicit
  sets of hashed strings.

  \<^bold>\<open>Shielded core.\<close>
  \<^item> \<open>Nullifier_Set\<close> models \<^verbatim>\<open>nullifier.rs\<close>: the set, the resolver and \<open>try_accept\<close>; the locale of the finalized set is
    interpreted on the in-memory set.
  \<^item> \<open>Turnstile_Ledger\<close> models \<^verbatim>\<open>turnstile.rs\<close>: the totals, the seams, \<open>pool_value\<close> and \<open>ledger_check\<close>.
  \<^item> \<open>Burn_Accumulator\<close> models \<^verbatim>\<open>burn.rs\<close>: a receipt's branch verifies, and a branch of whatever length that
    verifies binds the receipt, by the separation of the leaf and node domains.
  \<^item> \<open>Anchor_Log\<close> models \<^verbatim>\<open>anchor_window.rs\<close>: a Merkle mountain range; replay succeeds exactly on chained entries and
    builds it, and its commitment is reached exactly by its last entries on the log before them.
  \<^item> \<open>Note_Tree\<close> models \<^verbatim>\<open>tree.rs\<close> over the third-party frontier \<open>orchard_ops\<close>; snapshots restore the tree.
  \<^item> \<open>Bundle_Codec\<close> models \<^verbatim>\<open>bundle.rs\<close>: the decoder accepts exactly the canonical encodings, and
    declarations attached to a proven bundle change nothing else.
  \<^item> \<open>Shielded_State\<close> models \<^verbatim>\<open>state.rs\<close>. The inductive relation \<open>chain\<close> reaches a state from genesis by applying chain
    blocks, accepted or rejected. Over it: no double spend, no inflation, stores equal to the replay of history;
    for one block: acceptance exactly under \<open>block_valid\<close>, and first-in-order conflict resolution.

  \<^bold>\<open>Consensus.\<close>
  \<^item> \<open>Chain_Types\<close> has the data of \<^verbatim>\<open>consensus/core/src/tx.rs\<close> and its neighbours, \<open>Prefix_Codes\<close> the theory of uniquely
    decodable writers, and \<open>Tx_Hashing\<close> models \<^verbatim>\<open>hashing/tx.rs\<close>: identifiers and hashes bind the transaction.
  \<^item> \<open>Sig_Hash\<close> models \<^verbatim>\<open>hashing/sighash.rs\<close>: the cache is transparent, and what a hash of type all covers is stated
    exactly, the signature-operation counts only below version 1.
  \<^item> \<open>Block_Subsidy\<close> and \<open>Coinbase_Manager\<close> model \<^verbatim>\<open>consensus/src/processes/coinbase.rs\<close>: the emission schedule computed in
    fixed width equals the schedule over the naturals and meets its bounds at both ends, the payload codec is exact, and the expected coinbase
    conserves value and is always built.
  \<^item> \<open>Utxo_Diff\<close> models \<^verbatim>\<open>consensus/core/src/utxo\<close>: composition and difference of diffs against the sets they describe.

  \<^bold>\<open>Scripts and addresses.\<close>
  \<^item> \<open>Script_Num\<close> and \<open>Script_Stack\<close> model \<^verbatim>\<open>data_stack.rs\<close>, \<^verbatim>\<open>runtime_resource_meter.rs\<close> and \<^verbatim>\<open>mass/units.rs\<close>: exact
    number codecs, one contract per stack operation (\<open>fits\<close>, \<open>fresh\<close>), the meter invariant, the least compute budget.
  \<^item> \<open>Covenants_Context\<close> models \<^verbatim>\<open>covenants.rs\<close> and \<^verbatim>\<open>covenant_id.rs\<close>.
  \<^item> \<open>Zk_Precompiles\<close> models \<^verbatim>\<open>zk_precompiles/\<close>: the two verifiers as stack programs over the library record \<open>zk_env\<close>.
  \<^item> \<open>Script_Parse\<close> models \<^verbatim>\<open>opcodes/macros.rs\<close>, the opcode metadata of \<^verbatim>\<open>opcodes/mod.rs\<close>, the parser and scanners of
    \<^verbatim>\<open>lib.rs\<close> and \<^verbatim>\<open>script_class.rs\<close>: parsing and serializing are inverse, and the parser terminates.
  \<^item> \<open>Addresses\<close> models \<^verbatim>\<open>crypto/addresses/src\<close>: regrouping, checksum and the two string conversions.
  \<^item> \<open>Script_Builder\<close> models \<^verbatim>\<open>script_builder.rs\<close>, \<^verbatim>\<open>standard.rs\<close> and \<^verbatim>\<open>standard/multisig.rs\<close>.

  \<^bold>\<open>Bounds and recursion.\<close> No definition uses fuel. Loops are structural recursion, folds, or functions with a
  termination proof by a length or bit-count measure (\<open>parse_script\<close>, \<open>drain_bits\<close>, \<open>magnitude_bytes\<close>). Numeric bounds
  in hypotheses (totals that fit 64 or 128 bits, fewer than \<open>2 ^ 32\<close> receipts, fewer than \<open>2 ^ 64\<close> log entries) are the
  widths of the counters in the code, and each theorem with such a bound has a witness.

  \<^bold>\<open>Not modelled.\<close> The effects of the script opcodes and the engine loop of \<^verbatim>\<open>lib.rs\<close> (their operands, that is numbers,
  stacks, meters, signature hashes, covenants and precompiles, are modelled). Curve arithmetic, hash functions,
  Orchard proofs and the zero-knowledge libraries are third-party code and appear as parameters. Database stores,
  the pipeline of consensus processors, networking, mempool, mining, RPC, wallets, indexes, command-line programs
  and bindings are concurrent input and output around the modelled data and are left out; so are serde, borsh
  and wasm conversions, logging and metrics.
\<close>

end
